(* ===== verification/Prelude.thy ===== *)
theory Prelude
  imports Main "HOL-Library.Monad_Syntax"
begin

text \<open>
  Shared vocabulary of the development.

  Go values and effects:
  \<^item> \<open>'a go\<close> is the result of a computation that may end in a run-time panic
    (index or slice bounds out of range): \<open>None\<close> is the panic. Expected errors, the
    ones Go functions return as values, are sums and never use this type.
  \<^item> \<open>go_nth\<close>, \<open>go_upd\<close>, \<open>go_from\<close>, \<open>go_upto\<close> are \<open>xs[i]\<close>, \<open>xs[i] = v\<close>,
    \<open>xs[i:]\<close> and \<open>xs[:i]\<close> with Go's bounds checks.
  \<^item> \<open>wrap64\<close> is the wrap-around of Go's 64-bit \<open>int\<close>; it is written only where a
    result can leave the range.

  The collections \<open>go_defs\<close> (definitions unfolded to evaluate a model on concrete
  input) and \<open>go_inv\<close> (preservation facts) are filled by the component theories.
\<close>

named_theorems go_defs \<open>definitions unfolded to run the model on a concrete input\<close>
named_theorems go_inv \<open>preservation facts of the component invariants\<close>

type_synonym 'a go = "'a option"

definition go_nth :: "'a list \<Rightarrow> int \<Rightarrow> 'a go" where
  "go_nth xs i = (if 0 \<le> i \<and> i < int (length xs) then Some (xs ! nat i) else None)"

definition go_upd :: "'a list \<Rightarrow> int \<Rightarrow> 'a \<Rightarrow> 'a list go" where
  "go_upd xs i v = (if 0 \<le> i \<and> i < int (length xs) then Some (xs[nat i := v]) else None)"

definition go_from :: "'a list \<Rightarrow> int \<Rightarrow> 'a list go" where
  "go_from xs i = (if 0 \<le> i \<and> i \<le> int (length xs) then Some (drop (nat i) xs) else None)"

definition go_upto :: "'a list \<Rightarrow> int \<Rightarrow> 'a list go" where
  "go_upto xs i = (if 0 \<le> i \<and> i \<le> int (length xs) then Some (take (nat i) xs) else None)"

declare go_nth_def [go_defs] go_upd_def [go_defs] go_from_def [go_defs] go_upto_def [go_defs]

definition int64_min :: int where
  "int64_min = - 9223372036854775808"

definition int64_max :: int where
  "int64_max = 9223372036854775807"

definition wrap64 :: "int \<Rightarrow> int" where
  "wrap64 n = (n + 9223372036854775808) mod 18446744073709551616 - 9223372036854775808"

lemma wrap64_id: "int64_min \<le> n \<Longrightarrow> n \<le> int64_max \<Longrightarrow> wrap64 n = n"
  by (simp add: wrap64_def int64_min_def int64_max_def)

lemma go_nth_inside [simp]:
  "0 \<le> i \<Longrightarrow> i < int (length xs) \<Longrightarrow> go_nth xs i = Some (xs ! nat i)"
  by (simp add: go_nth_def)

lemma go_nth_Some_iff:
  "go_nth xs i = Some v \<longleftrightarrow> 0 \<le> i \<and> i < int (length xs) \<and> v = xs ! nat i"
  by (auto simp: go_nth_def)

lemma go_nth_last: "xs \<noteq> [] \<Longrightarrow> go_nth xs (int (length xs) - 1) = Some (last xs)"
proof -
  assume "xs \<noteq> []"
  moreover from this have "nat (int (length xs) - 1) = length xs - 1"
    by (cases xs) auto
  ultimately show ?thesis
    by (cases xs) (auto simp: go_nth_def last_conv_nth)
qed

lemma go_upd_inside [simp]:
  "0 \<le> i \<Longrightarrow> i < int (length xs) \<Longrightarrow> go_upd xs i v = Some (xs[nat i := v])"
  by (simp add: go_upd_def)

lemma go_from_inside [simp]:
  "0 \<le> i \<Longrightarrow> i \<le> int (length xs) \<Longrightarrow> go_from xs i = Some (drop (nat i) xs)"
  by (simp add: go_from_def)

text \<open>
  Association lists stand for Go maps in one of their iteration orders. Go leaves the
  order of \<open>range\<close> over a map unspecified, so a statement about a loop over a map is
  proved for every order, that is for every list with these entries.
\<close>

fun assoc_put :: "'k \<Rightarrow> 'v \<Rightarrow> ('k \<times> 'v) list \<Rightarrow> ('k \<times> 'v) list" where
  "assoc_put k v [] = [(k, v)]"
| "assoc_put k v ((k', v') # m) = (if k' = k then (k, v) # m else (k', v') # assoc_put k v m)"

lemma map_of_assoc_put [simp]: "map_of (assoc_put k v m) = (map_of m)(k \<mapsto> v)"
  by (induction k v m rule: assoc_put.induct) auto

lemma keys_assoc_put: "set (map fst (assoc_put k v m)) = insert k (set (map fst m))"
  by (induction k v m rule: assoc_put.induct) auto

lemma distinct_assoc_put [go_inv]:
  "distinct (map fst m) \<Longrightarrow> distinct (map fst (assoc_put k v m))"
proof (induction k v m rule: assoc_put.induct)
  case (2 k v k' v' m)
  then show ?case using keys_assoc_put [of k v m] by auto
qed simp

end
