(* ===== verification/GoStrings.thy ===== *)
theory GoStrings
  imports Prelude
begin

text \<open>
  The parts of Go's \<open>strings\<close>, \<open>strconv\<close> and \<open>fmt\<close> packages the program calls. A Go
  string is its bytes, a \<open>string\<close> here (a \<open>char\<close> is one byte).

  \<open>ToUpper\<close>, \<open>ToLower\<close> and \<open>TrimSpace\<close> treat a string of ASCII bytes byte by byte and
  fall back to the Unicode tables otherwise. The tables are data of Go's \<open>unicode\<close>
  package and no part of this repository: they are the argument of type \<open>unicode\<close>.
\<close>

record unicode =
  u_upper :: "string \<Rightarrow> string"
  u_lower :: "string \<Rightarrow> string"
  u_trim :: "string \<Rightarrow> string"
  u_quote :: "string \<Rightarrow> string"

text \<open>A table for concrete runs on ASCII text, where it is never consulted.\<close>

definition no_tables :: unicode where
  "no_tables = \<lparr>u_upper = (\<lambda>s. s), u_lower = (\<lambda>s. s), u_trim = (\<lambda>s. s), u_quote = (\<lambda>s. s)\<rparr>"

definition byte :: "char \<Rightarrow> int" where
  "byte c = of_char c"

definition ascii :: "string \<Rightarrow> bool" where
  "ascii s = list_all (\<lambda>c. byte c < 128) s"

definition is_space :: "char \<Rightarrow> bool" where
  "is_space c = (byte c = 32 \<or> (9 \<le> byte c \<and> byte c \<le> 13))"

definition is_digit :: "char \<Rightarrow> bool" where
  "is_digit c = (48 \<le> byte c \<and> byte c \<le> 57)"

definition upper_c :: "char \<Rightarrow> char" where
  "upper_c c = (if 97 \<le> byte c \<and> byte c \<le> 122 then char_of (byte c - 32) else c)"

definition lower_c :: "char \<Rightarrow> char" where
  "lower_c c = (if 65 \<le> byte c \<and> byte c \<le> 90 then char_of (byte c + 32) else c)"

definition to_upper :: "unicode \<Rightarrow> string \<Rightarrow> string" where
  "to_upper U s = (if ascii s then map upper_c s else u_upper U s)"

definition to_lower :: "unicode \<Rightarrow> string \<Rightarrow> string" where
  "to_lower U s = (if ascii s then map lower_c s else u_lower U s)"

definition trim_both :: "string \<Rightarrow> string" where
  "trim_both s = rev (dropWhile is_space (rev (dropWhile is_space s)))"

definition trim_space :: "unicode \<Rightarrow> string \<Rightarrow> string" where
  "trim_space U s = (if ascii s then trim_both s else u_trim U s)"

definition has_prefix :: "string \<Rightarrow> string \<Rightarrow> bool" where
  "has_prefix s p = (take (length p) s = p)"

text \<open>The verb \<open>%q\<close>: \<open>strconv.Quote\<close>.\<close>

definition low_hex :: "int \<Rightarrow> char" where
  "low_hex n = (if n < 10 then char_of (n + 48) else char_of (n + 87))"

definition quote_char :: "char \<Rightarrow> string" where
  "quote_char c =
     (let b = byte c; bs = CHR 0x5C in
      if b = 34 then [bs, CHR 0x22] else if b = 92 then [bs, bs]
      else if b = 7 then [bs, CHR ''a''] else if b = 8 then [bs, CHR ''b'']
      else if b = 12 then [bs, CHR ''f''] else if b = 10 then [bs, CHR ''n'']
      else if b = 13 then [bs, CHR ''r''] else if b = 9 then [bs, CHR ''t'']
      else if b = 11 then [bs, CHR ''v'']
      else if b < 32 \<or> b = 127 then [bs, CHR ''x'', low_hex (b div 16), low_hex (b mod 16)]
      else [c])"

definition go_quote :: "unicode \<Rightarrow> string \<Rightarrow> string" where
  "go_quote U s = (if ascii s then [CHR 0x22] @ concat (map quote_char s) @ [CHR 0x22] else u_quote U s)"

text \<open>\<open>strings.Index\<close>, with \<open>None\<close> for -1.\<close>

fun index :: "string \<Rightarrow> string \<Rightarrow> nat option" where
  "index [] p = (if p = [] then Some 0 else None)"
| "index (c # s) p = (if has_prefix (c # s) p then Some 0 else map_option Suc (index s p))"

text \<open>\<open>strings.ReplaceAll\<close> for a non-empty pattern.\<close>

function replace_all :: "string \<Rightarrow> string \<Rightarrow> string \<Rightarrow> string" where
  "replace_all old new [] = []"
| "replace_all old new (c # s) =
     (if old \<noteq> [] \<and> has_prefix (c # s) old
      then new @ replace_all old new (drop (length old) (c # s))
      else c # replace_all old new s)"
  by pat_completeness auto
termination
  by (relation "measure (\<lambda>(old, new, s). length s)") auto

text \<open>\<open>strings.Split\<close> on a one-byte separator, and \<open>strings.Join\<close>.\<close>

fun split_on :: "char \<Rightarrow> string \<Rightarrow> string list" where
  "split_on d [] = [[]]"
| "split_on d (c # s) =
     (if c = d then [] # split_on d s
      else case split_on d s of [] \<Rightarrow> [[c]] | w # ws \<Rightarrow> (c # w) # ws)"

fun join :: "string \<Rightarrow> string list \<Rightarrow> string" where
  "join sep [] = []"
| "join sep [w] = w"
| "join sep (w # v # ws) = w @ sep @ join sep (v # ws)"

section \<open>Decimal numbers\<close>

definition digit_char :: "int \<Rightarrow> char" where
  "digit_char d = char_of (48 + d)"

function show_digits :: "int \<Rightarrow> string" where
  "show_digits n = (if n < 10 then [digit_char n]
     else show_digits (n div 10) @ [digit_char (n mod 10)])"
  by pat_completeness auto
termination
  by (relation "measure nat") auto

declare show_digits.simps [simp del]

text \<open>\<open>fmt\<close>'s \<open>%d\<close>.\<close>

definition show_int :: "int \<Rightarrow> string" where
  "show_int n = (if n < 0 then ''-'' @ show_digits (- n) else show_digits n)"

definition digit_val :: "char \<Rightarrow> int" where
  "digit_val c = byte c - 48"

definition digits_val :: "string \<Rightarrow> int" where
  "digits_val s = foldl (\<lambda>a c. 10 * a + digit_val c) 0 s"

text \<open>\<open>strconv.Atoi\<close>: an optional sign, decimal digits, in the range of \<open>int64\<close>.\<close>

definition atoi :: "string \<Rightarrow> int option" where
  "atoi s =
     (let neg = (take 1 s = ''-'');
          ds = (if neg \<or> take 1 s = ''+'' then drop 1 s else s)
      in if ds = [] \<or> \<not> list_all is_digit ds then None
         else let v = (if neg then - digits_val ds else digits_val ds)
              in if int64_min \<le> v \<and> v \<le> int64_max then Some v else None)"

declare byte_def [go_defs] ascii_def [go_defs] is_space_def [go_defs] is_digit_def [go_defs]
  upper_c_def [go_defs] lower_c_def [go_defs] to_upper_def [go_defs] to_lower_def [go_defs]
  trim_both_def [go_defs] trim_space_def [go_defs] has_prefix_def [go_defs]
  digit_char_def [go_defs] show_int_def [go_defs] digit_val_def [go_defs]
  digits_val_def [go_defs] atoi_def [go_defs] int64_min_def [go_defs] int64_max_def [go_defs]

section \<open>Facts\<close>

lemma byte_less: "byte c < 256"
proof -
  have "of_char c mod 256 = (of_char c :: int)" by (rule of_char_mod_256)
  then show ?thesis unfolding byte_def by (metis pos_mod_bound zero_less_numeral)
qed

lemma byte_nonneg: "0 \<le> byte c"
proof -
  have "of_char c mod 256 = (of_char c :: int)" by (rule of_char_mod_256)
  then show ?thesis unfolding byte_def by (metis pos_mod_sign zero_less_numeral)
qed

lemma byte_char_of: "0 \<le> n \<Longrightarrow> n < 256 \<Longrightarrow> byte (char_of n) = n"
  by (simp add: byte_def)

lemma byte_upper_c: "byte (upper_c c) = (if 97 \<le> byte c \<and> byte c \<le> 122 then byte c - 32 else byte c)"
  using byte_less [of c] byte_char_of [of "byte c - 32"] by (auto simp: upper_c_def)

lemma byte_lower_c: "byte (lower_c c) = (if 65 \<le> byte c \<and> byte c \<le> 90 then byte c + 32 else byte c)"
  using byte_less [of c] byte_char_of [of "byte c + 32"] by (auto simp: lower_c_def)

lemma upper_c_idem [simp]: "upper_c (upper_c c) = upper_c c"
  using byte_upper_c [of c] by (auto simp: upper_c_def [of "upper_c c"])

lemma upper_lower_c [simp]: "upper_c (lower_c c) = upper_c c"
proof (cases "65 \<le> byte c \<and> byte c \<le> 90")
  case True
  then have "byte (lower_c c) = byte c + 32" by (simp add: byte_lower_c)
  with True have "upper_c (lower_c c) = char_of (byte c)" by (simp add: upper_c_def)
  moreover from True have "upper_c c = c" by (auto simp: upper_c_def)
  ultimately show ?thesis by (simp add: byte_def)
next
  case False
  then have "lower_c c = c" by (auto simp: lower_c_def)
  then show ?thesis by simp
qed

lemma ascii_upper [simp]: "ascii s \<Longrightarrow> ascii (map upper_c s)"
  by (auto simp: ascii_def list_all_iff byte_upper_c)

lemma is_space_upper [simp]: "is_space (upper_c c) = is_space c"
  by (auto simp: is_space_def byte_upper_c)

lemma ascii_Nil [simp]: "ascii []"
  by (simp add: ascii_def)

lemma ascii_Cons [simp]: "ascii (c # s) \<longleftrightarrow> byte c < 128 \<and> ascii s"
  by (simp add: ascii_def)

lemma ascii_append [simp]: "ascii (s @ t) \<longleftrightarrow> ascii s \<and> ascii t"
  by (simp add: ascii_def)

lemma ascii_subset: "set t \<subseteq> set s \<Longrightarrow> ascii s \<Longrightarrow> ascii t"
  by (auto simp: ascii_def list_all_iff)

lemma set_trim_both: "set (trim_both s) \<subseteq> set s"
  by (auto simp: trim_both_def dest!: set_dropWhileD)

lemma ascii_trim [simp]: "ascii s \<Longrightarrow> ascii (trim_both s)"
  by (rule ascii_subset [OF set_trim_both])

lemma dropWhile_id: "s = [] \<or> \<not> P (hd s) \<Longrightarrow> dropWhile P s = s"
  by (cases s) auto

lemma hd_dropWhile_rev:
  assumes "\<not> is_space (hd (dropWhile is_space s))" and "dropWhile is_space s \<noteq> []"
  shows "dropWhile is_space (trim_both s) = trim_both s"
proof -
  obtain a t where d: "dropWhile is_space s = a # t" and na: "\<not> is_space a"
    using assms by (cases "dropWhile is_space s") auto
  have "dropWhile is_space (rev t @ [a]) \<noteq> []"
    using na by (simp add: dropWhile_eq_Nil_conv)
  then have "last (dropWhile is_space (rev t @ [a])) = a"
    by (metis last_appendR last_snoc list.distinct(1) takeWhile_dropWhile_id)
  then have "hd (trim_both s) = a"
    using d by (simp add: trim_both_def hd_rev)
  then show ?thesis using na by (intro dropWhile_id) auto
qed

lemma trim_both_idem [simp]: "trim_both (trim_both s) = trim_both s"
proof (cases "dropWhile is_space s = []")
  case True
  then have "trim_both s = []" unfolding trim_both_def by (simp only: rev.simps dropWhile.simps)
  moreover have "trim_both [] = []" by (simp add: trim_both_def)
  ultimately show ?thesis by simp
next
  case False
  then have "\<not> is_space (hd (dropWhile is_space s))"
    by (rule hd_dropWhile)
  then have "dropWhile is_space (trim_both s) = trim_both s"
    using False by (rule hd_dropWhile_rev)
  moreover have "dropWhile is_space (rev (trim_both s)) = rev (trim_both s)"
    by (simp add: trim_both_def)
  ultimately show ?thesis
    by (simp add: trim_both_def [of "trim_both s"])
qed

lemma trim_both_map_upper: "trim_both (map upper_c s) = map upper_c (trim_both s)"
proof -
  have d: "dropWhile is_space (map upper_c t) = map upper_c (dropWhile is_space t)" for t
    by (induction t) auto
  show ?thesis by (simp add: trim_both_def d rev_map)
qed

lemma has_prefix_append [simp]: "has_prefix (p @ s) p"
  by (simp add: has_prefix_def)

lemma index_here: "has_prefix s p \<Longrightarrow> index s p = Some 0"
  by (cases s) (auto simp: has_prefix_def)

lemma index_append:
  assumes "p \<noteq> []" and "hd p \<notin> set a"
  shows "index (a @ p @ b) p = Some (length a)"
  using assms(2)
proof (induction a)
  case Nil
  show ?case by (simp add: index_here)
next
  case (Cons c a)
  then have "c \<noteq> hd p" by auto
  then have "\<not> has_prefix (c # a @ p @ b) p"
    using assms(1) by (cases p) (auto simp: has_prefix_def)
  with Cons show ?case by simp
qed

lemma index_Some_bound: "index s p = Some i \<Longrightarrow> i + length p \<le> length s"
proof (induction s arbitrary: i)
  case Nil
  then show ?case by (simp split: if_splits)
next
  case (Cons c s)
  show ?case
  proof (cases "has_prefix (c # s) p")
    case True
    with Cons.prems have "i = 0" by simp
    moreover from True have "length p \<le> length (c # s)"
      unfolding has_prefix_def by (metis length_take min.cobounded1)
    ultimately show ?thesis by simp
  next
    case False
    with Cons.prems obtain j where "index s p = Some j" and "i = Suc j" by auto
    with Cons.IH show ?thesis by fastforce
  qed
qed

lemma index_None_notin: "p \<noteq> [] \<Longrightarrow> hd p \<notin> set s \<Longrightarrow> index s p = None"
proof (induction s)
  case (Cons c s)
  then have "\<not> has_prefix (c # s) p"
    by (cases p) (auto simp: has_prefix_def)
  with Cons show ?case by simp
qed simp

lemma byte_digit_char: "0 \<le> d \<Longrightarrow> d < 10 \<Longrightarrow> byte (digit_char d) = 48 + d"
  by (simp add: digit_char_def byte_char_of)

lemma digit_val_char [simp]: "0 \<le> d \<Longrightarrow> d < 10 \<Longrightarrow> digit_val (digit_char d) = d"
  by (simp add: digit_val_def byte_digit_char)

lemma is_digit_char [simp]: "0 \<le> d \<Longrightarrow> d < 10 \<Longrightarrow> is_digit (digit_char d)"
  by (simp add: is_digit_def byte_digit_char)

lemma show_digits_digits: "0 \<le> n \<Longrightarrow> list_all is_digit (show_digits n)"
proof (induction n rule: show_digits.induct)
  case (1 n)
  then show ?case
    by (subst show_digits.simps) (auto simp: pos_imp_zdiv_nonneg_iff)
qed

lemma show_digits_nonempty [simp]: "show_digits n \<noteq> []"
  by (subst show_digits.simps) simp

lemma digits_val_snoc: "digits_val (s @ [c]) = 10 * digits_val s + digit_val c"
  by (simp add: digits_val_def)

lemma digits_val_show [simp]: "0 \<le> n \<Longrightarrow> digits_val (show_digits n) = n"
proof (induction n rule: show_digits.induct)
  case (1 n)
  show ?case
  proof (cases "n < 10")
    case True
    with "1.prems" show ?thesis
      by (subst show_digits.simps) (simp add: digits_val_def)
  next
    case False
    with 1 have "digits_val (show_digits (n div 10)) = n div 10" by simp
    with False show ?thesis
      by (subst show_digits.simps) (simp add: digits_val_snoc)
  qed
qed

lemma hd_show_digits: "0 \<le> n \<Longrightarrow> is_digit (hd (show_digits n))"
  using show_digits_digits [of n] by (cases "show_digits n") auto

lemma not_digit_sign [simp]: "\<not> is_digit (CHR ''-'')" "\<not> is_digit (CHR ''+'')" "\<not> is_digit (CHR ''~'')"
  "\<not> is_digit (CHR ''_'')" "\<not> is_digit (CHR ''|'')"
  by (simp_all add: is_digit_def byte_def)

lemma digits_not_in: "list_all is_digit s \<Longrightarrow> \<not> is_digit c \<Longrightarrow> c \<notin> set s"
  by (auto simp: list_all_iff)

lemma atoi_show_digits:
  assumes "0 \<le> n" and "n \<le> int64_max"
  shows "atoi (show_digits n) = Some n"
proof -
  have "take 1 (show_digits n) = [hd (show_digits n)]"
    by (cases "show_digits n") (use show_digits_nonempty [of n] in auto)
  moreover have "hd (show_digits n) \<noteq> CHR ''-''" "hd (show_digits n) \<noteq> CHR ''+''"
    using hd_show_digits [OF assms(1)] by auto
  ultimately show ?thesis
    using assms by (simp add: atoi_def show_digits_digits int64_min_def int64_max_def)
qed

lemma show_digits_inj: "0 \<le> m \<Longrightarrow> 0 \<le> n \<Longrightarrow> show_digits m = show_digits n \<Longrightarrow> m = n"
  by (metis digits_val_show)

lemma show_int_inj: "show_int m = show_int n \<Longrightarrow> m = n"
proof -
  assume eq: "show_int m = show_int n"
  have hd: "0 \<le> k \<Longrightarrow> show_digits k \<noteq> CHR ''-'' # s" for k s
    using hd_show_digits [of k] by auto
  show "m = n"
    using eq hd [of m] hd [of n] show_digits_inj [of m n] show_digits_inj [of "- m" "- n"]
    by (auto simp: show_int_def split: if_splits) (metis hd)+
qed

lemma show_int_chars: "c \<in> set (show_int n) \<Longrightarrow> is_digit c \<or> c = CHR ''-''"
  using show_digits_digits [of n] show_digits_digits [of "- n"]
  by (auto simp: show_int_def list_all_iff split: if_splits)

lemma show_int_not_in:
  "\<not> is_digit c \<Longrightarrow> c \<noteq> CHR ''-'' \<Longrightarrow> c \<notin> set (show_int n)"
  using show_int_chars by blast

text \<open>A separator that is in neither tail splits a string in one way.\<close>

lemma split_at_last:
  assumes "a @ [c] @ b = a' @ [c] @ b'" and "c \<notin> set b" and "c \<notin> set b'"
  shows "a = a' \<and> b = b'"
proof -
  have r: "rev b @ c # rev a = rev b' @ c # rev a'"
    using arg_cong [OF assms(1), of rev] by simp
  have t: "takeWhile (\<lambda>x. x \<noteq> c) (rev u @ c # w) = rev u"
          "dropWhile (\<lambda>x. x \<noteq> c) (rev u @ c # w) = c # w" if "c \<notin> set u" for u w
    using that by (auto simp: takeWhile_append dropWhile_append)
  from r have "rev b = rev b'" and "c # rev a = c # rev a'"
    using t [OF assms(2)] t [OF assms(3)] by metis+
  then show ?thesis by simp
qed

end
