(* ===== verification/Float64.thy ===== *)
theory Float64
  imports Complex_Main "HOL-Library.Log_Nat" GoStrings
begin

text \<open>
  Go's \<open>float64\<close>: IEEE 754 binary64 with round-to-nearest-even, executable.

  A finite value is \<open>FNum s m e\<close>, the number \<open>(-1)^s * m * 2^e\<close>, with \<open>0 \<le> m < 2^53\<close>
  and \<open>-1074 \<le> e \<le> 971\<close> in the one form \<open>f64_ok\<close> accepts; \<open>FNum True 0 (-1074)\<close> is
  \<open>-0\<close>. Every operation computes the exact integer or quotient and rounds it once
  (\<open>fround\<close>), as the hardware does. The target is amd64: no fused multiply-add, and the
  conversion of a NaN or of a value out of range to \<open>int\<close> gives \<open>-2^63\<close>.

  The second half relates the operations to the reals: \<open>xval\<close> is the value (infinities
  at \<open>\<plusminus>2^1024\<close>) and \<open>fl\<close> the rounding of a real, so that \<open>xval (x + y) = fl (xval x +
  xval y)\<close>. \<open>fl\<close> picks a nearest representable number (\<open>near_rnd\<close>), hence it is
  monotone (\<open>fl_mono\<close>) and fixes representable numbers (\<open>fl_rep\<close>): these three facts
  are what the proofs about the indicators use.
\<close>

section \<open>Representation and operations\<close>

datatype f64 = FNaN | FInf bool | FNum bool int int

definition f64_ok :: "f64 \<Rightarrow> bool" where
  "f64_ok x = (case x of FNum s m e \<Rightarrow>
       0 \<le> m \<and> m < 2 ^ 53 \<and> -1074 \<le> e \<and> e \<le> 971 \<and> (2 ^ 52 \<le> m \<or> e = -1074)
     | _ \<Rightarrow> True)"

definition flog2 :: "int \<Rightarrow> int \<Rightarrow> int" where
  "flog2 p q = (let k = bitlen p - bitlen q in
     if (if 0 \<le> k then q * 2 ^ nat k \<le> p else q \<le> p * 2 ^ nat (- k)) then k else k - 1)"

definition round_half_even :: "int \<Rightarrow> int \<Rightarrow> int" where
  "round_half_even n d = (let m = n div d; r = n mod d in
     if d < 2 * r \<or> (d = 2 * r \<and> odd m) then m + 1 else m)"

text \<open>The float nearest to \<open>(-1)^s * (p / q) * 2^x\<close>, for \<open>0 \<le> p\<close> and \<open>0 < q\<close>.\<close>

definition fround :: "bool \<Rightarrow> int \<Rightarrow> int \<Rightarrow> int \<Rightarrow> f64" where
  "fround s p q x =
     (if p = 0 then FNum s 0 (-1074)
      else let e = max (-1074) (x + flog2 p q - 52);
               m = (if e \<le> x then round_half_even (p * 2 ^ nat (x - e)) q
                    else round_half_even p (q * 2 ^ nat (e - x)));
               m' = (if m = 2 ^ 53 then 2 ^ 52 else m);
               e' = (if m = 2 ^ 53 then e + 1 else e)
           in if 971 < e' then FInf s else FNum s m' e')"

text \<open>Exact signed integers at a common exponent.\<close>

definition scaled :: "bool \<Rightarrow> int \<Rightarrow> int \<Rightarrow> int \<Rightarrow> int" where
  "scaled s m e b = (if s then - m else m) * 2 ^ nat (e - b)"

fun fle :: "f64 \<Rightarrow> f64 \<Rightarrow> bool" where
  "fle FNaN y = False"
| "fle x FNaN = False"
| "fle (FInf s) (FInf t) = (s \<or> \<not> t)"
| "fle (FInf s) (FNum _ _ _) = s"
| "fle (FNum _ _ _) (FInf t) = (\<not> t)"
| "fle (FNum s m e) (FNum t n d) = (scaled s m e (min e d) \<le> scaled t n d (min e d))"

fun flt :: "f64 \<Rightarrow> f64 \<Rightarrow> bool" where
  "flt FNaN y = False"
| "flt x FNaN = False"
| "flt (FInf s) (FInf t) = (s \<and> \<not> t)"
| "flt (FInf s) (FNum _ _ _) = s"
| "flt (FNum _ _ _) (FInf t) = (\<not> t)"
| "flt (FNum s m e) (FNum t n d) = (scaled s m e (min e d) < scaled t n d (min e d))"

text \<open>Go's \<open>==\<close> on floats: false on NaN, true on \<open>0\<close> and \<open>-0\<close>.\<close>

definition feq :: "f64 \<Rightarrow> f64 \<Rightarrow> bool" where
  "feq x y = (fle x y \<and> fle y x)"

fun fneg :: "f64 \<Rightarrow> f64" where
  "fneg FNaN = FNaN"
| "fneg (FInf s) = FInf (\<not> s)"
| "fneg (FNum s m e) = FNum (\<not> s) m e"

fun fabs :: "f64 \<Rightarrow> f64" where
  "fabs FNaN = FNaN"
| "fabs (FInf s) = FInf False"
| "fabs (FNum s m e) = FNum False m e"

fun fadd :: "f64 \<Rightarrow> f64 \<Rightarrow> f64" where
  "fadd FNaN y = FNaN"
| "fadd x FNaN = FNaN"
| "fadd (FInf s) (FInf t) = (if s = t then FInf s else FNaN)"
| "fadd (FInf s) (FNum _ _ _) = FInf s"
| "fadd (FNum _ _ _) (FInf t) = FInf t"
| "fadd (FNum s m e) (FNum t n d) =
     (let b = min e d; i = scaled s m e b + scaled t n d b
      in if i = 0 then FNum (s \<and> t) 0 (-1074) else fround (i < 0) \<bar>i\<bar> 1 b)"

fun fmul :: "f64 \<Rightarrow> f64 \<Rightarrow> f64" where
  "fmul FNaN y = FNaN"
| "fmul x FNaN = FNaN"
| "fmul (FInf s) (FInf t) = FInf (s \<noteq> t)"
| "fmul (FInf s) (FNum t n d) = (if n = 0 then FNaN else FInf (s \<noteq> t))"
| "fmul (FNum s m e) (FInf t) = (if m = 0 then FNaN else FInf (s \<noteq> t))"
| "fmul (FNum s m e) (FNum t n d) = fround (s \<noteq> t) (m * n) 1 (e + d)"

fun fdiv :: "f64 \<Rightarrow> f64 \<Rightarrow> f64" where
  "fdiv FNaN y = FNaN"
| "fdiv x FNaN = FNaN"
| "fdiv (FInf s) (FInf t) = FNaN"
| "fdiv (FInf s) (FNum t n d) = FInf (s \<noteq> t)"
| "fdiv (FNum s m e) (FInf t) = FNum (s \<noteq> t) 0 (-1074)"
| "fdiv (FNum s m e) (FNum t n d) =
     (if n = 0 then (if m = 0 then FNaN else FInf (s \<noteq> t))
      else fround (s \<noteq> t) m n (e - d))"

instantiation f64 :: "{plus, minus, times, inverse, uminus, zero, one, ord}"
begin

definition plus_f64 :: "f64 \<Rightarrow> f64 \<Rightarrow> f64" where
  "plus_f64 = fadd"

definition uminus_f64 :: "f64 \<Rightarrow> f64" where
  "uminus_f64 = fneg"

definition minus_f64 :: "f64 \<Rightarrow> f64 \<Rightarrow> f64" where
  "minus_f64 x y = fadd x (fneg y)"

definition times_f64 :: "f64 \<Rightarrow> f64 \<Rightarrow> f64" where
  "times_f64 = fmul"

definition divide_f64 :: "f64 \<Rightarrow> f64 \<Rightarrow> f64" where
  "divide_f64 = fdiv"

definition inverse_f64 :: "f64 \<Rightarrow> f64" where
  "inverse_f64 = fdiv (FNum False 4503599627370496 (-52))"

definition zero_f64 :: f64 where
  "zero_f64 = FNum False 0 (-1074)"

definition one_f64 :: f64 where
  "one_f64 = FNum False 4503599627370496 (-52)"

definition less_eq_f64 :: "f64 \<Rightarrow> f64 \<Rightarrow> bool" where
  "less_eq_f64 = fle"

definition less_f64 :: "f64 \<Rightarrow> f64 \<Rightarrow> bool" where
  "less_f64 = flt"

instance ..

end

text \<open>Conversions: \<open>float64(n)\<close>, a decimal literal \<open>n / 10^k\<close>, and \<open>int64(x)\<close>.\<close>

definition f64_of_int :: "int \<Rightarrow> f64" where
  "f64_of_int n = fround (n < 0) \<bar>n\<bar> 1 0"

definition fdec :: "int \<Rightarrow> nat \<Rightarrow> f64" where
  "fdec n k = fround (n < 0) \<bar>n\<bar> (10 ^ k) 0"

definition f64_to_int :: "f64 \<Rightarrow> int" where
  "f64_to_int x = (case x of FNum s m e \<Rightarrow>
       let t = (if 0 \<le> e then m * 2 ^ nat e else m div 2 ^ nat (- e));
           i = (if s then - t else t)
       in if int64_min \<le> i \<and> i \<le> int64_max then i else int64_min
     | _ \<Rightarrow> int64_min)"

text \<open>\<open>fmt\<close>'s \<open>%.<k>f\<close>: the exact value rounded half to even at \<open>k\<close> decimals.\<close>

definition pad_left :: "nat \<Rightarrow> string \<Rightarrow> string" where
  "pad_left n s = replicate (n - length s) (CHR ''0'') @ s"

definition show_fixed :: "nat \<Rightarrow> f64 \<Rightarrow> string" where
  "show_fixed k x = (case x of
       FNaN \<Rightarrow> ''NaN''
     | FInf s \<Rightarrow> (if s then ''-Inf'' else ''+Inf'')
     | FNum s m e \<Rightarrow>
         let i = (if 0 \<le> e then m * 2 ^ nat e * 10 ^ k
                  else round_half_even (m * 10 ^ k) (2 ^ nat (- e)));
             ds = pad_left (Suc k) (show_digits i);
             n = length ds - k
         in (if s then ''-'' else '''') @ take n ds @ (if k = 0 then '''' else ''.'' @ drop n ds))"

lemmas f64_ops = plus_f64_def minus_f64_def times_f64_def divide_f64_def uminus_f64_def
  zero_f64_def one_f64_def less_eq_f64_def less_f64_def

lemma bitlen_rec: "bitlen n = (if 0 < n then 1 + bitlen (n div 2) else 0)"
  by (simp add: compute_bitlen)

section \<open>Rounding of reals\<close>

definition rhe_real :: "real \<Rightarrow> int" where
  "rhe_real t = (if 1 / 2 < t - \<lfloor>t\<rfloor> \<or> (t - \<lfloor>t\<rfloor> = 1 / 2 \<and> odd \<lfloor>t\<rfloor>) then \<lfloor>t\<rfloor> + 1 else \<lfloor>t\<rfloor>)"

definition rexp :: "real \<Rightarrow> int" where
  "rexp x = max (-1074) (\<lfloor>log 2 x\<rfloor> - 52)"

definition rne :: "real \<Rightarrow> real" where
  "rne x = (if x = 0 then 0 else of_int (rhe_real (x / 2 powi rexp x)) * 2 powi rexp x)"

definition rnd :: "real \<Rightarrow> real" where
  "rnd x = (if x < 0 then - rne (- x) else rne x)"

definition rep :: "real \<Rightarrow> bool" where
  "rep y \<longleftrightarrow> (\<exists>m e::int. \<bar>m\<bar> \<le> 2 ^ 53 \<and> -1074 \<le> e \<and> y = of_int m * 2 powi e)"

definition near :: "real \<Rightarrow> real \<Rightarrow> bool" where
  "near x r \<longleftrightarrow> rep r \<and> (\<forall>y. rep y \<longrightarrow> \<bar>x - r\<bar> \<le> \<bar>x - y\<bar>)"

lemma rhe_real_floor: "rhe_real t = \<lfloor>t\<rfloor> \<or> rhe_real t = \<lfloor>t\<rfloor> + 1"
  by (simp add: rhe_real_def)

lemma rhe_real_half: "\<bar>t - of_int (rhe_real t)\<bar> \<le> 1 / 2"
proof -
  have "of_int \<lfloor>t\<rfloor> \<le> t" "t < of_int \<lfloor>t\<rfloor> + 1" by linarith+
  then show ?thesis
    by (cases "1 / 2 < t - \<lfloor>t\<rfloor> \<or> (t - \<lfloor>t\<rfloor> = 1 / 2 \<and> odd \<lfloor>t\<rfloor>)")
      (auto simp add: rhe_real_def abs_le_iff; linarith)+
qed

lemma rhe_real_nearest: "\<bar>t - of_int (rhe_real t)\<bar> \<le> \<bar>t - of_int k\<bar>"
proof (cases "k = rhe_real t")
  case False
  then have "1 \<le> \<bar>rhe_real t - k\<bar>" by simp
  then have "1 \<le> \<bar>of_int (rhe_real t) - (of_int k :: real)\<bar>"
    by (metis of_int_1_le_iff of_int_abs of_int_diff)
  moreover have "\<bar>t - of_int (rhe_real t)\<bar> \<le> 1 / 2" by (rule rhe_real_half)
  ultimately show ?thesis by linarith
qed simp

lemma rhe_eq_real: "0 < d \<Longrightarrow> round_half_even n d = rhe_real (of_int n / of_int d)"
proof -
  assume d: "0 < d"
  have fl: "\<lfloor>of_int n / (of_int d :: real)\<rfloor> = n div d"
    by (rule floor_divide_of_int_eq)
  have "of_int n = (of_int (n div d) * of_int d + of_int (n mod d) :: real)"
    by (metis div_mult_mod_eq of_int_add of_int_mult)
  then have fr: "of_int n / of_int d - of_int (n div d) = (of_int (n mod d) / of_int d :: real)"
    using d by (simp add: field_simps)
  have "(1 / 2 < (of_int (n mod d) / of_int d :: real)) = (d < 2 * (n mod d))"
    using d by (simp add: field_simps) linarith
  moreover have "((of_int (n mod d) / of_int d :: real) = 1 / 2) = (d = 2 * (n mod d))"
    using d by (simp add: field_simps) linarith
  ultimately show ?thesis
    by (simp add: round_half_even_def rhe_real_def Let_def fl fr)
qed

lemma powi_pos [simp]: "0 < (2::real) powi e"
  by simp

lemma powi_split: "(2::real) powi (a + b) = 2 powi a * 2 powi b"
  by (simp add: power_int_add)

lemma powi_nat: "0 \<le> k \<Longrightarrow> (2::real) powi k = 2 ^ nat k"
  by (simp add: power_int_def)

lemma powi_neg_nat: "k \<le> 0 \<Longrightarrow> (2::real) powi k = 1 / 2 ^ nat (- k)"
  by (cases "k = 0") (simp_all add: power_int_def inverse_eq_divide power_one_over)

lemma powi_mono: "a \<le> b \<Longrightarrow> (2::real) powi a \<le> 2 powi b"
  by (simp add: power_int_increasing)

lemma powi_strict: "a < b \<Longrightarrow> (2::real) powi a < 2 powi b"
  by (simp add: power_int_strict_increasing)

lemma floor_log2_unique:
  assumes "2 powi k \<le> x" and "x < 2 powi (k + 1)"
  shows "\<lfloor>log 2 x\<rfloor> = k"
proof -
  have x: "0 < x" using assms(1) powi_pos [of k] by linarith
  have p: "(2::real) powi j = 2 powr of_int j" for j
    by (simp add: powr_real_of_int')
  have "of_int k \<le> log 2 x" using assms(1) x by (simp add: le_log_iff p)
  moreover have "log 2 x < of_int (k + 1)" using assms(2) x by (simp add: log_less_iff p)
  ultimately show ?thesis by (simp add: floor_eq_iff)
qed

lemma log2_bounds:
  assumes "0 < x"
  shows "2 powi \<lfloor>log 2 x\<rfloor> \<le> x" and "x < 2 powi (\<lfloor>log 2 x\<rfloor> + 1)"
proof -
  have p: "(2::real) powi j = 2 powr of_int j" for j
    by (simp add: powr_real_of_int')
  have x: "2 powr log 2 x = x" using assms by simp
  have "2 powr of_int \<lfloor>log 2 x\<rfloor> \<le> 2 powr log 2 x" by (rule powr_mono) simp_all
  then show "2 powi \<lfloor>log 2 x\<rfloor> \<le> x" unfolding x p .
  have "2 powr log 2 x < 2 powr of_int (\<lfloor>log 2 x\<rfloor> + 1)" by (rule powr_less_mono) simp_all
  then show "x < 2 powi (\<lfloor>log 2 x\<rfloor> + 1)" unfolding x p .
qed

lemma rexp_bounds:
  assumes "0 < x"
  shows "x < 2 powi (rexp x + 53)"
    and "rexp x \<noteq> -1074 \<Longrightarrow> 2 powi (rexp x + 52) \<le> x"
    and "-1074 \<le> rexp x"
proof -
  have "(2::real) powi (\<lfloor>log 2 x\<rfloor> + 1) \<le> 2 powi (rexp x + 53)"
    by (rule powi_mono) (simp add: rexp_def)
  then show "x < 2 powi (rexp x + 53)"
    using log2_bounds(2) [OF assms] by linarith
  show "-1074 \<le> rexp x" by (simp add: rexp_def)
  assume "rexp x \<noteq> -1074"
  then have "rexp x + 52 = \<lfloor>log 2 x\<rfloor>" by (auto simp: rexp_def max_def split: if_splits)
  then show "2 powi (rexp x + 52) \<le> x" using log2_bounds(1) [OF assms] by simp
qed

lemma rhe_real_mono_int:
  shows "of_int k \<le> t \<Longrightarrow> k \<le> rhe_real t" and "t < of_int k \<Longrightarrow> rhe_real t \<le> k"
proof -
  assume "of_int k \<le> t"
  then have "k \<le> \<lfloor>t\<rfloor>" by (simp add: le_floor_iff)
  then show "k \<le> rhe_real t" using rhe_real_floor [of t] by linarith
next
  assume "t < of_int k"
  then have "\<lfloor>t\<rfloor> < k" by (simp add: floor_less_iff)
  then show "rhe_real t \<le> k" using rhe_real_floor [of t] by linarith
qed

text \<open>The significand chosen for a positive real, and its range.\<close>

lemma rne_significand:
  assumes "0 < x"
  defines "e \<equiv> rexp x"
  defines "m \<equiv> rhe_real (x / 2 powi e)"
  shows "0 \<le> m" and "m \<le> 2 ^ 53" and "e \<noteq> -1074 \<Longrightarrow> 2 ^ 52 \<le> m"
proof -
  have pos: "(0::real) < 2 powi e" by simp
  show "0 \<le> m"
    unfolding m_def using assms(1) by (intro rhe_real_mono_int(1)) simp
  have "x < 2 powi e * 2 ^ 53"
    using rexp_bounds(1) [OF assms(1)] by (simp add: e_def powi_split)
  then have "x / 2 powi e < of_int (2 ^ 53)"
    using pos by (simp add: divide_less_eq mult.commute)
  then show "m \<le> 2 ^ 53" unfolding m_def by (rule rhe_real_mono_int(2))
  assume "e \<noteq> -1074"
  then have "2 powi e * 2 ^ 52 \<le> x"
    using rexp_bounds(2) [OF assms(1)] by (simp add: e_def powi_split)
  then have "of_int (2 ^ 52) \<le> x / 2 powi e"
    using pos by (simp add: le_divide_eq mult.commute)
  then show "2 ^ 52 \<le> m" unfolding m_def by (rule rhe_real_mono_int(1))
qed

lemma rne_rep: "0 \<le> x \<Longrightarrow> rep (rne x)"
proof (cases "x = 0")
  case True
  have "rep 0" unfolding rep_def by (intro exI [of _ 0] exI [of _ 0]) simp
  with True show ?thesis by (simp add: rne_def)
next
  case False
  assume "0 \<le> x"
  with False have x: "0 < x" by simp
  show ?thesis
    unfolding rep_def rne_def
    using rne_significand [OF x] rexp_bounds(3) [OF x] False
    by (intro exI [of _ "rhe_real (x / 2 powi rexp x)"] exI [of _ "rexp x"]) auto
qed

text \<open>No multiple of \<open>2^e\<close> is closer than the chosen one.\<close>

lemma rne_grid:
  assumes "0 < x"
  shows "\<bar>x - rne x\<bar> \<le> \<bar>x - of_int k * 2 powi rexp x\<bar>"
proof -
  let ?u = "(2::real) powi rexp x"
  have "\<bar>x / ?u - of_int (rhe_real (x / ?u))\<bar> * ?u \<le> \<bar>x / ?u - of_int k\<bar> * ?u"
    by (rule mult_right_mono [OF rhe_real_nearest]) simp
  moreover have "\<bar>x / ?u - of_int j\<bar> * ?u = \<bar>x - of_int j * ?u\<bar>" for j
  proof -
    have "\<bar>x / ?u - of_int j\<bar> * ?u = \<bar>(x / ?u - of_int j) * ?u\<bar>"
      by (simp only: abs_mult abs_of_pos [OF powi_pos])
    then show ?thesis by (simp add: left_diff_distrib)
  qed
  ultimately show ?thesis using assms by (simp add: rne_def)
qed

lemma rne_nearest:
  assumes x: "0 < x" and y: "rep y"
  shows "\<bar>x - rne x\<bar> \<le> \<bar>x - y\<bar>"
proof -
  obtain m f :: int where m: "\<bar>m\<bar> \<le> 2 ^ 53" and f: "-1074 \<le> f" and yeq: "y = of_int m * 2 powi f"
    using y unfolding rep_def by blast
  show ?thesis
  proof (cases "rexp x \<le> f")
    case True
    have "(2::real) powi f = 2 ^ nat (f - rexp x) * 2 powi rexp x"
      using True powi_split [of "f - rexp x" "rexp x"] by (simp add: powi_nat)
    then have "y = of_int (m * 2 ^ nat (f - rexp x)) * 2 powi rexp x" by (simp add: yeq)
    then show ?thesis using rne_grid [OF x, of "m * 2 ^ nat (f - rexp x)"] by simp
  next
    case False
    then have ne: "rexp x \<noteq> -1074" using f by simp
    have "\<bar>of_int m :: real\<bar> \<le> 2 ^ 53"
      using m by (metis of_int_abs of_int_le_iff of_int_numeral of_int_power)
    then have "\<bar>of_int m :: real\<bar> * 2 powi f \<le> 2 ^ 53 * 2 powi f"
      by (rule mult_right_mono) simp
    also have "\<dots> = 2 powi (f + 53)" by (simp add: powi_split)
    also have "\<dots> \<le> 2 powi (rexp x + 52)" using False by (intro powi_mono) simp
    finally have "y \<le> 2 powi (rexp x + 52)"
      unfolding yeq by (smt (verit) mult_right_mono powi_pos)
    moreover have "2 powi (rexp x + 52) \<le> x" by (rule rexp_bounds(2) [OF x ne])
    moreover have "\<bar>x - rne x\<bar> \<le> \<bar>x - of_int (2 ^ 52) * 2 powi rexp x\<bar>" by (rule rne_grid [OF x])
    ultimately show ?thesis by (simp add: powi_split)
  qed
qed

lemma rep_minus: "rep (- y) \<longleftrightarrow> rep y"
proof -
  have neg: "rep (- y)" if r: "rep y" for y
  proof -
    obtain m e :: int where "\<bar>m\<bar> \<le> 2 ^ 53" "-1074 \<le> e" "y = of_int m * 2 powi e"
      using r unfolding rep_def by blast
    then show ?thesis
      unfolding rep_def by (intro exI [of _ "- m"] exI [of _ e]) simp
  qed
  show ?thesis using neg [of y] neg [of "- y"] by auto
qed

lemma near_rnd: "near x (rnd x)"
proof -
  have pos: "near x (rne x)" if "0 \<le> x" for x
  proof (cases "x = 0")
    case True
    then show ?thesis using rne_rep [of x] by (simp add: near_def rne_def)
  next
    case False
    then show ?thesis using that rne_rep [of x] rne_nearest [of x] by (simp add: near_def)
  qed
  show ?thesis
  proof (cases "x < 0")
    case True
    have "near (- x) (rne (- x))" using True by (intro pos) simp
    then have r: "rep (rne (- x))" and n: "\<And>y. rep y \<Longrightarrow> \<bar>- x - rne (- x)\<bar> \<le> \<bar>- x - y\<bar>"
      by (auto simp: near_def)
    have "\<bar>x - (- rne (- x))\<bar> \<le> \<bar>x - y\<bar>" if "rep y" for y
      using n [of "- y"] that rep_minus [of y] by (simp add: abs_minus_commute)
    then show ?thesis using True r by (simp add: near_def rnd_def rep_minus)
  next
    case False
    then show ?thesis using pos [of x] by (simp add: rnd_def)
  qed
qed

lemma rnd_mono: "x \<le> y \<Longrightarrow> rnd x \<le> rnd y"
proof (cases "x = y")
  case False
  assume "x \<le> y"
  with False have lt: "x < y" by simp
  have a: "\<bar>x - rnd x\<bar> \<le> \<bar>x - rnd y\<bar>" and b: "\<bar>y - rnd y\<bar> \<le> \<bar>y - rnd x\<bar>"
    using near_rnd [of x] near_rnd [of y] by (auto simp: near_def)
  show ?thesis
  proof (rule ccontr)
    assume "\<not> rnd x \<le> rnd y"
    then show False using a b lt by (auto simp: abs_if split: if_splits)
  qed
qed simp

lemma rnd_rep: "rep x \<Longrightarrow> rnd x = x"
  using near_rnd [of x] by (auto simp: near_def)

lemma rnd_0 [simp]: "rnd 0 = 0"
  by (simp add: rnd_def rne_def)

lemma rnd_minus: "rnd (- x) = - rnd x"
  by (auto simp: rnd_def rne_def)

text \<open>Overflow: everything at or above \<open>2^1024\<close> is the infinity.\<close>

definition f64_top :: real where
  "f64_top = 2 ^ 1024"

definition clampf :: "real \<Rightarrow> real" where
  "clampf y = max (- f64_top) (min f64_top y)"

definition fl :: "real \<Rightarrow> real" where
  "fl x = clampf (rnd x)"

lemma f64_top_pos [simp]: "0 < f64_top" "0 \<le> f64_top"
  by (simp_all add: f64_top_def)

lemma clampf_mono: "x \<le> y \<Longrightarrow> clampf x \<le> clampf y"
  by (auto simp: clampf_def)

lemma fl_mono: "x \<le> y \<Longrightarrow> fl x \<le> fl y"
  unfolding fl_def by (intro clampf_mono rnd_mono)

lemma fl_rep: "rep x \<Longrightarrow> \<bar>x\<bar> \<le> f64_top \<Longrightarrow> fl x = x"
  by (auto simp: fl_def rnd_rep clampf_def)

lemma fl_0 [simp]: "fl 0 = 0"
  by (simp add: fl_def clampf_def)

lemma clampf_minus: "clampf (- y) = - clampf y"
  unfolding clampf_def max_def min_def by (auto; use f64_top_pos(1) in linarith)

lemma fl_minus: "fl (- x) = - fl x"
  by (simp add: fl_def rnd_minus clampf_minus)

lemma fl_bounds: "- f64_top \<le> fl x" "fl x \<le> f64_top"
  using f64_top_pos by (auto simp: fl_def clampf_def)

lemma fl_nonneg: "0 \<le> x \<Longrightarrow> 0 \<le> fl x"
  using fl_mono [of 0 x] by simp

section \<open>The value of a float\<close>

definition sgnv :: "bool \<Rightarrow> real" where
  "sgnv s = (if s then -1 else 1)"

definition xval :: "f64 \<Rightarrow> real" where
  "xval x = (case x of FNaN \<Rightarrow> 0 | FInf s \<Rightarrow> sgnv s * f64_top
     | FNum s m e \<Rightarrow> sgnv s * of_int m * 2 powi e)"

definition fin :: "f64 \<Rightarrow> bool" where
  "fin x = (case x of FNum _ _ _ \<Rightarrow> True | _ \<Rightarrow> False)"

definition notnan :: "f64 \<Rightarrow> bool" where
  "notnan x = (x \<noteq> FNaN)"

definition okfin :: "f64 \<Rightarrow> bool" where
  "okfin x = (f64_ok x \<and> fin x)"

definition oknum :: "f64 \<Rightarrow> bool" where
  "oknum x = (f64_ok x \<and> notnan x)"

lemma xval_simps [simp]:
  "xval FNaN = 0" "xval (FInf s) = sgnv s * f64_top"
  "xval (FNum s m e) = sgnv s * of_int m * 2 powi e"
  by (simp_all add: xval_def)

lemma fin_simps [simp]: "\<not> fin FNaN" "\<not> fin (FInf s)" "fin (FNum s m e)"
  by (simp_all add: fin_def)

lemma notnan_simps [simp]: "\<not> notnan FNaN" "notnan (FInf s)" "notnan (FNum s m e)"
  by (simp_all add: notnan_def)

lemma f64_ok_simps [simp]: "f64_ok FNaN" "f64_ok (FInf s)"
  by (simp_all add: f64_ok_def)

lemma okfin_oknum: "okfin x \<Longrightarrow> oknum x"
  by (cases x) (auto simp: okfin_def oknum_def)

lemma okfinE:
  assumes "okfin x"
  obtains s m e where "x = FNum s m e" and "0 \<le> m" and "m < 2 ^ 53"
    and "-1074 \<le> e" and "e \<le> 971"
  using assms by (cases x) (auto simp: okfin_def f64_ok_def)

lemma sgnv_simps [simp]: "sgnv True = -1" "sgnv False = 1"
  by (simp_all add: sgnv_def)

lemma sgnv_mult: "sgnv s * sgnv t = sgnv (s \<noteq> t)"
  by (cases s; cases t) simp_all

lemma sgnv_fl: "fl (sgnv s * x) = sgnv s * fl x"
  by (cases s) (simp_all add: fl_minus)

lemma bitlen_bounds_real:
  assumes "0 < p"
  shows "2 powi (bitlen p - 1) \<le> (of_int p :: real)" and "(of_int p :: real) < 2 powi (bitlen p)"
proof -
  have b: "2 ^ nat (bitlen p - 1) \<le> p" "p < 2 ^ nat (bitlen p)"
    using bitlen_bounds [OF assms] by auto
  have pos: "0 < bitlen p"
    using assms bitlen_rec [of p] bitlen_nonneg [of "p div 2"] by simp
  have "(of_int (2 ^ nat (bitlen p - 1)) :: real) \<le> of_int p" "(of_int p :: real) < of_int (2 ^ nat (bitlen p))"
    using b by (simp_all only: of_int_le_iff of_int_less_iff)
  then show "2 powi (bitlen p - 1) \<le> (of_int p :: real)" and "(of_int p :: real) < 2 powi (bitlen p)"
    using pos by (simp_all add: powi_nat)
qed

lemma flog2_eq:
  assumes p: "0 < p" and q: "0 < q"
  shows "flog2 p q = \<lfloor>log 2 (of_int p / of_int q)\<rfloor>"
proof -
  define k where "k = bitlen p - bitlen q"
  define x where "x = (of_int p / of_int q :: real)"
  have qr: "(0::real) < of_int q" using q by simp
  have up: "x < 2 powi (k + 1)"
  proof -
    have "(of_int p :: real) < 2 powi (k + 1) * 2 powi (bitlen q - 1)"
      using bitlen_bounds_real(2) [OF p] powi_split [of "k + 1" "bitlen q - 1"] by (simp add: k_def)
    also have "\<dots> \<le> 2 powi (k + 1) * of_int q"
      by (rule mult_left_mono [OF bitlen_bounds_real(1) [OF q]]) simp
    finally show ?thesis using qr by (simp add: x_def divide_less_eq)
  qed
  have lo: "2 powi (k - 1) \<le> x"
  proof -
    have "2 powi (k - 1) * (of_int q :: real) \<le> 2 powi (k - 1) * 2 powi (bitlen q)"
      by (rule mult_left_mono [OF less_imp_le [OF bitlen_bounds_real(2) [OF q]]]) simp
    also have "\<dots> = 2 powi (bitlen p - 1)"
      using powi_split [of "k - 1" "bitlen q"] by (simp add: k_def)
    also have "\<dots> \<le> of_int p" by (rule bitlen_bounds_real(1) [OF p])
    finally show ?thesis using qr by (simp add: x_def le_divide_eq)
  qed
  have test: "(if 0 \<le> k then q * 2 ^ nat k \<le> p else q \<le> p * 2 ^ nat (- k)) \<longleftrightarrow> 2 powi k \<le> x"
  proof (cases "0 \<le> k")
    case True
    have "q * 2 ^ nat k \<le> p \<longleftrightarrow> of_int q * 2 ^ nat k \<le> (of_int p :: real)"
      using of_int_le_iff [of "q * 2 ^ nat k" p, where 'a = real] by simp
    then show ?thesis using True qr by (simp add: x_def powi_nat le_divide_eq mult.commute)
  next
    case False
    have "q \<le> p * 2 ^ nat (- k) \<longleftrightarrow> (of_int q :: real) \<le> of_int p * 2 ^ nat (- k)"
      using of_int_le_iff [of q "p * 2 ^ nat (- k)", where 'a = real] by simp
    then show ?thesis using False qr by (simp add: x_def powi_neg_nat field_simps)
  qed
  show ?thesis
  proof (cases "2 powi k \<le> x")
    case True
    then have "\<lfloor>log 2 x\<rfloor> = k" using up by (rule floor_log2_unique)
    then show ?thesis using True test by (simp add: flog2_def k_def [symmetric] x_def)
  next
    case False
    then have "\<lfloor>log 2 x\<rfloor> = k - 1" using lo by (intro floor_log2_unique) simp_all
    then show ?thesis using False test by (simp add: flog2_def k_def [symmetric] x_def)
  qed
qed

lemma floor_log2_scale: "0 < x \<Longrightarrow> \<lfloor>log 2 (x * 2 powi k)\<rfloor> = \<lfloor>log 2 x\<rfloor> + k"
proof -
  assume x: "0 < x"
  have "2 powi (\<lfloor>log 2 x\<rfloor> + k) \<le> x * 2 powi k"
    using log2_bounds(1) [OF x] by (simp add: powi_split)
  moreover have "x * 2 powi k < 2 powi (\<lfloor>log 2 x\<rfloor> + k + 1)"
    using log2_bounds(2) [OF x] powi_split [of "\<lfloor>log 2 x\<rfloor> + 1" k] by (simp add: add_ac)
  ultimately show ?thesis by (rule floor_log2_unique)
qed

text \<open>The executable rounding computes the significand and exponent of \<open>rne\<close>.\<close>

lemma fround_parts:
  fixes x :: int
  assumes p: "0 < p" and q: "0 < q"
  defines "X \<equiv> (of_int p / of_int q * 2 powi x :: real)"
  defines "e \<equiv> rexp X" and "m \<equiv> rhe_real (X / 2 powi rexp X)"
  shows "fround s p q x = (if m = 2 ^ 53
    then (if 971 < e + 1 then FInf s else FNum s (2 ^ 52) (e + 1))
    else (if 971 < e then FInf s else FNum s m e))"
proof -
  have e: "max (-1074) (x + flog2 p q - 52) = e"
  proof -
    have "\<lfloor>log 2 X\<rfloor> = flog2 p q + x"
      unfolding X_def flog2_eq [OF p q] using p q by (intro floor_log2_scale) simp
    then show ?thesis by (simp add: e_def rexp_def add.commute)
  qed
  have m: "(if e \<le> x then round_half_even (p * 2 ^ nat (x - e)) q
            else round_half_even p (q * 2 ^ nat (e - x))) = m"
  proof (cases "e \<le> x")
    case True
    have "X / 2 powi e = of_int (p * 2 ^ nat (x - e)) / of_int q"
      using True powi_split [of "x - e" e] by (simp add: X_def powi_nat)
    then show ?thesis using True q by (simp add: m_def e_def [symmetric] rhe_eq_real)
  next
    case False
    have "X / 2 powi e = of_int p / of_int (q * 2 ^ nat (e - x))"
      using False powi_split [of "e - x" x] by (simp add: X_def powi_nat)
    then show ?thesis using False q by (simp add: m_def e_def [symmetric] rhe_eq_real)
  qed
  show ?thesis
    using p unfolding fround_def Let_def e m by auto
qed

lemma of_int_le_pow: "m \<le> 2 ^ k - 1 \<Longrightarrow> (of_int m :: real) \<le> 2 ^ k - 1"
proof -
  assume "m \<le> 2 ^ k - 1"
  then have "(of_int m :: real) \<le> of_int (2 ^ k - 1)" by (simp only: of_int_le_iff)
  then show ?thesis by simp
qed

lemma fin_below_top:
  assumes "\<bar>m\<bar> < 2 ^ 53" and "e \<le> (971::int)"
  shows "\<bar>of_int m\<bar> * (2::real) powi e < f64_top"
proof -
  have "\<bar>of_int m :: real\<bar> \<le> 2 ^ 53 - 1"
    using assms(1) of_int_le_pow [of "\<bar>m\<bar>" 53] by simp
  then have "\<bar>of_int m :: real\<bar> * 2 powi e \<le> (2 ^ 53 - 1) * 2 powi e"
    by (rule mult_right_mono) simp
  also have "\<dots> \<le> (2 ^ 53 - 1) * 2 powi 971"
    by (rule mult_left_mono [OF powi_mono [OF assms(2)]]) simp
  also have "\<dots> < f64_top"
    by (simp add: f64_top_def powi_nat power_add [symmetric] left_diff_distrib)
  finally show ?thesis .
qed

lemma clampf_big: "f64_top \<le> y \<Longrightarrow> clampf y = f64_top"
  using f64_top_pos(2) unfolding clampf_def by (simp add: min_def max_def)

lemma clampf_small: "\<bar>y\<bar> < f64_top \<Longrightarrow> clampf y = y"
  unfolding clampf_def by auto

lemma top_below: "971 < k \<Longrightarrow> f64_top \<le> 2 ^ 52 * (2::real) powi k"
proof -
  assume "971 < k"
  then have "(2::real) ^ 52 * 2 powi 972 \<le> 2 ^ 52 * 2 powi k"
    by (intro mult_left_mono powi_mono) auto
  then show ?thesis by (simp add: f64_top_def powi_nat power_add [symmetric])
qed

text \<open>The value of a rounded significand and exponent, with the carry to the next binade.\<close>

definition pack :: "bool \<Rightarrow> int \<Rightarrow> int \<Rightarrow> f64" where
  "pack s m e = (if m = 2 ^ 53
      then (if 971 < e + 1 then FInf s else FNum s (2 ^ 52) (e + 1))
      else (if 971 < e then FInf s else FNum s m e))"

lemma xval_pack:
  assumes "0 \<le> m" and "m \<le> 2 ^ 53" and "e \<noteq> -1074 \<Longrightarrow> 2 ^ 52 \<le> m" and "-1074 \<le> e"
  shows "xval (pack s m e) = sgnv s * clampf (of_int m * 2 powi e)"
proof (cases "m = 2 ^ 53")
  case True
  then have top: "(of_int m :: real) * 2 powi e = 2 ^ 52 * 2 powi (e + 1)" by (simp add: powi_split)
  show ?thesis
  proof (cases "971 < e + 1")
    case over: True
    then have "clampf (of_int m * 2 powi e) = f64_top" unfolding top by (intro clampf_big top_below)
    then show ?thesis using True over by (simp add: pack_def)
  next
    case False
    then have "\<bar>of_int (2 ^ 52)\<bar> * (2::real) powi (e + 1) < f64_top"
      using assms(4) by (intro fin_below_top) simp_all
    then have "clampf (of_int m * 2 powi e) = 2 ^ 52 * 2 powi (e + 1)"
      unfolding top by (intro clampf_small) (simp add: abs_mult)
    then show ?thesis using True False by (simp add: pack_def)
  qed
next
  case False
  show ?thesis
  proof (cases "971 < e")
    case over: True
    then have "2 ^ 52 \<le> m" using assms(3) by simp
    then have "(2::real) ^ 52 \<le> of_int m"
      by (metis of_int_le_iff of_int_numeral of_int_power)
    then have "2 ^ 52 * (2::real) powi e \<le> of_int m * 2 powi e"
      by (rule mult_right_mono) simp
    then have "f64_top \<le> of_int m * 2 powi e" using top_below [OF over] by linarith
    then show ?thesis using False over by (simp add: pack_def clampf_big)
  next
    case under: False
    have "\<bar>of_int m\<bar> * (2::real) powi e < f64_top"
      using assms False under by (intro fin_below_top) auto
    then show ?thesis using False under clampf_small [of "of_int m * 2 powi e"] by (simp add: pack_def abs_mult)
  qed
qed

lemma fround_pos:
  assumes p: "0 < p" and q: "0 < q"
  shows "xval (fround s p q x) = sgnv s * fl (of_int p / of_int q * 2 powi x)"
    and "f64_ok (fround s p q x)"
proof -
  define X where "X = (of_int p / of_int q * 2 powi x :: real)"
  define e where "e = rexp X"
  define m where "m = rhe_real (X / 2 powi rexp X)"
  have X: "0 < X" using p q by (simp add: X_def)
  have fr: "fround s p q x = pack s m e"
    using fround_parts [OF p q, of s x] by (simp only: e_def m_def X_def pack_def)
  have m: "0 \<le> m" "m \<le> 2 ^ 53" "e \<noteq> -1074 \<Longrightarrow> 2 ^ 52 \<le> m"
    using rne_significand [OF X] by (simp_all add: m_def e_def)
  have e: "-1074 \<le> e" using rexp_bounds(3) [OF X] by (simp add: e_def)
  have "fl X = clampf (of_int m * 2 powi e)" using X by (simp add: fl_def rnd_def rne_def m_def e_def)
  then show "xval (fround s p q x) = sgnv s * fl (of_int p / of_int q * 2 powi x)"
    using xval_pack [OF m e] by (simp add: fr X_def)
  show "f64_ok (fround s p q x)"
    unfolding fr pack_def f64_ok_def using m e by auto
qed

lemma xval_fround:
  assumes "0 \<le> p" and "0 < q"
  shows "xval (fround s p q x) = fl (sgnv s * (of_int p / of_int q * 2 powi x))"
proof (cases "p = 0")
  case True
  then show ?thesis by (simp add: fround_def)
next
  case False
  with assms show ?thesis using fround_pos(1) [of p q s x] by (simp only: sgnv_fl)
qed

lemma ok_fround: "0 \<le> p \<Longrightarrow> 0 < q \<Longrightarrow> f64_ok (fround s p q x)"
  using fround_pos(2) [of p q s x] by (cases "p = 0") (simp_all add: fround_def f64_ok_def)

lemma notnan_fround: "notnan (fround s p q x)"
  by (simp add: fround_def Let_def)

lemma xval_fround_int: "xval (fround (i < 0) \<bar>i\<bar> 1 x) = fl (of_int i * 2 powi x)"
  using xval_fround [of "\<bar>i\<bar>" 1 "i < 0" x] by (simp add: sgnv_def mult.commute)

section \<open>Operations on values\<close>

lemma scaled_real: "b \<le> e \<Longrightarrow> of_int (scaled s m e b) * 2 powi b = xval (FNum s m e)"
  using powi_split [of "e - b" b] by (cases s) (simp_all add: scaled_def powi_nat)

lemma fadd_val:
  assumes "okfin x" and "okfin y"
  shows "xval (x + y) = fl (xval x + xval y)" and "oknum (x + y)"
proof -
  obtain s m e where x: "x = FNum s m e" using assms(1) by (rule okfinE)
  obtain t n d where y: "y = FNum t n d" using assms(2) by (rule okfinE)
  define b where "b = min e d"
  define i where "i = scaled s m e b + scaled t n d b"
  have sum: "of_int i * 2 powi b = xval x + xval y"
    unfolding x y i_def using scaled_real [of b e s m] scaled_real [of b d t n]
    by (simp add: b_def distrib_right)
  have xy: "x + y = (if i = 0 then FNum (s \<and> t) 0 (-1074) else fround (i < 0) \<bar>i\<bar> 1 b)"
    by (simp add: x y f64_ops Let_def b_def i_def)
  show "xval (x + y) = fl (xval x + xval y)"
    using sum [symmetric] unfolding xy by (simp add: xval_fround_int)
  show "oknum (x + y)"
    unfolding xy oknum_def using ok_fround [of "\<bar>i\<bar>" 1] by (simp add: notnan_fround f64_ok_def)
qed

lemma xval_neg: "xval (- x) = - xval x"
  by (cases x) (simp_all add: uminus_f64_def sgnv_def)

lemma okfin_neg [simp]: "okfin (- x) = okfin x"
  by (cases x) (simp_all add: uminus_f64_def okfin_def f64_ok_def)

lemma minus_as_add: "x - y = x + (- y :: f64)"
  by (simp add: f64_ops)

lemma fsub_val:
  assumes "okfin x" and "okfin y"
  shows "xval (x - y) = fl (xval x - xval y)" and "oknum (x - y)"
  using fadd_val [of x "- y"] assms by (simp_all add: minus_as_add xval_neg)

lemma fmul_val:
  assumes "okfin x" and "okfin y"
  shows "xval (x * y) = fl (xval x * xval y)" and "oknum (x * y)"
proof -
  obtain s m e where x: "x = FNum s m e" "0 \<le> m" using assms(1) by (rule okfinE)
  obtain t n d where y: "y = FNum t n d" "0 \<le> n" using assms(2) by (rule okfinE)
  have xy: "x * y = fround (s \<noteq> t) (m * n) 1 (e + d)" by (simp add: x y times_f64_def)
  show "xval (x * y) = fl (xval x * xval y)"
  proof -
    have "sgnv (s \<noteq> t) * (of_int (m * n) / of_int 1 * 2 powi (e + d)) = xval x * xval y"
      by (cases s; cases t) (simp_all add: x y powi_split)
    then show ?thesis
      unfolding xy using x y xval_fround [of "m * n" 1 "s \<noteq> t" "e + d"] by (simp only:) simp
  qed
  show "oknum (x * y)"
    unfolding xy oknum_def using x y ok_fround [of "m * n" 1] by (simp add: notnan_fround)
qed

lemma fdiv_val:
  assumes "okfin x" and "okfin y" and "xval y \<noteq> 0"
  shows "xval (x / y) = fl (xval x / xval y)" and "oknum (x / y)"
proof -
  obtain s m e where x: "x = FNum s m e" "0 \<le> m" using assms(1) by (rule okfinE)
  obtain t n d where y: "y = FNum t n d" "0 \<le> n" using assms(2) by (rule okfinE)
  have n: "0 < n" using assms(3) y by (cases "n = 0") simp_all
  have xy: "x / y = fround (s \<noteq> t) m n (e - d)" using n by (simp add: x y divide_f64_def)
  have q: "(2::real) powi (e - d) = 2 powi e / 2 powi d"
    using power_int_diff [of "2::real" e d] by simp
  have "sgnv (s \<noteq> t) = sgnv s / sgnv t" by (cases s; cases t) simp_all
  then have "sgnv (s \<noteq> t) * (of_int m / of_int n * 2 powi (e - d)) = xval x / xval y"
    by (simp add: x y q)
  then show "xval (x / y) = fl (xval x / xval y)"
    unfolding xy using x n xval_fround [of m n "s \<noteq> t" "e - d"] by simp
  show "oknum (x / y)"
    unfolding xy oknum_def using x n ok_fround [of m n] by (simp add: notnan_fround)
qed

lemma fin_val_bound: "okfin x \<Longrightarrow> \<bar>xval x\<bar> < f64_top"
proof (erule okfinE)
  fix s m e
  assume "x = FNum s m e" "0 \<le> m" "m < 2 ^ 53" "e \<le> 971"
  then show "\<bar>xval x\<bar> < f64_top"
    using fin_below_top [of m e] by (simp add: abs_mult sgnv_def)
qed

lemma okfin_rep: "okfin x \<Longrightarrow> rep (xval x)"
proof (erule okfinE)
  fix s m e
  assume "x = FNum s m e" "0 \<le> m" "m < 2 ^ 53" "-1074 \<le> e"
  then show "rep (xval x)"
    unfolding rep_def
    by (intro exI [of _ "if s then - m else m"] exI [of _ e]) (auto simp: sgnv_def)
qed

lemma fl_xval [simp]: "okfin x \<Longrightarrow> fl (xval x) = xval x"
  using okfin_rep fin_val_bound [of x] by (intro fl_rep) auto

lemma scaled_le:
  "b \<le> e \<Longrightarrow> b \<le> d \<Longrightarrow>
   (scaled s m e b \<le> scaled t n d b) = (xval (FNum s m e) \<le> xval (FNum t n d))"
  using scaled_real [of b e s m] scaled_real [of b d t n]
    mult_le_cancel_right_pos [of "2 powi b :: real" "of_int (scaled s m e b)" "of_int (scaled t n d b)"]
  by simp

text \<open>The comparisons are the order of the values wherever no NaN is involved.\<close>

lemma fle_val: "oknum x \<Longrightarrow> oknum y \<Longrightarrow> (x \<le> y) = (xval x \<le> xval y)"
proof -
  assume x: "oknum x" and y: "oknum y"
  have bound: "\<bar>xval z\<bar> < f64_top" if "f64_ok z" "fin z" for z
    using that fin_val_bound [of z] by (simp add: okfin_def)
  show ?thesis
  proof (cases x; cases y)
    fix s m e t n d assume "x = FNum s m e" "y = FNum t n d"
    then show ?thesis using scaled_le [of "min e d" e d s m t n] by (simp add: less_eq_f64_def)
  qed (use x y bound [of x] bound [of y] f64_top_pos
       in \<open>auto simp: oknum_def less_eq_f64_def sgnv_def split: if_splits\<close>)
qed

lemma flt_fle: "notnan x \<Longrightarrow> notnan y \<Longrightarrow> (x < y) = (\<not> y \<le> (x::f64))"
  by (cases x; cases y) (auto simp: less_f64_def less_eq_f64_def min.commute)

lemma flt_val: "oknum x \<Longrightarrow> oknum y \<Longrightarrow> (x < y) = (xval x < xval y)"
  using fle_val [of y x] flt_fle [of x y] by (auto simp: oknum_def)

lemma feq_val: "oknum x \<Longrightarrow> oknum y \<Longrightarrow> feq x y = (xval x = xval y)"
  using fle_val [of x y] fle_val [of y x] by (auto simp: feq_def less_eq_f64_def)

lemma nan_compare [simp]: "\<not> FNaN \<le> x" "\<not> x \<le> FNaN" "\<not> FNaN < x" "\<not> x < FNaN"
  by (cases x; simp add: less_f64_def less_eq_f64_def)+

lemma fle_refl: "notnan x \<Longrightarrow> x \<le> (x::f64)"
  by (cases x) (simp_all add: less_eq_f64_def)

lemma fle_notnan: "x \<le> y \<Longrightarrow> notnan x \<and> notnan (y::f64)"
  by (auto simp: notnan_def)

lemma flt_notnan: "x < y \<Longrightarrow> notnan x \<and> notnan (y::f64)"
  by (auto simp: notnan_def)

section \<open>Integers and literals as floats\<close>

lemma f64_of_int_val: "xval (f64_of_int n) = fl (of_int n)"
  using xval_fround_int [of n 0] by (simp add: f64_of_int_def)

lemma f64_of_int_oknum: "oknum (f64_of_int n)"
  unfolding f64_of_int_def oknum_def by (simp add: ok_fround notnan_fround)

lemma fdec_val: "xval (fdec n k) = fl (of_int n / 10 ^ k)"
  using xval_fround [of "\<bar>n\<bar>" "10 ^ k" "n < 0" 0] by (simp add: fdec_def sgnv_def)

lemma fdec_oknum: "oknum (fdec n k)"
  unfolding fdec_def oknum_def by (simp add: ok_fround notnan_fround)

lemma rep_of_int: "\<bar>n\<bar> \<le> 2 ^ 53 \<Longrightarrow> rep (of_int n)"
  unfolding rep_def by (intro exI [of _ n] exI [of _ 0]) simp

lemma rep_powi: "-1074 \<le> k \<Longrightarrow> rep (2 powi k)"
  unfolding rep_def by (intro exI [of _ 1] exI [of _ k]) simp

lemma big_below_top: "(2::real) powi 1000 < f64_top"
  unfolding f64_top_def by (simp add: powi_nat power_strict_increasing)

lemma fl_of_int: "\<bar>n\<bar> \<le> 2 ^ 53 \<Longrightarrow> fl (of_int n) = of_int n"
proof -
  assume n: "\<bar>n\<bar> \<le> 2 ^ 53"
  have "\<bar>of_int n :: real\<bar> = of_int \<bar>n\<bar>" by simp
  also have "\<dots> \<le> of_int (2 ^ 53)" using n by (simp only: of_int_le_iff)
  also have "\<dots> = 2 powi 53" by (simp add: powi_nat)
  also have "\<dots> \<le> 2 powi 1000" by (rule powi_mono) simp
  finally show ?thesis using big_below_top by (intro fl_rep rep_of_int n) linarith
qed

lemma f64_of_int_exact: "\<bar>n\<bar> \<le> 2 ^ 53 \<Longrightarrow> xval (f64_of_int n) = of_int n"
  by (simp add: f64_of_int_val fl_of_int)

lemma oknum_fin: "oknum x \<Longrightarrow> \<bar>xval x\<bar> < f64_top \<Longrightarrow> okfin x"
  by (cases x) (auto simp: oknum_def okfin_def sgnv_def split: if_splits)

lemma fl_abs_le:
  assumes "rep b" and "b < f64_top" and "\<bar>x\<bar> \<le> b"
  shows "\<bar>fl x\<bar> \<le> b"
proof -
  have "\<bar>b\<bar> \<le> f64_top" using assms by linarith
  then have b: "fl b = b" using assms(1) by (intro fl_rep)
  then show ?thesis
  proof -
    have "x \<le> b" and "- b \<le> x" using assms(3) by linarith+
    then have "fl x \<le> b" and "- b \<le> fl x"
      using fl_mono [of x b] fl_mono [of "- b" x] by (simp_all add: fl_minus b)
    then show ?thesis by linarith
  qed
qed

lemma fl_abs_bound: "\<bar>x\<bar> \<le> 2 powi 1000 \<Longrightarrow> \<bar>fl x\<bar> < f64_top"
  by (rule le_less_trans [OF fl_abs_le [OF rep_powi big_below_top] big_below_top])
    (simp_all only: numeral_le_iff neg_numeral_le_numeral)

lemma f64_of_int_okfin: "\<bar>n\<bar> \<le> 2 ^ 64 \<Longrightarrow> okfin (f64_of_int n)"
proof (rule oknum_fin [OF f64_of_int_oknum])
  assume n: "\<bar>n\<bar> \<le> 2 ^ 64"
  have "\<bar>of_int n :: real\<bar> = of_int \<bar>n\<bar>" by simp
  also have "\<dots> \<le> of_int (2 ^ 64)" using n by (simp only: of_int_le_iff)
  also have "\<dots> = 2 powi 64" by (simp add: powi_nat)
  also have "\<dots> \<le> 2 powi 1000" by (rule powi_mono) simp
  finally show "\<bar>xval (f64_of_int n)\<bar> < f64_top"
    unfolding f64_of_int_val by (rule fl_abs_bound)
qed

text \<open>A float that holds an integer converts back to it.\<close>

lemma f64_to_int_exact:
  assumes x: "okfin x" and v: "xval x = of_int n" and r: "int64_min \<le> n" "n \<le> int64_max"
  shows "f64_to_int x = n"
proof -
  obtain s m e where xe: "x = FNum s m e" "0 \<le> m" using x by (rule okfinE)
  define t where "t = (if 0 \<le> e then m * 2 ^ nat e else m div 2 ^ nat (- e))"
  have abs: "of_int m * 2 powi e = (of_int \<bar>n\<bar> :: real)"
  proof -
    have "\<bar>xval x\<bar> = of_int m * 2 powi e" using xe by (simp add: sgnv_def abs_mult)
    then show ?thesis using v by simp
  qed
  have "t = \<bar>n\<bar>"
  proof (cases "0 \<le> e")
    case True
    then have "(of_int t :: real) = of_int \<bar>n\<bar>" using abs by (simp add: t_def powi_nat)
    then show ?thesis by (simp only: of_int_eq_iff)
  next
    case False
    then have "of_int m = (of_int (\<bar>n\<bar> * 2 ^ nat (- e)) :: real)"
      using abs by (simp add: powi_neg_nat field_simps)
    then have "m = \<bar>n\<bar> * 2 ^ nat (- e)" by (simp only: of_int_eq_iff)
    then show ?thesis using False by (simp add: t_def)
  qed
  moreover have "(if s then - \<bar>n\<bar> else \<bar>n\<bar>) = n"
  proof -
    have "(of_int n :: real) = sgnv s * of_int \<bar>n\<bar>"
      unfolding v [symmetric] abs [symmetric] by (simp only: xe xval_simps mult.assoc)
    then have "(of_int n :: real) = of_int (if s then - \<bar>n\<bar> else \<bar>n\<bar>)" by (cases s) simp_all
    then show ?thesis by (simp only: of_int_eq_iff)
  qed
  ultimately show ?thesis
    using r by (cases s) (auto simp: f64_to_int_def xe t_def [symmetric] Let_def)
qed

lemma f64_to_int_of_int: "\<bar>n\<bar> \<le> 2 ^ 53 \<Longrightarrow> f64_to_int (f64_of_int n) = n"
  by (intro f64_to_int_exact f64_of_int_okfin f64_of_int_exact)
    (auto simp: int64_min_def int64_max_def)

end
