(* ===== verification/Types.thy ===== *)
theory Types
  imports Float64
begin

text \<open>
  The data of the SDK: \<open>types.go\<close>, \<open>errors.go\<close> and \<open>config.go\<close>. Records carry the
  fields of the Go structs under a short prefix. Times and durations are integers in
  nanoseconds, as in Go. A pointer that may be nil, or a map that may be nil, is an
  \<open>option\<close>. \<open>Params\<close> of a protocol message is \<open>[]any\<close> in Go and holds strings and ints
  in every message the source builds, hence the datatype \<open>param\<close>.
\<close>

section \<open>types.go\<close>

record candle =
  c_Timestamp :: int
  c_Open :: f64
  c_High :: f64
  c_Low :: f64
  c_Close :: f64
  c_Volume :: f64

record chart_data =
  cd_Symbol :: string
  cd_Resolution :: string
  cd_Candles :: "candle list"
  cd_FetchedAt :: int
  cd_Cached :: bool
  cd_LatencyMs :: int

record multi_chart_data =
  md_Symbol :: string
  md_Slabs :: "(string \<times> chart_data option) list"
  md_Errors :: "(string \<times> string) list option"
  md_FetchedAt :: int
  md_LatencyMs :: int

record symbol_match =
  sm_Symbol :: string
  sm_Description :: string
  sm_Type :: string
  sm_Exchange :: string
  sm_Prefix :: string
  sm_Currency :: string
  sm_SourceID :: string
  sm_TypeSpecs :: "string list"

definition Full :: "symbol_match \<Rightarrow> string" where
  "Full m = (if sm_Prefix m \<noteq> '''' then sm_Prefix m @ '':'' @ sm_Symbol m else sm_Symbol m)"

record search_options =
  so_Type :: string
  so_Exchange :: string
  so_Lang :: string
  so_Limit :: int

datatype param = PStr string | PInt int

record tv_message =
  tm_Method :: string
  tm_Params :: "param list"

section \<open>errors.go\<close>

definition CodeSymbolUnknown :: string where
  "CodeSymbolUnknown = ''symbol_unknown''"

definition CodeInvalidResolution :: string where
  "CodeInvalidResolution = ''invalid_resolution''"

definition CodeInvalidBars :: string where
  "CodeInvalidBars = ''invalid_bars''"

definition CodeUpstreamTimeout :: string where
  "CodeUpstreamTimeout = ''upstream_timeout''"

definition CodeUpstreamProtocol :: string where
  "CodeUpstreamProtocol = ''upstream_protocol''"

definition CodeUpstreamHTTP :: string where
  "CodeUpstreamHTTP = ''upstream_http''"

definition CodeRateLimited :: string where
  "CodeRateLimited = ''rate_limited''"

definition CodeClosed :: string where
  "CodeClosed = ''closed''"

text \<open>
  \<open>Error\<close>. A cause is an error of another package (or a nested \<open>*Error\<close>); it is kept as
  the text its \<open>Error()\<close> method returns.
\<close>

record tv_error =
  e_Code :: string
  e_Message :: string
  e_Cause :: "string option"

definition newErr :: "string \<Rightarrow> string \<Rightarrow> string option \<Rightarrow> tv_error" where
  "newErr code msg cause = \<lparr>e_Code = code, e_Message = msg, e_Cause = cause\<rparr>"

definition error_string :: "tv_error option \<Rightarrow> string" where
  "error_string eo = (case eo of
       None \<Rightarrow> ''''
     | Some e \<Rightarrow> (case e_Cause e of
           Some c \<Rightarrow> ''tradingview: '' @ e_Code e @ '': '' @ e_Message e @ '': '' @ c
         | None \<Rightarrow> ''tradingview: '' @ e_Code e @ '': '' @ e_Message e))"

text \<open>
  \<open>Unwrap\<close>, which \<open>errors.Is\<close> and \<open>errors.As\<close> follow.
\<close>

definition Unwrap :: "tv_error \<Rightarrow> string option" where
  "Unwrap e = e_Cause e"

lemmas codes = CodeSymbolUnknown_def CodeInvalidResolution_def CodeInvalidBars_def
  CodeUpstreamTimeout_def CodeUpstreamProtocol_def CodeUpstreamHTTP_def
  CodeRateLimited_def CodeClosed_def

lemma newErr_simps [simp]:
  "e_Code (newErr c m w) = c" "e_Message (newErr c m w) = m" "e_Cause (newErr c m w) = w"
  by (simp_all add: newErr_def)

section \<open>config.go\<close>

definition second :: int where
  "second = 1000000000"

definition minute :: int where
  "minute = 60 * second"

definition hour :: int where
  "hour = 60 * minute"

record config =
  cfg_Host :: string
  cfg_AuthToken :: string
  cfg_PoolSize :: int
  cfg_HandshakeTimeout :: int
  cfg_FetchTimeout :: int
  cfg_IdleConnTimeout :: int
  cfg_SearchTimeout :: int
  cfg_CacheTTLs :: "(string \<rightharpoonup> int) option"
  cfg_CacheSize :: int
  cfg_EnableCache :: bool
  cfg_CandleHistory :: int
  cfg_UserAgent :: string

text \<open>The zero value \<open>Config{}\<close>.\<close>

definition zero_config :: config where
  "zero_config = \<lparr>cfg_Host = '''', cfg_AuthToken = '''', cfg_PoolSize = 0,
     cfg_HandshakeTimeout = 0, cfg_FetchTimeout = 0, cfg_IdleConnTimeout = 0,
     cfg_SearchTimeout = 0, cfg_CacheTTLs = None, cfg_CacheSize = 0, cfg_EnableCache = False,
     cfg_CandleHistory = 0, cfg_UserAgent = ''''\<rparr>"

definition default_ttls :: "string \<rightharpoonup> int" where
  "default_ttls = map_of
     [(''1'', 5 * second), (''5'', 15 * second), (''15'', 30 * second), (''30'', 45 * second),
      (''60'', 60 * second), (''120'', 2 * minute), (''240'', 5 * minute), (''D'', 30 * minute),
      (''W'', 2 * hour), (''M'', 6 * hour)]"

definition DefaultConfig :: config where
  "DefaultConfig = \<lparr>
     cfg_Host = ''data.tradingview.com'',
     cfg_AuthToken = ''unauthorized_user_token'',
     cfg_PoolSize = 8,
     cfg_HandshakeTimeout = 10 * second,
     cfg_FetchTimeout = 20 * second,
     cfg_IdleConnTimeout = 5 * minute,
     cfg_SearchTimeout = 10 * second,
     cfg_CacheTTLs = Some default_ttls,
     cfg_CacheSize = 256,
     cfg_EnableCache = False,
     cfg_CandleHistory = 300,
     cfg_UserAgent = ''Mozilla/5.0 (Macintosh; Intel Mac OS X 10_15_7) AppleWebKit/537.36''\<rparr>"

definition withDefaults :: "config \<Rightarrow> config" where
  "withDefaults c =
     (let d = DefaultConfig in c\<lparr>
        cfg_Host := (if cfg_Host c = '''' then cfg_Host d else cfg_Host c),
        cfg_AuthToken := (if cfg_AuthToken c = '''' then cfg_AuthToken d else cfg_AuthToken c),
        cfg_PoolSize := (if cfg_PoolSize c \<le> 0 then cfg_PoolSize d else cfg_PoolSize c),
        cfg_HandshakeTimeout := (if cfg_HandshakeTimeout c \<le> 0 then cfg_HandshakeTimeout d else cfg_HandshakeTimeout c),
        cfg_FetchTimeout := (if cfg_FetchTimeout c \<le> 0 then cfg_FetchTimeout d else cfg_FetchTimeout c),
        cfg_IdleConnTimeout := (if cfg_IdleConnTimeout c \<le> 0 then cfg_IdleConnTimeout d else cfg_IdleConnTimeout c),
        cfg_SearchTimeout := (if cfg_SearchTimeout c \<le> 0 then cfg_SearchTimeout d else cfg_SearchTimeout c),
        cfg_CacheSize := (if cfg_CacheSize c \<le> 0 then cfg_CacheSize d else cfg_CacheSize c),
        cfg_CacheTTLs := (if cfg_CacheTTLs c = None then cfg_CacheTTLs d else cfg_CacheTTLs c),
        cfg_CandleHistory := (if cfg_CandleHistory c \<le> 0 then cfg_CandleHistory d else cfg_CandleHistory c),
        cfg_UserAgent := (if cfg_UserAgent c = '''' then cfg_UserAgent d else cfg_UserAgent c)\<rparr>)"

text \<open>What the rest of the SDK relies on once \<open>withDefaults\<close> has run.\<close>

definition config_ok :: "config \<Rightarrow> bool" where
  "config_ok c \<longleftrightarrow> cfg_Host c \<noteq> '''' \<and> cfg_AuthToken c \<noteq> '''' \<and> 0 < cfg_PoolSize c
     \<and> 0 < cfg_HandshakeTimeout c \<and> 0 < cfg_FetchTimeout c \<and> 0 < cfg_IdleConnTimeout c
     \<and> 0 < cfg_SearchTimeout c \<and> 0 < cfg_CacheSize c \<and> cfg_CacheTTLs c \<noteq> None
     \<and> 0 < cfg_CandleHistory c \<and> cfg_UserAgent c \<noteq> ''''"

lemma withDefaults_fields:
  "cfg_Host (withDefaults c) = (if cfg_Host c = '''' then cfg_Host DefaultConfig else cfg_Host c)"
  "cfg_AuthToken (withDefaults c) =
     (if cfg_AuthToken c = '''' then cfg_AuthToken DefaultConfig else cfg_AuthToken c)"
  "cfg_PoolSize (withDefaults c) =
     (if cfg_PoolSize c \<le> 0 then cfg_PoolSize DefaultConfig else cfg_PoolSize c)"
  "cfg_HandshakeTimeout (withDefaults c) = (if cfg_HandshakeTimeout c \<le> 0
     then cfg_HandshakeTimeout DefaultConfig else cfg_HandshakeTimeout c)"
  "cfg_FetchTimeout (withDefaults c) =
     (if cfg_FetchTimeout c \<le> 0 then cfg_FetchTimeout DefaultConfig else cfg_FetchTimeout c)"
  "cfg_IdleConnTimeout (withDefaults c) = (if cfg_IdleConnTimeout c \<le> 0
     then cfg_IdleConnTimeout DefaultConfig else cfg_IdleConnTimeout c)"
  "cfg_SearchTimeout (withDefaults c) =
     (if cfg_SearchTimeout c \<le> 0 then cfg_SearchTimeout DefaultConfig else cfg_SearchTimeout c)"
  "cfg_CacheSize (withDefaults c) =
     (if cfg_CacheSize c \<le> 0 then cfg_CacheSize DefaultConfig else cfg_CacheSize c)"
  "cfg_CacheTTLs (withDefaults c) =
     (if cfg_CacheTTLs c = None then cfg_CacheTTLs DefaultConfig else cfg_CacheTTLs c)"
  "cfg_EnableCache (withDefaults c) = cfg_EnableCache c"
  "cfg_CandleHistory (withDefaults c) =
     (if cfg_CandleHistory c \<le> 0 then cfg_CandleHistory DefaultConfig else cfg_CandleHistory c)"
  "cfg_UserAgent (withDefaults c) =
     (if cfg_UserAgent c = '''' then cfg_UserAgent DefaultConfig else cfg_UserAgent c)"
  by (simp_all add: withDefaults_def Let_def)

lemma withDefaults_config_ok: "config_ok (withDefaults c)"
  by (auto simp: config_ok_def withDefaults_fields DefaultConfig_def second_def minute_def)

lemma withDefaults_keeps: "config_ok c \<Longrightarrow> withDefaults c = c"
  by (rule config.equality) (auto simp: config_ok_def withDefaults_fields)

end
