(* ===== verification/Json.thy ===== *)
theory Json
  imports Types
begin

text \<open>
  The parts of \<open>encoding/json\<close> and \<open>unicode/utf8\<close> the protocol code calls.

  \<open>marshal_msg\<close> is \<open>json.Marshal\<close> on a \<open>tvMessage\<close> (HTML-escaping included). \<open>json_parse\<close>
  is the scanner behind \<open>json.Valid\<close> and \<open>json.Unmarshal\<close>: the JSON grammar with Go's
  nesting limit of 10000. \<open>unmarshal_map\<close> is \<open>json.Unmarshal\<close> into a \<open>map[string]any\<close>:
  numbers become floats (out of range is an error), strings are unescaped and made valid
  UTF-8, the last of duplicate keys wins, \<open>null\<close> gives the nil map, any other top-level
  value is an error.

  Each parser returns the rest of its input. The test \<open>length r < length s\<close> in the loops
  over elements only serves termination: it always succeeds.
\<close>

section \<open>UTF-8\<close>

definition cont :: "int \<Rightarrow> int \<Rightarrow> char \<Rightarrow> bool" where
  "cont lo hi c = (lo \<le> byte c \<and> byte c \<le> hi)"

text \<open>\<open>utf8.DecodeRuneInString\<close>: the rune and its size; (65533, 1) for an invalid byte.\<close>

definition decode_rune :: "string \<Rightarrow> int \<times> nat" where
  "decode_rune s = (case s of [] \<Rightarrow> (65533, 0) | c0 # r \<Rightarrow>
     let b0 = byte c0 in
     if b0 < 128 then (b0, 1)
     else if 194 \<le> b0 \<and> b0 \<le> 223 then
       (case r of
          c1 # _ \<Rightarrow> if cont 128 191 c1 then ((b0 - 192) * 64 + (byte c1 - 128), 2) else (65533, 1)
        | _ \<Rightarrow> (65533, 1))
     else if 224 \<le> b0 \<and> b0 \<le> 239 then
       (case r of
          c1 # c2 # _ \<Rightarrow>
            if cont (if b0 = 224 then 160 else 128) (if b0 = 237 then 159 else 191) c1 \<and> cont 128 191 c2
            then ((b0 - 224) * 4096 + (byte c1 - 128) * 64 + (byte c2 - 128), 3) else (65533, 1)
        | _ \<Rightarrow> (65533, 1))
     else if 240 \<le> b0 \<and> b0 \<le> 244 then
       (case r of
          c1 # c2 # c3 # _ \<Rightarrow>
            if cont (if b0 = 240 then 144 else 128) (if b0 = 244 then 143 else 191) c1
               \<and> cont 128 191 c2 \<and> cont 128 191 c3
            then ((b0 - 240) * 262144 + (byte c1 - 128) * 4096 + (byte c2 - 128) * 64
                  + (byte c3 - 128), 4)
            else (65533, 1)
        | _ \<Rightarrow> (65533, 1))
     else (65533, 1))"

text \<open>\<open>utf8.EncodeRune\<close>.\<close>

definition encode_rune :: "int \<Rightarrow> string" where
  "encode_rune n =
     (if n < 128 then [char_of n]
      else if n < 2048 then [char_of (192 + n div 64), char_of (128 + n mod 64)]
      else if 1114111 < n \<or> (55296 \<le> n \<and> n \<le> 57343) then map char_of [239::int, 191, 189]
      else if n < 65536
        then [char_of (224 + n div 4096), char_of (128 + n div 64 mod 64), char_of (128 + n mod 64)]
      else [char_of (240 + n div 262144), char_of (128 + n div 4096 mod 64),
            char_of (128 + n div 64 mod 64), char_of (128 + n mod 64)])"

section \<open>Marshalling a protocol message\<close>

abbreviation dquote :: char where
  "dquote \<equiv> CHR 0x22"

abbreviation backslash :: char where
  "backslash \<equiv> CHR 0x5C"

definition hex_digit :: "int \<Rightarrow> char" where
  "hex_digit n = (if n < 10 then char_of (48 + n) else char_of (87 + n))"

definition escape_ascii :: "char \<Rightarrow> string" where
  "escape_ascii c =
     (if c = dquote \<or> c = backslash then [backslash, c]
      else if byte c = 8 then [backslash, CHR ''b'']
      else if byte c = 12 then [backslash, CHR ''f'']
      else if byte c = 10 then [backslash, CHR ''n'']
      else if byte c = 13 then [backslash, CHR ''r'']
      else if byte c = 9 then [backslash, CHR ''t'']
      else if byte c < 32 \<or> c = CHR ''<'' \<or> c = CHR ''>'' \<or> c = CHR ''&''
        then [backslash, CHR ''u'', CHR ''0'', CHR ''0'', hex_digit (byte c div 16), hex_digit (byte c mod 16)]
      else [c])"

function quote_body :: "string \<Rightarrow> string" where
  "quote_body [] = []"
| "quote_body (c # s) =
     (if byte c < 128 then escape_ascii c @ quote_body s
      else let (r, n) = decode_rune (c # s) in
        if r = 65533 \<and> n = 1 then backslash # ''ufffd'' @ quote_body s
        else if r = 8232 \<or> r = 8233
          then backslash # ''u202'' @ [hex_digit (r mod 16)] @ quote_body (drop (n - 1) s)
        else take n (c # s) @ quote_body (drop (n - 1) s))"
  by pat_completeness auto
termination
  by (relation "measure length") auto

definition quote :: "string \<Rightarrow> string" where
  "quote s = [dquote] @ quote_body s @ [dquote]"

definition marshal_param :: "param \<Rightarrow> string" where
  "marshal_param p = (case p of PStr s \<Rightarrow> quote s | PInt n \<Rightarrow> show_int n)"

definition marshal_msg :: "tv_message \<Rightarrow> string" where
  \<open>marshal_msg m = ''{"m":'' @ quote (tm_Method m) @ '',"p":['' @
     join '','' (map marshal_param (tm_Params m)) @ '']}''\<close>

section \<open>The scanner\<close>

datatype jtree =
    JNull
  | JBool bool
  | JNum string
  | JStr string
  | JArr "jtree list"
  | JObj "(string \<times> jtree) list"

definition is_jws :: "char \<Rightarrow> bool" where
  "is_jws c = (byte c = 32 \<or> byte c = 9 \<or> byte c = 10 \<or> byte c = 13)"

definition skip_ws :: "string \<Rightarrow> string" where
  "skip_ws s = dropWhile is_jws s"

definition hex_val :: "char \<Rightarrow> int option" where
  "hex_val c = (let b = byte c in
     if 48 \<le> b \<and> b \<le> 57 then Some (b - 48)
     else if 97 \<le> b \<and> b \<le> 102 then Some (b - 87)
     else if 65 \<le> b \<and> b \<le> 70 then Some (b - 55)
     else None)"

text \<open>The raw text of a string after its opening quote, and what follows the closing one.\<close>

fun scan_str :: "string \<Rightarrow> (string \<times> string) option" where
  "scan_str [] = None"
| "scan_str (c # s) =
     (if c = dquote then Some ([], s)
      else if byte c < 32 then None
      else if c = backslash then
        (case s of [] \<Rightarrow> None
         | e # s' \<Rightarrow>
           if e = CHR ''u'' then
             (case s' of
                h1 # h2 # h3 # h4 # s'' \<Rightarrow>
                  if list_all (\<lambda>h. hex_val h \<noteq> None) [h1, h2, h3, h4]
                  then map_option (\<lambda>(a, r). (c # e # h1 # h2 # h3 # h4 # a, r)) (scan_str s'')
                  else None
              | _ \<Rightarrow> None)
           else if e = dquote \<or> e \<in> set ''bfnrt/'' \<or> e = backslash
             then map_option (\<lambda>(a, r). (c # e # a, r)) (scan_str s')
           else None)
      else map_option (\<lambda>(a, r). (c # a, r)) (scan_str s))"

definition getu4 :: "string \<Rightarrow> int option" where
  "getu4 s = (case s of
       a # u # h1 # h2 # h3 # h4 # _ \<Rightarrow>
         if a = backslash \<and> u = CHR ''u''
         then do { w1 \<leftarrow> hex_val h1; w2 \<leftarrow> hex_val h2; w3 \<leftarrow> hex_val h3; w4 \<leftarrow> hex_val h4;
                   Some (w1 * 4096 + w2 * 256 + w3 * 16 + w4) }
         else None
     | _ \<Rightarrow> None)"

definition unescape_c :: "char \<Rightarrow> char" where
  "unescape_c e = (if e = CHR ''b'' then CHR 0x08 else if e = CHR ''f'' then CHR 0x0C
     else if e = CHR ''n'' then CHR 0x0A else if e = CHR ''r'' then CHR 0x0D
     else if e = CHR ''t'' then CHR 0x09 else e)"

text \<open>\<open>unquoteBytes\<close> on text that passed \<open>scan_str\<close>.\<close>

function unquote :: "string \<Rightarrow> string" where
  "unquote [] = []"
| "unquote (c # s) =
     (if c = backslash then
        (case getu4 (c # s) of
           Some r \<Rightarrow>
             (if 55296 \<le> r \<and> r \<le> 57343 then
                (case getu4 (drop 5 s) of
                   Some r' \<Rightarrow>
                     (if r < 56320 \<and> 56320 \<le> r' \<and> r' \<le> 57343
                      then encode_rune ((r - 55296) * 1024 + (r' - 56320) + 65536) @ unquote (drop 11 s)
                      else encode_rune 65533 @ unquote (drop 5 s))
                 | None \<Rightarrow> encode_rune 65533 @ unquote (drop 5 s))
              else encode_rune r @ unquote (drop 5 s))
         | None \<Rightarrow> (case s of [] \<Rightarrow> [] | e # s' \<Rightarrow> unescape_c e # unquote s'))
      else if byte c < 128 then c # unquote s
      else let (r, n) = decode_rune (c # s) in encode_rune r @ unquote (drop (n - 1) s))"
  by pat_completeness auto
termination
  by (relation "measure length") auto

definition take_digits :: "string \<Rightarrow> string \<times> string" where
  "take_digits s = (takeWhile is_digit s, dropWhile is_digit s)"

definition scan_frac :: "string \<Rightarrow> (string \<times> string) option" where
  "scan_frac s = (case s of
       c # r \<Rightarrow>
         if c = CHR ''.'' then
           (let (ds, r') = take_digits r in if ds = [] then None else Some (c # ds, r'))
         else Some ([], s)
     | [] \<Rightarrow> Some ([], s))"

definition scan_exp :: "string \<Rightarrow> (string \<times> string) option" where
  "scan_exp s = (case s of
       c # r \<Rightarrow>
         if c = CHR ''e'' \<or> c = CHR ''E'' then
           (let sg = (case r of d # _ \<Rightarrow> if d = CHR ''+'' \<or> d = CHR ''-'' then [d] else [] | [] \<Rightarrow> []);
                (ds, r') = take_digits (drop (length sg) r)
            in if ds = [] then None else Some (c # sg @ ds, r'))
         else Some ([], s)
     | [] \<Rightarrow> Some ([], s))"

definition scan_int :: "string \<Rightarrow> (string \<times> string) option" where
  "scan_int s =
     (let sg = (if take 1 s = ''-'' then ''-'' else []);
          (ds, r) = take_digits (drop (length sg) s)
      in case ds of
           [] \<Rightarrow> None
         | d # t \<Rightarrow> if d = CHR ''0'' then Some (sg @ [d], t @ r) else Some (sg @ ds, r))"

definition scan_num :: "string \<Rightarrow> (string \<times> string) option" where
  "scan_num s = do {
     (i, r1) \<leftarrow> scan_int s;
     (f, r2) \<leftarrow> scan_frac r1;
     (x, r3) \<leftarrow> scan_exp r2;
     Some (i @ f @ x, r3) }"

definition max_nesting :: int where
  "max_nesting = 10000"

function (sequential) pval :: "int \<Rightarrow> string \<Rightarrow> (jtree \<times> string) option"
  and pelems :: "int \<Rightarrow> string \<Rightarrow> (jtree list \<times> string) option"
  and pmembers :: "int \<Rightarrow> string \<Rightarrow> ((string \<times> jtree) list \<times> string) option" where
  "pval d [] = None"
| "pval d (c # s) =
     (if is_jws c then pval d s
      else if c = CHR ''{'' then
        (if max_nesting \<le> d then None
         else if take 1 (skip_ws s) = ''}'' then Some (JObj [], drop 1 (skip_ws s))
         else map_option (\<lambda>(ms, r). (JObj ms, r)) (pmembers (d + 1) s))
      else if c = CHR ''['' then
        (if max_nesting \<le> d then None
         else if take 1 (skip_ws s) = '']'' then Some (JArr [], drop 1 (skip_ws s))
         else map_option (\<lambda>(ts, r). (JArr ts, r)) (pelems (d + 1) s))
      else if c = dquote then map_option (\<lambda>(a, r). (JStr (unquote a), r)) (scan_str s)
      else if has_prefix (c # s) ''null'' then Some (JNull, drop 3 s)
      else if has_prefix (c # s) ''true'' then Some (JBool True, drop 3 s)
      else if has_prefix (c # s) ''false'' then Some (JBool False, drop 4 s)
      else map_option (\<lambda>(l, r). (JNum l, r)) (scan_num (c # s)))"
| "pelems d s =
     (case pval d s of
        None \<Rightarrow> None
      | Some (t, r) \<Rightarrow>
          (case skip_ws r of
             c # r' \<Rightarrow>
               if c = CHR '','' then
                 (if length r' < length s
                  then map_option (\<lambda>(ts, q). (t # ts, q)) (pelems d r') else None)
               else if c = CHR '']'' then Some ([t], r')
               else None
           | [] \<Rightarrow> None))"
| "pmembers d s =
     (case skip_ws s of
        q # s1 \<Rightarrow>
          if q \<noteq> dquote then None
          else (case scan_str s1 of
            None \<Rightarrow> None
          | Some (k, s2) \<Rightarrow>
              (case skip_ws s2 of
                 col # s3 \<Rightarrow>
                   if col = CHR '':'' \<and> length s3 < length s then
                     (case pval d s3 of
                        None \<Rightarrow> None
                      | Some (t, r) \<Rightarrow>
                          (case skip_ws r of
                             c # r' \<Rightarrow>
                               if c = CHR '','' then
                                 (if length r' < length s
                                  then map_option (\<lambda>(ms, w). ((unquote k, t) # ms, w)) (pmembers d r')
                                  else None)
                               else if c = CHR ''}'' then Some ([(unquote k, t)], r')
                               else None
                           | [] \<Rightarrow> None))
                   else None
               | [] \<Rightarrow> None))
      | [] \<Rightarrow> None)"
  by pat_completeness auto
termination
  by (relation "measures
        [\<lambda>x. case x of Inl (d, s) \<Rightarrow> length s | Inr (Inl (d, s)) \<Rightarrow> length s | Inr (Inr (d, s)) \<Rightarrow> length s,
         \<lambda>x. case x of Inl (d, s) \<Rightarrow> 0 | _ \<Rightarrow> 1]") auto

definition json_parse :: "string \<Rightarrow> jtree option" where
  "json_parse s = (case pval 0 s of
       Some (t, r) \<Rightarrow> if skip_ws r = [] then Some t else None
     | None \<Rightarrow> None)"

definition json_valid :: "string \<Rightarrow> bool" where
  "json_valid s = (json_parse s \<noteq> None)"

section \<open>Decoding into Go values\<close>

text \<open>
  The dynamic types a value of type \<open>any\<close> has in the program. A map is an association
  list with distinct keys, in one of its iteration orders.
\<close>

datatype any =
    ANil
  | ABool bool
  | AFloat f64
  | AInt int
  | AInt64 int
  | AStr string
  | AArr "any list"
  | AMap "(string \<times> any) list"

text \<open>
  \<open>strconv.ParseFloat\<close> on a JSON number: its digits and decimal exponent, rounded once;
  \<open>None\<close> is the range error.
\<close>

definition exp_val :: "string \<Rightarrow> int" where
  "exp_val l = (case drop 1 l of
       c # ds \<Rightarrow> if c = CHR ''-'' then - digits_val ds
                else if c = CHR ''+'' then digits_val ds else digits_val (c # ds)
     | [] \<Rightarrow> 0)"

definition num_parts :: "string \<Rightarrow> int \<times> int" where
  "num_parts l =
     (let ip = takeWhile is_digit l;
          l2 = dropWhile is_digit l;
          fp = (if take 1 l2 = ''.'' then takeWhile is_digit (drop 1 l2) else []);
          l3 = (if take 1 l2 = ''.'' then dropWhile is_digit (drop 1 l2) else l2)
      in (digits_val (ip @ fp), exp_val l3 - int (length fp)))"

definition num_to_f64 :: "string \<Rightarrow> f64 option" where
  "num_to_f64 l =
     (let neg = (take 1 l = ''-'');
          (m, x) = num_parts (if neg then drop 1 l else l);
          v = (if 0 \<le> x then fround neg (m * 10 ^ nat x) 1 0 else fround neg m (10 ^ nat (- x)) 0)
      in if v = FInf neg then None else Some v)"

fun to_any :: "jtree \<Rightarrow> any option" where
  "to_any JNull = Some ANil"
| "to_any (JBool b) = Some (ABool b)"
| "to_any (JNum l) = map_option AFloat (num_to_f64 l)"
| "to_any (JStr s) = Some (AStr s)"
| "to_any (JArr ts) = map_option AArr (those (map to_any ts))"
| "to_any (JObj ms) =
     map_option (\<lambda>vs. AMap (fold (\<lambda>(k, v) m. assoc_put k v m) (zip (map fst ms) vs) []))
       (those (map (\<lambda>(k, t). to_any t) ms))"

definition unmarshal_map :: "string \<Rightarrow> (string \<times> any) list option" where
  "unmarshal_map s = (case json_parse s of
       Some JNull \<Rightarrow> Some []
     | Some (JObj ms) \<Rightarrow> (case to_any (JObj ms) of Some (AMap m) \<Rightarrow> Some m | _ \<Rightarrow> None)
     | _ \<Rightarrow> None)"

text \<open>Type assertions on a value read from a map; a missing key reads as nil.\<close>

definition lookup_any :: "(string \<times> any) list \<Rightarrow> string \<Rightarrow> any" where
  "lookup_any m k = (case map_of m k of Some v \<Rightarrow> v | None \<Rightarrow> ANil)"

definition as_str :: "any \<Rightarrow> string option" where
  "as_str v = (case v of AStr s \<Rightarrow> Some s | _ \<Rightarrow> None)"

definition as_arr :: "any \<Rightarrow> any list option" where
  "as_arr v = (case v of AArr vs \<Rightarrow> Some vs | _ \<Rightarrow> None)"

definition as_map :: "any \<Rightarrow> (string \<times> any) list option" where
  "as_map v = (case v of AMap m \<Rightarrow> Some m | _ \<Rightarrow> None)"

section \<open>What a message reads back as\<close>

lemma hex_val_digit: "0 \<le> n \<Longrightarrow> n < 16 \<Longrightarrow> hex_val (hex_digit n) = Some n"
  by (auto simp: hex_val_def hex_digit_def byte_char_of)

lemma byte_inj: "byte c = byte d \<Longrightarrow> c = d"
  by (simp add: byte_def)

lemma byte_eq_char:
  "byte c = 8 \<Longrightarrow> c = CHR 0x08" "byte c = 12 \<Longrightarrow> c = CHR 0x0C" "byte c = 10 \<Longrightarrow> c = CHR 0x0A"
  "byte c = 13 \<Longrightarrow> c = CHR 0x0D" "byte c = 9 \<Longrightarrow> c = CHR 0x09"
  by (rule byte_inj, simp add: byte_def)+

lemma escape_nonempty: "escape_ascii c \<noteq> []"
  by (simp add: escape_ascii_def)

lemma byte_specials [simp]:
  "byte dquote = 34" "byte backslash = 92" "byte (CHR ''<'') = 60" "byte (CHR ''>'') = 62"
  "byte (CHR ''&'') = 38"
  by (simp_all add: byte_def)

lemma scan_escape:
  assumes "byte c < 128"
  shows "scan_str (escape_ascii c @ t) = map_option (\<lambda>(a, r). (escape_ascii c @ a, r)) (scan_str t)"
proof -
  have h: "hex_val (hex_digit (byte c div 16)) \<noteq> None" "hex_val (hex_digit (byte c mod 16)) \<noteq> None"
    using assms byte_nonneg [of c]
    by (simp_all add: hex_val_digit div_less_dividend)
  show ?thesis
    using h by (auto simp: escape_ascii_def hex_val_def byte_def)
qed

lemma getu4_other: "e \<noteq> CHR ''u'' \<Longrightarrow> getu4 (backslash # e # t) = None"
  by (auto simp: getu4_def split: list.splits)

lemma unquote_escape:
  assumes "byte c < 128"
  shows "unquote (escape_ascii c @ t) = c # unquote t"
proof -
  have g: "getu4 (backslash # CHR ''u'' # CHR ''0'' # CHR ''0'' # hex_digit (byte c div 16)
      # hex_digit (byte c mod 16) # t) = Some (byte c)"
    using assms byte_nonneg [of c] hex_val_digit [of "byte c div 16"] hex_val_digit [of "byte c mod 16"]
    by (simp add: getu4_def hex_val_def byte_def)
  have e: "encode_rune (byte c) = [c]"
    using assms by (simp add: encode_rune_def byte_def)
  show ?thesis
    using g e assms byte_nonneg [of c]
    by (auto simp: escape_ascii_def getu4_other unescape_c_def dest!: byte_eq_char)
qed

lemma scan_quote_body: "ascii s \<Longrightarrow> scan_str (quote_body s @ dquote # r) = Some (quote_body s, r)"
  by (induction s) (simp_all add: scan_escape)

lemma unquote_quote_body: "ascii s \<Longrightarrow> unquote (quote_body s) = s"
  by (induction s) (simp_all add: unquote_escape)

lemma pval_quote: "ascii s \<Longrightarrow> pval d (quote s @ r) = Some (JStr s, r)"
  by (simp add: quote_def is_jws_def scan_quote_body unquote_quote_body)


definition num_stop :: "string \<Rightarrow> bool" where
  "num_stop r = (r = [] \<or> hd r = CHR '','' \<or> hd r = CHR '']'')"

lemma hd_show_digits_nonzero: "0 < n \<Longrightarrow> hd (show_digits n) \<noteq> CHR ''0''"
proof (induction n rule: show_digits.induct)
  case (1 n)
  show ?case
  proof (cases "n < 10")
    case True
    then have "byte (digit_char n) \<noteq> byte (CHR ''0'')"
      using "1.prems" by (simp add: byte_digit_char) (simp add: byte_def)
    then show ?thesis using True by (subst show_digits.simps) auto
  next
    case False
    then have "0 < n div 10" by simp
    with False "1.IH" have "hd (show_digits (n div 10)) \<noteq> CHR ''0''" by simp
    then show ?thesis using False by (subst show_digits.simps) simp
  qed
qed

lemma show_digits_zero: "show_digits 0 = ''0''"
proof -
  have "digit_char 0 = CHR ''0''" by (rule byte_inj) (simp add: byte_digit_char, simp add: byte_def)
  then show ?thesis by (subst show_digits.simps) simp
qed

lemma takeWhile_digits:
  assumes "list_all is_digit s" and "r = [] \<or> \<not> is_digit (hd r)"
  shows "takeWhile is_digit (s @ r) = s" and "dropWhile is_digit (s @ r) = r"
  using assms by (induction s) (cases r; auto)+

lemma num_stop_digit: "num_stop r \<Longrightarrow> r = [] \<or> \<not> is_digit (hd r)"
  by (auto simp: num_stop_def is_digit_def byte_def)

lemma scan_int_show:
  assumes "num_stop r"
  shows "scan_int (show_int n @ r) = Some (show_int n, r)"
proof -
  have main: "scan_int (sg @ show_digits k @ r) = Some (sg @ show_digits k, r)"
    if k: "0 \<le> k" and sg: "sg = ''-'' \<or> sg = []" for sg k
  proof -
    obtain c cs where cs: "show_digits k = c # cs"
      using show_digits_nonempty [of k] by (cases "show_digits k") auto
    have digits: "list_all is_digit (c # cs)" using show_digits_digits [OF k] cs by simp
    then have c: "c \<noteq> CHR ''-''" by auto
    have td: "take_digits (c # cs @ r) = (c # cs, r)"
      using takeWhile_digits [OF digits num_stop_digit [OF assms]] by (simp add: take_digits_def)
    have z: "cs = []" if "c = CHR ''0''"
      using that hd_show_digits_nonzero [of k] cs show_digits_zero k by (cases "k = 0") auto
    show ?thesis
      using sg td c z unfolding cs by (auto simp: scan_int_def Let_def)
  qed
  show ?thesis
    using main [of n "[]"] main [of "- n" "''-''"] by (simp add: show_int_def)
qed

lemma scan_num_show: "num_stop r \<Longrightarrow> scan_num (show_int n @ r) = Some (show_int n, r)"
  by (auto simp: scan_num_def scan_int_show scan_frac_def scan_exp_def num_stop_def split: list.splits)

lemma show_int_start:
  obtains c cs where "show_int n = c # cs" and "is_digit c \<or> c = CHR ''-''"
proof (cases "show_int n")
  case Nil
  then show ?thesis using show_digits_nonempty [of n] by (simp add: show_int_def split: if_splits)
next
  case (Cons c cs)
  then show ?thesis using show_int_chars [of c n] that by auto
qed

lemma pval_show_int: "num_stop r \<Longrightarrow> pval d (show_int n @ r) = Some (JNum (show_int n), r)"
proof -
  assume r: "num_stop r"
  obtain c cs where c: "show_int n = c # cs" "is_digit c \<or> c = CHR ''-''"
    by (rule show_int_start)
  have b: "byte c = 45 \<or> 48 \<le> byte c \<and> byte c \<le> 57"
    using c(2) by (auto simp: is_digit_def byte_def)
  have "c \<noteq> x" if "byte x < 45 \<or> 57 < byte x" for x
    using b that by auto
  from this [of "CHR ''{''"] this [of "CHR ''[''"] this [of dquote] this [of "CHR ''n''"]
    this [of "CHR ''t''"] this [of "CHR ''f''"]
  have ne: "c \<noteq> CHR ''{''" "c \<noteq> CHR ''[''" "c \<noteq> dquote" "c \<noteq> CHR ''n''" "c \<noteq> CHR ''t''" "c \<noteq> CHR ''f''"
    by (simp_all add: byte_def)
  have "scan_num (c # cs @ r) = Some (c # cs, r)"
    using scan_num_show [OF r, of n] by (simp add: c)
  moreover have "\<not> is_jws c" using b by (auto simp: is_jws_def)
  ultimately show ?thesis
    using ne by (simp add: c has_prefix_def)
qed

definition param_tree :: "param \<Rightarrow> jtree" where
  "param_tree p = (case p of PStr s \<Rightarrow> JStr s | PInt n \<Rightarrow> JNum (show_int n))"

definition param_ok :: "param \<Rightarrow> bool" where
  "param_ok p = (case p of PStr s \<Rightarrow> ascii s | PInt n \<Rightarrow> int64_min \<le> n \<and> n \<le> int64_max)"

lemma pval_param:
  "param_ok p \<Longrightarrow> num_stop r \<Longrightarrow> pval d (marshal_param p @ r) = Some (param_tree p, r)"
  by (cases p) (simp_all add: marshal_param_def param_tree_def param_ok_def pval_quote pval_show_int)

lemma skip_ws_id: "s = [] \<or> \<not> is_jws (hd s) \<Longrightarrow> skip_ws s = s"
  unfolding skip_ws_def by (rule dropWhile_id)

lemma pelems_params:
  "list_all param_ok ps \<Longrightarrow> ps \<noteq> [] \<Longrightarrow>
   pelems d (join '','' (map marshal_param ps) @ CHR '']'' # r) = Some (map param_tree ps, r)"
proof (induction ps rule: induct_list012)
  case (2 p)
  then show ?case
    by (simp add: pval_param num_stop_def skip_ws_id is_jws_def byte_def)
next
  case (3 p q ps)
  let ?t = "join '','' (map marshal_param (q # ps)) @ CHR '']'' # r"
  have "pval d (marshal_param p @ CHR '','' # ?t) = Some (param_tree p, CHR '','' # ?t)"
    using "3.prems" by (intro pval_param) (simp_all add: num_stop_def)
  moreover have "pelems d ?t = Some (map param_tree (q # ps), r)"
    using "3.IH"(2) "3.prems" by simp
  ultimately show ?case
    by (subst pelems.simps) (simp add: skip_ws_id is_jws_def byte_def del: pelems.simps)
qed simp


definition msg_ok :: "tv_message \<Rightarrow> bool" where
  "msg_ok m = (ascii (tm_Method m) \<and> list_all param_ok (tm_Params m))"

lemma pval_params:
  assumes "list_all param_ok ps"
  shows "pval 1 (CHR ''['' # join '','' (map marshal_param ps) @ CHR '']'' # r)
    = Some (JArr (map param_tree ps), r)"
proof (cases ps)
  case Nil
  then show ?thesis by (simp add: max_nesting_def skip_ws_id is_jws_def byte_def)
next
  case (Cons p qs)
  let ?t = "join '','' (map marshal_param ps) @ CHR '']'' # r"
  have "take 1 (skip_ws ?t) \<noteq> '']''"
  proof -
    obtain c cs where c: "marshal_param p = c # cs" "\<not> is_jws c" "c \<noteq> CHR '']''"
    proof (cases p)
      case (PStr s)
      then show ?thesis using that [of dquote "quote_body s @ [dquote]"]
        by (simp add: marshal_param_def quote_def is_jws_def)
    next
      case (PInt n)
      obtain c cs where "show_int n = c # cs" "is_digit c \<or> c = CHR ''-''" by (rule show_int_start)
      moreover from this(2) have "\<not> is_jws c \<and> c \<noteq> CHR '']''"
        by (auto simp: is_digit_def is_jws_def byte_def)
      ultimately show ?thesis using PInt that by (simp add: marshal_param_def)
    qed
    have "\<exists>u. ?t = c # u" using Cons c(1) by (cases qs) auto
    then show ?thesis using c by (auto simp: skip_ws_id)
  qed
  moreover have "pelems 2 ?t = Some (map param_tree ps, r)"
    using assms Cons by (intro pelems_params) simp_all
  ultimately show ?thesis
    by (simp add: max_nesting_def is_jws_def byte_def del: pelems.simps)
qed

lemma scan_key1: "scan_str (c # dquote # r) = Some ([c], r)"
  if "c \<noteq> dquote" "c \<noteq> backslash" "32 \<le> byte c"
  using that by simp

lemma json_parse_marshal:
  assumes "msg_ok m"
  shows "json_parse (marshal_msg m) =
    Some (JObj [(''m'', JStr (tm_Method m)), (''p'', JArr (map param_tree (tm_Params m)))])"
proof -
  let ?ps = "join '','' (map marshal_param (tm_Params m))"
  let ?t2 = "dquote # CHR ''p'' # dquote # CHR '':'' # CHR ''['' # ?ps @ CHR '']'' # ''}''"
  let ?t1 = "dquote # CHR ''m'' # dquote # CHR '':'' # quote (tm_Method m) @ CHR '','' # ?t2"
  have q: "pval d (quote (tm_Method m) @ r) = Some (JStr (tm_Method m), r)" for d r
    using assms by (intro pval_quote) (simp add: msg_ok_def)
  have a: "pval 1 (CHR ''['' # ?ps @ CHR '']'' # r) = Some (JArr (map param_tree (tm_Params m)), r)" for r
    using assms by (intro pval_params) (simp add: msg_ok_def)
  have u: "unquote ''m'' = ''m''" "unquote ''p'' = ''p''" by (simp_all add: byte_def)
  have m2: "pmembers 1 ?t2 = Some ([(''p'', JArr (map param_tree (tm_Params m)))], [])"
    by (subst pmembers.simps)
      (simp add: a u scan_key1 skip_ws_id is_jws_def byte_def del: pmembers.simps pval.simps scan_str.simps unquote.simps)
  have m1: "pmembers 1 ?t1 = Some ([(''m'', JStr (tm_Method m)), (''p'', JArr (map param_tree (tm_Params m)))], [])"
    by (subst pmembers.simps)
      (simp add: q u m2 scan_key1 skip_ws_id is_jws_def byte_def del: pmembers.simps pval.simps scan_str.simps unquote.simps)
  have "marshal_msg m = CHR ''{'' # ?t1" by (simp add: marshal_msg_def)
  moreover have "pval 0 (CHR ''{'' # ?t1) =
    Some (JObj [(''m'', JStr (tm_Method m)), (''p'', JArr (map param_tree (tm_Params m)))], [])"
    by (subst pval.simps)
      (simp add: m1 max_nesting_def skip_ws_id is_jws_def byte_def del: pmembers.simps pval.simps)
  ultimately show ?thesis by (simp add: json_parse_def skip_ws_def del: pval.simps)
qed

lemma num_to_f64_show:
  assumes "int64_min \<le> n" and "n \<le> int64_max"
  shows "num_to_f64 (show_int n) = Some (f64_of_int n)"
proof -
  have "okfin (f64_of_int n)"
    using assms by (intro f64_of_int_okfin) (auto simp: int64_min_def int64_max_def)
  then have nf: "f64_of_int n \<noteq> FInf s" for s by (auto simp: okfin_def)
  have hd: "take 1 (show_digits k) \<noteq> ''-''" if "0 \<le> k" for k
    using hd_show_digits [OF that] by (cases "show_digits k") auto
  have np: "num_parts (show_digits k) = (k, 0)" if "0 \<le> k" for k
  proof -
    have tw: "takeWhile is_digit (show_digits k) = show_digits k" "dropWhile is_digit (show_digits k) = []"
      using takeWhile_digits [OF show_digits_digits [OF that], of "[]"] unfolding append_Nil2 by simp_all
    show ?thesis using that unfolding num_parts_def Let_def tw by (simp add: exp_val_def)
  qed
  have v: "fround (n < 0) \<bar>n\<bar> 1 0 = f64_of_int n" by (simp add: f64_of_int_def)
  show ?thesis
  proof (cases "n < 0")
    case True
    then show ?thesis
      using np [of "- n"] v nf by (simp add: num_to_f64_def show_int_def Let_def)
  next
    case False
    then show ?thesis
      using np [of n] v nf hd [of n] by (simp add: num_to_f64_def show_int_def Let_def)
  qed
qed

definition param_any :: "param \<Rightarrow> any" where
  "param_any p = (case p of PStr s \<Rightarrow> AStr s | PInt n \<Rightarrow> AFloat (f64_of_int n))"

lemma to_any_param: "param_ok p \<Longrightarrow> to_any (param_tree p) = Some (param_any p)"
  by (cases p) (simp_all add: param_tree_def param_any_def param_ok_def num_to_f64_show)

lemma those_params:
  "list_all param_ok ps \<Longrightarrow> those (map (to_any \<circ> param_tree) ps) = Some (map param_any ps)"
  by (induction ps) (simp_all add: to_any_param)

lemma unmarshal_marshal:
  "msg_ok m \<Longrightarrow> unmarshal_map (marshal_msg m) =
     Some [(''m'', AStr (tm_Method m)), (''p'', AArr (map param_any (tm_Params m)))]"
  by (simp add: unmarshal_map_def json_parse_marshal those_params msg_ok_def)

end
