(* ===== verification/Protocol.thy ===== *)
theory Protocol
  imports Json "HOL-Library.Multiset" "HOL-Library.Sublist"
begin

text \<open>
  \<open>protocol.go\<close>: length-prefix framing, the heartbeat reply, candle parsing, and the
  normalisation of resolutions and symbols.

  \<open>decodeFrames\<close> returns \<open>None\<close> where the Go code panics: the slice expression \<open>raw[:n]\<close>
  with the negative \<open>n\<close> of a frame such as \<open>~m~-1~m~\<close>.
\<close>

section \<open>Framing\<close>

definition frame_of :: "string \<Rightarrow> string" where
  "frame_of body = ''~m~'' @ show_int (int (length body)) @ ''~m~'' @ body"

text \<open>
  \<open>encodeFrame\<close>. \<open>json.Marshal\<close> cannot fail on a message of strings and ints, so the
  error result is never used.
\<close>

definition encodeFrame :: "tv_message \<Rightarrow> string" where
  "encodeFrame msg = (let body = marshal_msg msg
     in ''~m~'' @ show_int (int (length body)) @ ''~m~'' @ body)"

lemma index_drop_less:
  "index raw p = Some i \<Longrightarrow> p \<noteq> [] \<Longrightarrow> length (drop k (drop (i + length p) raw)) < length raw"
  using index_Some_bound [of raw p i] by (cases p) auto

function decodeFrames :: "string \<Rightarrow> string list go" where
  "decodeFrames raw =
     (if raw = [] then Some [] else
      (case index raw ''~m~'' of
         None \<Rightarrow> Some []
       | Some start \<Rightarrow>
         (let raw1 = drop (start + 3) raw in
          case index raw1 ''~m~'' of
            None \<Rightarrow> Some []
          | Some end \<Rightarrow>
            (case atoi (take end raw1) of
               None \<Rightarrow> Some []
             | Some n \<Rightarrow>
               (let raw2 = drop (end + 3) raw1 in
                if int (length raw2) < n then Some (if json_valid raw2 then [raw2] else [])
                else if 0 < n \<and> raw2 ! nat (n - 1) = CHR ''~'' \<and> has_prefix (drop (nat n) raw2) ''m~''
                then map_option (Cons (take (nat (n - 1)) raw2)) (decodeFrames (drop (nat (n - 1)) raw2))
                else (case go_upto raw2 n of
                        None \<Rightarrow> None
                      | Some f \<Rightarrow> map_option (Cons f) (decodeFrames (drop (nat n) raw2))))))))"
  by pat_completeness auto
termination
proof (relation "measure length", goal_cases)
  case 1
  show ?case by simp
next
  case (2 raw start raw1 "end" n raw2)
  then show ?case
    using index_drop_less [of raw "''~m~''" start "end + 3 + nat (n - 1)"] by simp
next
  case (3 raw start raw1 "end" n raw2 f)
  then show ?case
    using index_drop_less [of raw "''~m~''" start "end + 3 + nat n"] by simp
qed

declare decodeFrames.simps [simp del]

text \<open>\<open>heartbeatPong\<close>; \<open>None\<close> is the result \<open>("", false)\<close>.\<close>

definition heartbeatPong :: "string \<Rightarrow> string option" where
  "heartbeatPong raw =
     (case index raw ''~h~'' of
        None \<Rightarrow> None
      | Some i \<Rightarrow>
          let rest = drop (i + 3) raw;
              num = takeWhile (\<lambda>c. c \<noteq> CHR ''~'') rest;
              body = ''~h~'' @ num
          in Some (''~m~'' @ show_int (int (length body)) @ ''~m~'' @ body))"

section \<open>Candles\<close>

definition asFloat :: "any \<Rightarrow> f64" where
  "asFloat v = (case v of
       AFloat n \<Rightarrow> n
     | AInt n \<Rightarrow> f64_of_int n
     | AInt64 n \<Rightarrow> f64_of_int n
     | _ \<Rightarrow> 0)"

definition parse_bar :: "any \<Rightarrow> candle option" where
  "parse_bar item = do {
     bar \<leftarrow> as_map item;
     vs \<leftarrow> as_arr (lookup_any bar ''v'');
     if length vs < 6 then None
     else Some \<lparr>c_Timestamp = f64_to_int (asFloat (vs ! 0)), c_Open = asFloat (vs ! 1),
       c_High = asFloat (vs ! 2), c_Low = asFloat (vs ! 3), c_Close = asFloat (vs ! 4),
       c_Volume = asFloat (vs ! 5)\<rparr> }"

definition parse_series :: "any \<Rightarrow> candle list" where
  "parse_series v = (case as_map v of
       None \<Rightarrow> []
     | Some series \<Rightarrow>
         (case as_arr (lookup_any series ''s'') of
            None \<Rightarrow> []
          | Some bars \<Rightarrow> List.map_filter parse_bar bars))"

definition parseCandles :: "(string \<times> any) list \<Rightarrow> candle list" where
  "parseCandles payload0 =
     (let payload = (case as_map (lookup_any payload0 ''sds'') of Some nested \<Rightarrow> nested | None \<Rightarrow> payload0)
      in concat (map (\<lambda>(k, v). parse_series v) payload))"

section \<open>Resolutions, symbols, session ids\<close>

definition ValidResolutions :: "string list" where
  "ValidResolutions = [''1'', ''3'', ''5'', ''15'', ''30'', ''45'', ''60'', ''120'', ''180'', ''240'',
     ''D'', ''1D'', ''W'', ''1W'', ''M'', ''1M'']"

definition friendlyToWire :: "string \<rightharpoonup> string" where
  "friendlyToWire = map_of
     [(''1M'', ''1''), (''1MIN'', ''1''), (''3M'', ''3''), (''3MIN'', ''3''), (''5M'', ''5''), (''5MIN'', ''5''),
      (''15M'', ''15''), (''15MIN'', ''15''), (''30M'', ''30''), (''30MIN'', ''30''), (''45M'', ''45''), (''45MIN'', ''45''),
      (''1H'', ''60''), (''60M'', ''60''), (''2H'', ''120''), (''3H'', ''180''), (''4H'', ''240''),
      (''1D'', ''D''), (''DAILY'', ''D''), (''1W'', ''W''), (''WEEKLY'', ''W''), (''1MN'', ''M''), (''MONTHLY'', ''M'')]"

definition NormalizeResolution :: "unicode \<Rightarrow> string \<Rightarrow> string option" where
  "NormalizeResolution U r0 =
     (let r = to_upper U (trim_space U r0) in
      if r = '''' then None
      else case friendlyToWire r of
             Some mapped \<Rightarrow> Some mapped
           | None \<Rightarrow> if r \<in> set ValidResolutions then Some r else None)"

definition NormalizeSymbol :: "unicode \<Rightarrow> string \<Rightarrow> string" where
  "NormalizeSymbol U s = to_upper U (trim_space U s)"

text \<open>\<open>genSessionID\<close>: the clock reading and the process-wide counter are passed in.\<close>

definition genSessionID :: "string \<Rightarrow> int \<Rightarrow> int \<Rightarrow> string \<times> int" where
  "genSessionID pfx now counter =
     (let n = wrap64 (counter + 1)
      in (pfx @ ''_'' @ show_int now @ ''_'' @ show_int n, n))"

declare asFloat_def [go_defs] parse_bar_def [go_defs] parse_series_def [go_defs]
  parseCandles_def [go_defs] NormalizeSymbol_def [go_defs]

section \<open>Facts about framing\<close>

lemma encodeFrame_frame: "encodeFrame msg = frame_of (marshal_msg msg)"
  by (simp add: encodeFrame_def frame_of_def Let_def)

lemma tilde_not_in_show: "CHR ''~'' \<notin> set (show_int n)"
  by (rule show_int_not_in) simp_all

lemma atoi_show_length:
  "int (length s) \<le> int64_max \<Longrightarrow> atoi (show_int (int (length s))) = Some (int (length s))"
  by (simp add: show_int_def atoi_show_digits)

lemma go_upto_append: "go_upto (s @ t) (int (length s)) = Some s"
  by (simp add: go_upto_def)

text \<open>One frame in front of anything that does not start with \<open>m~\<close>.\<close>

lemma decodeFrames_cons:
  assumes len: "int (length body) \<le> int64_max" and rest: "\<not> has_prefix rest ''m~''"
  shows "decodeFrames (frame_of body @ rest) = map_option (Cons body) (decodeFrames rest)"
proof -
  let ?raw1 = "show_int (int (length body)) @ ''~m~'' @ body @ rest"
  have raw: "frame_of body @ rest = ''~m~'' @ ?raw1" by (simp add: frame_of_def)
  have i1: "index (''~m~'' @ ?raw1) ''~m~'' = Some 0" by (rule index_here) (simp add: has_prefix_def)
  have i2: "index ?raw1 ''~m~'' = Some (length (show_int (int (length body))))"
    using tilde_not_in_show by (intro index_append) auto
  have at: "atoi (take (length (show_int (int (length body)))) ?raw1) = Some (int (length body))"
    using atoi_show_length [OF len] by simp
  show ?thesis
    unfolding raw
    by (subst decodeFrames.simps)
      (use i1 i2 at rest in \<open>simp add: go_upto_append Let_def del: append_Cons\<close>)
qed

lemma decodeFrames_Nil [simp]: "decodeFrames [] = Some []"
  by (subst decodeFrames.simps) simp

text \<open>
  The interface the connections use: frames are put on the wire one by one, and the peer
  may deliver any number of them in one message.
\<close>

locale framing =
  fixes enc :: "string \<Rightarrow> string"
    and dec :: "string \<Rightarrow> string list go"
    and fits :: "string \<Rightarrow> bool"
  assumes dec_empty: "dec [] = Some []"
    and dec_frame: "fits b \<Longrightarrow>
      dec (enc b @ concat (map enc bs)) = map_option (Cons b) (dec (concat (map enc bs)))"
begin

lemma dec_batch: "list_all fits bs \<Longrightarrow> dec (concat (map enc bs)) = Some bs"
  by (induction bs) (simp_all add: dec_empty dec_frame)

lemma dec_one: "fits b \<Longrightarrow> dec (enc b) = Some [b]"
  using dec_batch [of "[b]"] by simp

end

definition frame_fits :: "string \<Rightarrow> bool" where
  "frame_fits b = (int (length b) \<le> int64_max)"

lemma frames_start: "\<not> has_prefix (concat (map frame_of bs)) ''m~''"
  by (cases bs) (simp_all add: frame_of_def has_prefix_def)

interpretation tv: framing frame_of decodeFrames frame_fits
  by unfold_locales (simp_all add: decodeFrames_cons frames_start frame_fits_def)

lemma digits_val_nonneg: "list_all is_digit s \<Longrightarrow> 0 \<le> digits_val s"
proof (induction s rule: rev_induct)
  case Nil
  show ?case by (simp add: digits_val_def)
next
  case (snoc c s)
  then show ?case by (simp add: digits_val_snoc digit_val_def is_digit_def)
qed

lemma atoi_negative: "atoi s = Some n \<Longrightarrow> n < 0 \<Longrightarrow> take 1 s = ''-''"
  by (rule ccontr) (auto simp: atoi_def Let_def digits_val_nonneg not_less [symmetric] split: if_splits dest: digits_val_nonneg)

lemma index_at: "index s p = Some i \<Longrightarrow> has_prefix (drop i s) p"
  by (induction s p arbitrary: i rule: index.induct) (auto simp: has_prefix_def split: if_splits)

text \<open>One round of the decoder: the header, the length it announces and what comes after it.\<close>

definition frame_head :: "string \<Rightarrow> (int \<times> string) option" where
  "frame_head raw = (case index raw ''~m~'' of
       None \<Rightarrow> None
     | Some start \<Rightarrow> (case index (drop (start + 3) raw) ''~m~'' of
           None \<Rightarrow> None
         | Some stop \<Rightarrow> map_option (\<lambda>n. (n, drop (stop + 3) (drop (start + 3) raw)))
             (atoi (take stop (drop (start + 3) raw)))))"

lemma decodeFrames_head:
  "decodeFrames raw = (if raw = [] then Some [] else case frame_head raw of
       None \<Rightarrow> Some []
     | Some (n, rest) \<Rightarrow>
         if int (length rest) < n then Some (if json_valid rest then [rest] else [])
         else if 0 < n \<and> rest ! nat (n - 1) = CHR ''~'' \<and> has_prefix (drop (nat n) rest) ''m~''
         then map_option (Cons (take (nat (n - 1)) rest)) (decodeFrames (drop (nat (n - 1)) rest))
         else (case go_upto rest n of
                 None \<Rightarrow> None
               | Some f \<Rightarrow> map_option (Cons f) (decodeFrames (drop (nat n) rest))))"
  by (subst decodeFrames.simps) (simp add: frame_head_def Let_def split: option.split)

lemma frame_head_rest:
  assumes "frame_head raw = Some (n, rest)"
  shows "\<exists>k. rest = drop (Suc k) raw" and "\<exists>j k. atoi (take j (drop k raw)) = Some n"
  using assms by (auto simp: frame_head_def add.commute [of _ 3] numeral_3_eq_3 split: option.splits)

text \<open>Induction over the rounds: the decoder goes on with some tail of what comes after the header.\<close>

lemma decodeFrames_induct [case_names round]:
  assumes "\<And>raw. (\<And>n rest k. raw \<noteq> [] \<Longrightarrow> frame_head raw = Some (n, rest) \<Longrightarrow> P (drop k rest)) \<Longrightarrow> P raw"
  shows "P raw"
proof (induction raw rule: length_induct)
  case (1 raw)
  show ?case
  proof (rule assms)
    fix n rest k
    assume "raw \<noteq> []" "frame_head raw = Some (n, rest)"
    then have "length (drop k rest) < length raw" using frame_head_rest(1) by fastforce
    then show "P (drop k rest)" using 1 by blast
  qed
qed

text \<open>A header with a negative length shows in the input as its first five characters.\<close>

lemma frame_head_negative:
  assumes "frame_head raw = Some (n, rest)" and "n < 0"
  shows "sublist ''~m~-'' raw"
proof -
  obtain start stop where h: "index raw ''~m~'' = Some start" "atoi (take stop (drop (start + 3) raw)) = Some n"
    using assms(1) by (auto simp: frame_head_def split: option.splits)
  have m: "take 3 (drop start raw) = ''~m~''" using index_at [OF h(1)] by (simp add: has_prefix_def numeral_3_eq_3)
  have "take 1 (take stop (drop (start + 3) raw)) = ''-''" by (rule atoi_negative [OF h(2) assms(2)])
  then have "take 1 (drop (start + 3) raw) = ''-''" by (cases stop) (auto simp: min_def split: if_splits)
  then have "take 4 (drop start raw) = ''~m~-''"
    using m take_add [of 3 1 "drop start raw"] by (simp add: add.commute)
  then have "sublist ''~m~-'' (drop start raw)" using sublist_take [of 4 "drop start raw"] by simp
  then show ?thesis using sublist_drop sublist_order.order_trans by blast
qed

lemma decodeFrames_no_panic: "\<not> sublist ''~m~-'' raw \<Longrightarrow> decodeFrames raw \<noteq> None"
proof (induction raw rule: decodeFrames_induct)
  case (round raw)
  show ?case
  proof (cases "raw = [] \<or> frame_head raw = None")
    case True
    then show ?thesis by (subst decodeFrames_head) auto
  next
    case False
    then obtain n rest where h: "raw \<noteq> []" "frame_head raw = Some (n, rest)" by (cases "frame_head raw") auto
    have n: "0 \<le> n" using frame_head_negative [OF h(2)] round.prems by linarith
    have "\<not> sublist ''~m~-'' (drop k rest)" for k
      using frame_head_rest(1) [OF h(2)] round.prems sublist_drop sublist_order.order_trans by metis
    then have "decodeFrames (drop k rest) \<noteq> None" for k using round.IH [OF h] by blast
    then show ?thesis using h n by (subst decodeFrames_head) (auto simp: go_upto_def)
  qed
qed

lemma decodeFrames_parts: "decodeFrames raw = Some parts \<Longrightarrow> p \<in> set parts \<Longrightarrow> sublist p raw"
proof (induction raw arbitrary: parts rule: decodeFrames_induct)
  case (round raw)
  from round.prems obtain n rest where h: "raw \<noteq> []" "frame_head raw = Some (n, rest)"
    by (subst (asm) decodeFrames_head) (auto split: if_splits option.splits)
  have rest: "sublist rest raw" using frame_head_rest(1) [OF h(2)] by (auto intro: sublist_drop)
  consider "p = rest" | k where "p = take k rest" | k ps where "decodeFrames (drop k rest) = Some ps" "p \<in> set ps"
    using round.prems h decodeFrames_head [of raw]
    by (auto simp: go_upto_def split: if_splits option.splits) (metis take_0, metis drop_0)
  then have "sublist p rest"
  proof cases
    case (3 k ps)
    then have "sublist p (drop k rest)" using round.IH [OF h] by blast
    then show ?thesis using sublist_drop sublist_order.order_trans by blast
  qed (auto intro: sublist_take)
  then show ?case using rest sublist_order.order_trans by blast
qed

section \<open>Facts about resolutions and ids\<close>

text \<open>The thirteen wire forms \<open>NormalizeResolution\<close> can return.\<close>

definition wire_forms :: "string list" where
  "wire_forms = [''1'', ''3'', ''5'', ''15'', ''30'', ''45'', ''60'', ''120'', ''180'', ''240'', ''D'', ''W'', ''M'']"

lemma friendly_range: "friendlyToWire a = Some w \<Longrightarrow> w \<in> set wire_forms"
  unfolding friendlyToWire_def by (drule map_of_SomeD) (auto simp: wire_forms_def)

lemma valid_checks:
  "list_all (\<lambda>r. friendlyToWire r \<noteq> None \<or> r \<in> set wire_forms) ValidResolutions"
  "list_all (\<lambda>w. w \<noteq> [] \<and> friendlyToWire w = None \<and> w \<in> set ValidResolutions) wire_forms"
  "list_all (list_all (\<lambda>c. 32 < byte c \<and> byte c < 97)) wire_forms"
  "list_all (list_all (\<lambda>c. c \<noteq> CHR ''|'')) wire_forms"
  by code_simp+

lemma normalize_range: "NormalizeResolution U r = Some w \<Longrightarrow> w \<in> set wire_forms"
  using friendly_range valid_checks(1)
  by (auto simp: NormalizeResolution_def Let_def list_all_iff split: if_splits option.splits)

lemma upper_c_id: "byte c < 97 \<or> 122 < byte c \<Longrightarrow> upper_c c = c"
  by (auto simp: upper_c_def)

lemma normalize_plain:
  assumes "list_all (\<lambda>c. 32 < byte c \<and> byte c < 97) s"
  shows "to_upper U (trim_space U s) = s"
proof -
  have a: "ascii s" using assms by (auto simp: ascii_def list_all_iff)
  have ns: "\<not> is_space c" if "c \<in> set s" for c
    using assms that by (auto simp: is_space_def list_all_iff)
  have dw: "dropWhile is_space t = t" if "set t \<subseteq> set s" for t
    using ns that by (cases t) auto
  have "trim_both s = s" unfolding trim_both_def by (simp add: dw)
  moreover have "map upper_c s = s"
    using assms by (intro map_idI upper_c_id) (auto simp: list_all_iff)
  ultimately show ?thesis using a by (simp add: to_upper_def trim_space_def)
qed

lemma normalize_wire: "w \<in> set wire_forms \<Longrightarrow> NormalizeResolution U w = Some w"
proof -
  assume w: "w \<in> set wire_forms"
  have "list_all (\<lambda>c. 32 < byte c \<and> byte c < 97) w" using w valid_checks(3) by (auto simp: list_all_iff)
  then have "to_upper U (trim_space U w) = w" by (rule normalize_plain)
  then show ?thesis
    using w valid_checks(2) by (auto simp: NormalizeResolution_def list_all_iff)
qed

lemma wire_forms_no_bar: "w \<in> set wire_forms \<Longrightarrow> CHR ''|'' \<notin> set w"
  using valid_checks(4) by (auto simp: list_all_iff)

lemma normalize_valid:
  assumes "r \<in> set ValidResolutions"
  shows "NormalizeResolution U r =
    (case friendlyToWire r of Some w \<Rightarrow> Some w | None \<Rightarrow> Some r)"
proof -
  have "list_all (\<lambda>r. r \<noteq> [] \<and> list_all (\<lambda>c. 32 < byte c \<and> byte c < 97) r) ValidResolutions"
    by code_simp
  then have "r \<noteq> []" and "to_upper U (trim_space U r) = r"
    using assms by (auto simp: list_all_iff intro: normalize_plain)
  then show ?thesis using assms by (simp add: NormalizeResolution_def)
qed

lemma map_upper_lower: "map upper_c (map lower_c s) = map upper_c s"
  by simp

lemma ascii_lower: "ascii s \<Longrightarrow> ascii (map lower_c s)"
  by (auto simp: ascii_def list_all_iff byte_lower_c)

lemma trim_both_pad:
  "list_all is_space a \<Longrightarrow> list_all is_space b \<Longrightarrow> trim_both (a @ s @ b) = trim_both s"
proof -
  assume a: "list_all is_space a" and b: "list_all is_space b"
  have l: "dropWhile is_space (x @ y) = dropWhile is_space y" if "list_all is_space x" for x y
    using that by (induction x) auto
  show ?thesis
  proof (cases "list_all is_space s")
    case True
    then have "dropWhile is_space (s @ b) = []" "dropWhile is_space s = []"
      using b by (auto simp: list_all_iff)
    then show ?thesis using l [OF a, of "s @ b"] by (simp only: trim_both_def rev.simps dropWhile.simps)
  next
    case False
    then have "dropWhile is_space (s @ b) = dropWhile is_space s @ b"
      by (auto simp: list_all_iff dropWhile_append1)
    moreover have "list_all is_space (rev b)" using b by (simp add: list_all_iff)
    ultimately show ?thesis
      using l [OF a, of "s @ b"] l [of "rev b" "rev (dropWhile is_space s)"] by (simp add: trim_both_def)
  qed
qed

text \<open>Spaces around an ASCII input and its letter case do not matter.\<close>

lemma canonical_input:
  assumes "ascii s" and "list_all is_space a" and "list_all is_space b"
  shows "to_upper U (trim_space U (a @ map lower_c s @ b)) = to_upper U (trim_space U s)"
proof -
  have sp: "ascii x" if "list_all is_space x" for x
    using that by (auto simp: ascii_def is_space_def list_all_iff)
  have as: "ascii (a @ map lower_c s @ b)" using assms sp by (simp add: ascii_lower)
  have "map upper_c (trim_both (a @ map lower_c s @ b)) = map upper_c (trim_both s)"
    using assms by (simp add: trim_both_pad trim_both_map_upper [symmetric] del: map_map)
      (simp add: map_upper_lower del: map_map)
  then show ?thesis using as assms by (simp add: to_upper_def trim_space_def)
qed

lemma index_skip:
  "p \<noteq> [] \<Longrightarrow> hd p \<notin> set a \<Longrightarrow> index (a @ s) p = map_option (\<lambda>i. length a + i) (index s p)"
proof (induction a)
  case Nil
  then show ?case by (simp add: option.map_ident)
next
  case (Cons c a)
  then have "\<not> has_prefix (c # a @ s) p" by (cases p) (auto simp: has_prefix_def)
  with Cons show ?case by (simp add: option.map_comp comp_def)
qed

lemma heartbeat_frame:
  assumes "CHR ''~'' \<notin> set num"
  shows "heartbeatPong (frame_of (''~h~'' @ num)) = Some (frame_of (''~h~'' @ num))"
proof -
  let ?ds = "show_int (int (length (''~h~'' @ num)))"
  have tail: "index (''~m~'' @ ''~h~'' @ num) ''~h~'' = Some 3" by (simp add: has_prefix_def)
  have "index (?ds @ ''~m~'' @ ''~h~'' @ num) ''~h~'' = Some (length ?ds + 3)"
    using tail tilde_not_in_show by (subst index_skip) simp_all
  then have i: "index (''~m~'' @ ?ds @ ''~m~'' @ ''~h~'' @ num) ''~h~'' = Some (length ?ds + 6)"
  proof -
    assume i: "index (?ds @ ''~m~'' @ ''~h~'' @ num) ''~h~'' = Some (length ?ds + 3)"
    obtain c cs where c: "?ds = c # cs" "is_digit c \<or> c = CHR ''-''" by (rule show_int_start)
    then have "c \<noteq> CHR ''h''" by (auto simp: is_digit_def byte_def)
    then show ?thesis using i unfolding c(1) by (simp add: has_prefix_def)
  qed
  define pre where "pre = ''~m~'' @ ?ds @ ''~m~~h~''"
  have "length pre = length ?ds + 6 + 3" by (simp add: pre_def)
  then have "drop (length ?ds + 6 + 3) (pre @ num) = num" by (metis append_eq_conv_conj)
  moreover have "takeWhile (\<lambda>c. c \<noteq> CHR ''~'') num = num"
    using assms by (auto simp: takeWhile_eq_all_conv)
  moreover have fr: "frame_of (''~h~'' @ num) = pre @ num" by (simp add: frame_of_def pre_def)
  moreover have "index (pre @ num) ''~h~'' = Some (length ?ds + 6)" using i by (simp add: pre_def)
  ultimately have "heartbeatPong (pre @ num) = Some (frame_of (''~h~'' @ num))"
    unfolding heartbeatPong_def Let_def by (simp only: option.case frame_of_def)
  then show ?thesis by (simp only: fr)
qed

lemma heartbeatPong_shape:
  "heartbeatPong raw = Some pong \<Longrightarrow>
   \<exists>num. CHR ''~'' \<notin> set num \<and> length num \<le> length raw \<and> pong = frame_of (''~h~'' @ num)"
proof -
  assume h: "heartbeatPong raw = Some pong"
  then obtain i where i: "index raw ''~h~'' = Some i"
    by (auto simp: heartbeatPong_def split: option.splits)
  let ?num = "takeWhile (\<lambda>c. c \<noteq> CHR ''~'') (drop (i + 3) raw)"
  have "CHR ''~'' \<notin> set ?num" by (auto dest: set_takeWhileD)
  moreover have "length ?num \<le> length raw"
    using length_takeWhile_le [of "\<lambda>c. c \<noteq> CHR ''~''" "drop (i + 3) raw"] by simp
  moreover have "pong = frame_of (''~h~'' @ ?num)"
    using h i by (simp add: heartbeatPong_def frame_of_def Let_def)
  ultimately show ?thesis by blast
qed

section \<open>Facts about candles\<close>

text \<open>The wire form of a bar: six numbers, the first the time in seconds.\<close>

definition bar_any :: "candle \<Rightarrow> any" where
  "bar_any c = AMap [(''v'', AArr [AFloat (f64_of_int (c_Timestamp c)), AFloat (c_Open c),
     AFloat (c_High c), AFloat (c_Low c), AFloat (c_Close c), AFloat (c_Volume c)])]"

lemma parse_bar_any: "\<bar>c_Timestamp c\<bar> \<le> 2 ^ 53 \<Longrightarrow> parse_bar (bar_any c) = Some c"
  by (simp add: parse_bar_def bar_any_def as_map_def as_arr_def lookup_any_def asFloat_def
      f64_to_int_of_int numeral_eq_Suc)

lemma parse_bars_any:
  "list_all (\<lambda>c. \<bar>c_Timestamp c\<bar> \<le> 2 ^ 53) cs \<Longrightarrow> List.map_filter parse_bar (map bar_any cs) = cs"
  by (induction cs) (simp_all add: parse_bar_any)

lemma parse_series_any:
  "list_all (\<lambda>c. \<bar>c_Timestamp c\<bar> \<le> 2 ^ 53) cs \<Longrightarrow>
   parse_series (AMap [(''s'', AArr (map bar_any cs))]) = cs"
  by (simp add: parse_series_def as_map_def as_arr_def lookup_any_def parse_bars_any)

lemma mset_concat_map: "mset (concat (map f xs)) = sum_mset (image_mset (\<lambda>x. mset (f x)) (mset xs))"
  by (induction xs) simp_all

lemma map_of_perm:
  "mset p = mset q \<Longrightarrow> distinct (map fst p) \<Longrightarrow> map_of p = map_of q"
proof -
  assume m: "mset p = mset q" and d: "distinct (map fst p)"
  have "mset (map fst p) = mset (map fst q)" using m by simp
  then have "distinct (map fst q)" using d by (metis mset_eq_imp_distinct_iff)
  then show ?thesis using m d by (metis map_of_inject_set set_mset_mset)
qed

section \<open>Properties\<close>

text \<open>
  C6. Framing loses nothing: a message in which the peer batched any number of frames
  decodes to exactly their bodies, in order, whatever the bodies contain (the marker
  \<open>~m~\<close> included).
\<close>

theorem decode_batch:
  assumes "list_all frame_fits bodies"
  shows "decodeFrames (concat (map frame_of bodies)) = Some bodies"
  using assms by (rule tv.dec_batch)

theorem decode_batch_witness:
  "decodeFrames (concat (map frame_of [''abc'', [], ''~m~3~m~x'', ''~h~7'']))
     = Some [''abc'', [], ''~m~3~m~x'', ''~h~7'']"
proof -
  have "list_all frame_fits [''abc'', [], ''~m~3~m~x'', ''~h~7'']"
    by (simp add: frame_fits_def int64_max_def)
  then show ?thesis by (rule decode_batch)
qed

text \<open>
  C20. What the client sends reads back as what it meant: the frame of a protocol message
  with ASCII strings and 64-bit ints holds one body, that body is JSON, and decoding it
  gives the method under \<open>m\<close> and the parameters, in order, under \<open>p\<close> (ints as floats, as
  Go decodes numbers).
\<close>

theorem encode_decode_message:
  assumes "msg_ok msg" and "frame_fits (marshal_msg msg)"
  shows "decodeFrames (encodeFrame msg) = Some [marshal_msg msg] \<and>
    unmarshal_map (marshal_msg msg) =
      Some [(''m'', AStr (tm_Method msg)), (''p'', AArr (map param_any (tm_Params msg)))]"
  using assms by (simp add: encodeFrame_frame tv.dec_one unmarshal_marshal)

theorem encode_decode_message_witness:
  "decodeFrames (encodeFrame \<lparr>tm_Method = ''create_series'', tm_Params = [PStr ''cs<1>'', PInt 300]\<rparr>)
    = Some [marshal_msg \<lparr>tm_Method = ''create_series'', tm_Params = [PStr ''cs<1>'', PInt 300]\<rparr>]"
proof -
  let ?m = "\<lparr>tm_Method = ''create_series'', tm_Params = [PStr ''cs<1>'', PInt 300]\<rparr>"
  have ok: "msg_ok ?m"
    by (simp add: msg_ok_def param_ok_def byte_def int64_min_def int64_max_def)
  have "frame_fits (marshal_msg ?m)" by code_simp
  with ok show ?thesis using encode_decode_message [of ?m] by blast
qed

text \<open>
  C39. Decoding is safe on input in which no header starts with a minus sign (in particular, in
  which \<open>~m~-\<close> does not occur): it returns, it does not panic, and every part it
  returns is a contiguous piece of the message.
\<close>

theorem decode_safe:
  assumes "\<not> sublist ''~m~-'' raw"
  shows "\<exists>parts. decodeFrames raw = Some parts \<and> (\<forall>p \<in> set parts. \<exists>a b. raw = a @ p @ b)"
proof -
  obtain parts where "decodeFrames raw = Some parts"
    using decodeFrames_no_panic [OF assms] by blast
  then show ?thesis using decodeFrames_parts unfolding sublist_def by blast
qed

theorem decode_safe_witness:
  "\<exists>parts. decodeFrames ''~m~99~m~[-1'' = Some parts \<and>
     (\<forall>p \<in> set parts. \<exists>a b. ''~m~99~m~[-1'' = a @ p @ b)"
  by (rule decode_safe) (simp add: sublist_code)

text \<open>
  C40. A negative length panics: a frame whose length field is the negative of any positive
  number reaches the slice expression \<open>raw[:n]\<close> with \<open>n < 0\<close>, so a peer can crash the
  process. The decoder has no check for it.
\<close>

theorem decode_negative_panics:
  assumes "0 < k" and "k \<le> int64_max"
  shows "decodeFrames (''~m~-'' @ show_digits k @ ''~m~'' @ rest) = None"
proof -
  let ?num = "show_int (- k)"
  have num: "?num = ''-'' @ show_digits k" using assms by (simp add: show_int_def)
  have i1: "index (''~m~'' @ ?num @ ''~m~'' @ rest) ''~m~'' = Some 0"
    by (rule index_here) (simp add: has_prefix_def)
  have i2: "index (?num @ ''~m~'' @ rest) ''~m~'' = Some (length ?num)"
    using tilde_not_in_show by (intro index_append) auto
  have "list_all is_digit (show_digits k)" using assms by (intro show_digits_digits) simp
  then have at: "atoi ?num = Some (- k)"
    using assms by (simp add: num atoi_def int64_min_def int64_max_def)
  have "decodeFrames (''~m~'' @ ?num @ ''~m~'' @ rest) = None"
    by (subst decodeFrames.simps)
      (use i1 i2 at assms in \<open>simp add: Let_def go_upto_def del: append_Cons\<close>)
  then show ?thesis by (simp add: num)
qed

theorem decode_negative_panics_witness:
  "decodeFrames (''~m~-'' @ show_digits 1 @ ''~m~'' @ ''{}'') = None"
  by (rule decode_negative_panics) (simp_all add: int64_max_def)

text \<open>
  Every heartbeat is answered in kind: the reply to a ping is the ping's own frame,
  and any reply the code builds is one well-formed frame with a \<open>~h~\<close> body.
\<close>

theorem heartbeat_reply:
  assumes "CHR ''~'' \<notin> set num" and "heartbeatPong raw = Some pong"
    and "int (length raw) < int64_max - 3"
  shows "heartbeatPong (frame_of (''~h~'' @ num)) = Some (frame_of (''~h~'' @ num)) \<and>
    (\<exists>body. decodeFrames pong = Some [body] \<and> take 3 body = ''~h~'')"
proof -
  obtain n where n: "length n \<le> length raw" "pong = frame_of (''~h~'' @ n)"
    using heartbeatPong_shape [OF assms(2)] by blast
  then have "frame_fits (''~h~'' @ n)" using assms(3) by (simp add: frame_fits_def)
  then have "decodeFrames pong = Some [''~h~'' @ n]" unfolding n(2) by (rule tv.dec_one)
  then show ?thesis using heartbeat_frame [OF assms(1)] by simp
qed

theorem heartbeat_reply_witness:
  "heartbeatPong (frame_of (''~h~'' @ ''42'')) = Some (frame_of (''~h~'' @ ''42''))"
proof -
  have "heartbeatPong ''~h~1'' = Some ''~m~4~m~~h~1''" by code_simp
  from heartbeat_reply [OF _ this, of "''42''"] show ?thesis
    by (simp add: int64_max_def)
qed

text \<open>
  Resolutions are canonical: an accepted input gives one of the thirteen wire forms,
  and normalising that form again gives it back.
\<close>

theorem normalize_canonical:
  assumes "NormalizeResolution U r = Some w"
  shows "w \<in> set wire_forms \<and> NormalizeResolution U w = Some w"
  using normalize_range [OF assms] normalize_wire by blast

theorem normalize_canonical_witness:
  "''240'' \<in> set wire_forms \<and>
   NormalizeResolution no_tables ''240'' = Some ''240''"
proof -
  have "NormalizeResolution no_tables '' 4h '' = Some ''240''"
    by code_simp
  then show ?thesis by (rule normalize_canonical)
qed

text \<open>
  Spaces around the input and its letter case do not matter, for resolutions and for
  symbols.
\<close>

theorem normalize_insensitive:
  assumes "ascii s" and "list_all is_space a" and "list_all is_space b"
  shows "NormalizeResolution U (a @ map lower_c s @ b) = NormalizeResolution U s \<and>
    NormalizeSymbol U (a @ map lower_c s @ b) = NormalizeSymbol U s"
  using canonical_input [OF assms] by (simp add: NormalizeResolution_def NormalizeSymbol_def)

theorem normalize_insensitive_witness:
  "NormalizeSymbol no_tables ('' '' @ map lower_c ''BTCUSD'' @ ''  '')
    = NormalizeSymbol no_tables ''BTCUSD''"
proof -
  have "ascii ''BTCUSD''" and "list_all is_space '' ''" and "list_all is_space ''  ''"
    by code_simp+
  then show ?thesis using normalize_insensitive by blast
qed

text \<open>
  The wire form for one month is not accepted as itself: of the resolutions listed as
  valid, exactly \<open>1D\<close>, \<open>1W\<close> and \<open>1M\<close> are rewritten, and \<open>1M\<close> becomes one minute.
\<close>

theorem valid_resolutions_rewritten:
  "filter (\<lambda>r. NormalizeResolution U r \<noteq> Some r) ValidResolutions = [''1D'', ''1W'', ''1M''] \<and>
   NormalizeResolution U ''1M'' = Some ''1'' \<and>
   NormalizeResolution U ''1D'' = Some ''D'' \<and> NormalizeResolution U ''1W'' = Some ''W''"
proof -
  have "filter (\<lambda>r. NormalizeResolution U r \<noteq> Some r) ValidResolutions =
    filter (\<lambda>r. (case friendlyToWire r of Some w \<Rightarrow> Some w | None \<Rightarrow> Some r) \<noteq> Some r) ValidResolutions"
    by (rule filter_cong) (simp_all add: normalize_valid)
  also have "\<dots> = [''1D'', ''1W'', ''1M'']" by code_simp
  finally show ?thesis
    using normalize_valid [of "''1M''" U] normalize_valid [of "''1D''" U] normalize_valid [of "''1W''" U]
    by (simp add: ValidResolutions_def friendlyToWire_def)
qed

text \<open>
  Session ids never collide within a process: ids generated at two values of the
  counter differ, whatever the prefixes and the clock readings.
\<close>

theorem session_ids_unique:
  assumes "0 \<le> m" and "m < int64_max" and "0 \<le> n" and "n < int64_max" and "m \<noteq> n"
  shows "fst (genSessionID p t m) \<noteq> fst (genSessionID q u n)"
proof
  assume "fst (genSessionID p t m) = fst (genSessionID q u n)"
  then have "(p @ ''_'' @ show_int t) @ [CHR ''_''] @ show_int (m + 1) =
      (q @ ''_'' @ show_int u) @ [CHR ''_''] @ show_int (n + 1)"
    using assms by (simp add: genSessionID_def Let_def wrap64_id int64_min_def int64_max_def)
  moreover have "CHR ''_'' \<notin> set (show_int k)" for k by (rule show_int_not_in) simp_all
  ultimately have "show_int (m + 1) = show_int (n + 1)" by (blast dest: split_at_last)
  then show False using assms(5) by (auto dest: show_int_inj)
qed

theorem session_ids_unique_witness:
  "fst (genSessionID ''cs'' 5 0) \<noteq> fst (genSessionID ''cs'' 5 1)"
  by (rule session_ids_unique) (simp_all add: int64_max_def)

text \<open>
  C22. Candle payloads round-trip: a series update that carries any list of candles (with
  times a float holds exactly) parses to exactly that list, in order.
\<close>

theorem parse_candles_roundtrip:
  assumes "k \<noteq> ''sds''" and "list_all (\<lambda>c. \<bar>c_Timestamp c\<bar> \<le> 2 ^ 53) cs"
  shows "parseCandles [(k, AMap [(''s'', AArr (map bar_any cs))])] = cs"
  using assms by (simp add: parseCandles_def lookup_any_def as_map_def parse_series_any)

theorem parse_candles_roundtrip_witness:
  "parseCandles [(''sds_1'', AMap [(''s'', AArr (map bar_any
     [\<lparr>c_Timestamp = 1700000000, c_Open = 1, c_High = 1, c_Low = 0, c_Close = 1, c_Volume = 0\<rparr>]))])]
   = [\<lparr>c_Timestamp = 1700000000, c_Open = 1, c_High = 1, c_Low = 0, c_Close = 1, c_Volume = 0\<rparr>]"
  by (rule parse_candles_roundtrip) simp_all

text \<open>
  The order in which Go ranges over a payload map cannot change which candles are
  found: for two iteration orders of one map the parsed candles are the same multiset.
\<close>

theorem parse_candles_order:
  assumes "mset p = mset q" and "distinct (map fst p)"
  shows "mset (parseCandles p) = mset (parseCandles q)"
proof -
  have "lookup_any p ''sds'' = lookup_any q ''sds''"
    using map_of_perm [OF assms] by (simp add: lookup_any_def)
  then show ?thesis
    using assms(1) by (auto simp: parseCandles_def Let_def mset_concat_map split: option.splits)
qed

theorem parse_candles_order_witness:
  "mset (parseCandles [(''a'', AMap []), (''b'', ANil)]) = mset (parseCandles [(''b'', ANil), (''a'', AMap [])])"
  by (rule parse_candles_order) simp_all

end
