(* ===== verification/Cache.thy ===== *)
theory Cache
  imports Protocol
begin

text \<open>
  \<open>cache.go\<close>: the TTL+LRU cache. \<open>container/list\<close> elements have an identity that the
  index map points to: \<open>lc_ll\<close> is the list of element identities, front first, \<open>lc_val\<close>
  their values and \<open>lc_idx\<close> the map from keys to elements. Each operation takes the clock
  reading it makes. The mutex makes every operation one step.

  \<open>spec_get\<close> and \<open>spec_put\<close> are the contract: a list of (key, data, expiry), most
  recently used first. \<open>lruGet_refines\<close> and \<open>lruPut_refines\<close> show the pointer structure
  implements it. The locale \<open>ttl_cache\<close> is what the client relies on.
\<close>

section \<open>The cache\<close>

definition makeCacheKey :: "string \<Rightarrow> string \<Rightarrow> int \<Rightarrow> string" where
  "makeCacheKey symbol resolution bars = symbol @ ''|'' @ resolution @ ''|'' @ show_int bars"

record cache_entry =
  ce_key :: string
  ce_data :: chart_data
  ce_expiresAt :: int

record lru_cache =
  lc_max :: int
  lc_ll :: "nat list"
  lc_val :: "nat \<Rightarrow> cache_entry"
  lc_idx :: "string \<rightharpoonup> nat"
  lc_next :: nat

definition no_entry :: cache_entry where
  "no_entry = \<lparr>ce_key = [], ce_data = \<lparr>cd_Symbol = [], cd_Resolution = [], cd_Candles = [],
     cd_FetchedAt = 0, cd_Cached = False, cd_LatencyMs = 0\<rparr>, ce_expiresAt = 0\<rparr>"

definition newCache :: "int \<Rightarrow> lru_cache" where
  "newCache sz = \<lparr>lc_max = sz, lc_ll = [], lc_val = (\<lambda>_. no_entry), lc_idx = Map.empty, lc_next = 0\<rparr>"

definition lruGet :: "lru_cache \<Rightarrow> string \<Rightarrow> int \<Rightarrow> chart_data option \<times> lru_cache" where
  "lruGet c k now =
     (case lc_idx c k of
        None \<Rightarrow> (None, c)
      | Some el \<Rightarrow>
          let e = lc_val c el in
          if ce_expiresAt e < now
          then (None, c\<lparr>lc_ll := remove1 el (lc_ll c), lc_idx := (lc_idx c)(k := None)\<rparr>)
          else (Some ((ce_data e)\<lparr>cd_Cached := True\<rparr>), c\<lparr>lc_ll := el # remove1 el (lc_ll c)\<rparr>))"

function evict :: "lru_cache \<Rightarrow> lru_cache" where
  "evict c =
     (if lc_max c < int (length (lc_ll c)) then
        (if lc_ll c = [] then c
         else let old = last (lc_ll c)
              in evict (c\<lparr>lc_ll := butlast (lc_ll c), lc_idx := (lc_idx c)(ce_key (lc_val c old) := None)\<rparr>))
      else c)"
  by pat_completeness auto
termination
  by (relation "measure (\<lambda>c. length (lc_ll c))") auto

declare evict.simps [simp del]

definition lruPut :: "lru_cache \<Rightarrow> string \<Rightarrow> chart_data option \<Rightarrow> int \<Rightarrow> int \<Rightarrow> lru_cache" where
  "lruPut c k dat ttl now =
     (case dat of
        None \<Rightarrow> c
      | Some d \<Rightarrow>
          if ttl \<le> 0 then c
          else (case lc_idx c k of
              Some el \<Rightarrow>
                c\<lparr>lc_val := (lc_val c)(el := (lc_val c el)\<lparr>ce_data := d, ce_expiresAt := now + ttl\<rparr>),
                  lc_ll := el # remove1 el (lc_ll c)\<rparr>
            | None \<Rightarrow>
                (let el = lc_next c;
                     e = \<lparr>ce_key = k, ce_data = d, ce_expiresAt = now + ttl\<rparr>
                 in evict (c\<lparr>lc_val := (lc_val c)(el := e), lc_idx := (lc_idx c)(k \<mapsto> el),
                             lc_ll := el # lc_ll c, lc_next := Suc el\<rparr>))))"

section \<open>The contract\<close>

type_synonym cache_spec = "(string \<times> chart_data \<times> int) list"

definition spec_drop :: "string \<Rightarrow> cache_spec \<Rightarrow> cache_spec" where
  "spec_drop k xs = filter (\<lambda>(k', _). k' \<noteq> k) xs"

definition spec_get :: "cache_spec \<Rightarrow> string \<Rightarrow> int \<Rightarrow> chart_data option \<times> cache_spec" where
  "spec_get xs k now =
     (case map_of xs k of
        None \<Rightarrow> (None, xs)
      | Some (d, x) \<Rightarrow> if x < now then (None, spec_drop k xs)
                      else (Some (d\<lparr>cd_Cached := True\<rparr>), (k, d, x) # spec_drop k xs))"

definition spec_put :: "int \<Rightarrow> cache_spec \<Rightarrow> string \<Rightarrow> chart_data \<Rightarrow> int \<Rightarrow> int \<Rightarrow> cache_spec" where
  "spec_put mx xs k d ttl now =
     (if ttl \<le> 0 then xs else take (nat mx) ((k, d, now + ttl) # spec_drop k xs))"

definition row :: "lru_cache \<Rightarrow> nat \<Rightarrow> string \<times> chart_data \<times> int" where
  "row c el = (ce_key (lc_val c el), ce_data (lc_val c el), ce_expiresAt (lc_val c el))"

definition cache_abs :: "lru_cache \<Rightarrow> cache_spec" where
  "cache_abs c = map (row c) (lc_ll c)"

text \<open>List and index describe the same entries.\<close>

definition cache_linked :: "lru_cache \<Rightarrow> bool" where
  "cache_linked c \<longleftrightarrow> distinct (lc_ll c)
     \<and> (\<forall>k el. lc_idx c k = Some el \<longleftrightarrow> el \<in> set (lc_ll c) \<and> ce_key (lc_val c el) = k)
     \<and> (\<forall>el \<in> set (lc_ll c). el < lc_next c)"

definition cache_inv :: "lru_cache \<Rightarrow> bool" where
  "cache_inv c \<longleftrightarrow> cache_linked c \<and> int (length (lc_ll c)) \<le> lc_max c"

lemma cache_inv_new: "0 \<le> sz \<Longrightarrow> cache_inv (newCache sz)"
  by (simp add: cache_inv_def cache_linked_def newCache_def)

lemma linked_idx:
  "cache_linked c \<Longrightarrow> lc_idx c k = Some el \<longleftrightarrow> el \<in> set (lc_ll c) \<and> ce_key (lc_val c el) = k"
  by (simp add: cache_linked_def)

lemma linked_inj:
  "cache_linked c \<Longrightarrow> e1 \<in> set (lc_ll c) \<Longrightarrow> e2 \<in> set (lc_ll c) \<Longrightarrow>
   ce_key (lc_val c e1) = ce_key (lc_val c e2) \<Longrightarrow> e1 = e2"
  using linked_idx [of c "ce_key (lc_val c e1)" e1] linked_idx [of c "ce_key (lc_val c e1)" e2] by simp

lemma linked_keys_distinct: "cache_linked c \<Longrightarrow> distinct (map fst (cache_abs c))"
proof -
  assume l: "cache_linked c"
  have "inj_on (\<lambda>el. ce_key (lc_val c el)) (set (lc_ll c))"
    by (rule inj_onI) (rule linked_inj [OF l])
  then show ?thesis
    using l by (simp add: cache_abs_def row_def comp_def distinct_map cache_linked_def)
qed

lemma linked_lookup:
  "cache_linked c \<Longrightarrow> map_of (cache_abs c) k =
     (case lc_idx c k of None \<Rightarrow> None | Some el \<Rightarrow> Some (snd (row c el)))"
proof (cases "lc_idx c k")
  case None
  assume l: "cache_linked c"
  have "k \<notin> fst ` set (cache_abs c)"
    using None linked_idx [OF l, of k] by (fastforce simp: cache_abs_def row_def)
  then show ?thesis using None by (simp add: map_of_eq_None_iff)
next
  case (Some el)
  assume l: "cache_linked c"
  have "(k, snd (row c el)) \<in> set (cache_abs c)"
    using Some linked_idx [OF l, of k el] by (auto simp: cache_abs_def row_def)
  then show ?thesis using Some linked_keys_distinct [OF l] by (simp add: map_of_is_SomeI)
qed

lemma linked_remove:
  assumes l: "cache_linked c" and i: "lc_idx c k = Some el"
  shows "map (row c) (remove1 el (lc_ll c)) = spec_drop k (cache_abs c)"
proof -
  have "remove1 el (lc_ll c) = filter (\<lambda>e. e \<noteq> el) (lc_ll c)"
    using l by (simp add: cache_linked_def distinct_remove1_removeAll removeAll_filter_not_eq
        eq_commute)
  also have "\<dots> = filter (\<lambda>e. ce_key (lc_val c e) \<noteq> k) (lc_ll c)"
    by (rule filter_cong) (use linked_idx [OF l, of k el] i in \<open>auto intro: linked_inj [OF l]\<close>)
  finally show ?thesis
    by (simp add: spec_drop_def cache_abs_def filter_map comp_def row_def)
qed

lemma linked_drop:
  assumes l: "cache_linked c" and i: "lc_idx c k = Some el"
  shows "cache_linked (c\<lparr>lc_ll := remove1 el (lc_ll c), lc_idx := (lc_idx c)(k := None)\<rparr>)"
proof -
  have d: "distinct (lc_ll c)" using l by (simp add: cache_linked_def)
  have "el \<in> set (lc_ll c)" "ce_key (lc_val c el) = k" using linked_idx [OF l, of k el] i by auto
  then have other: "e \<in> set (lc_ll c) \<Longrightarrow> e \<noteq> el \<Longrightarrow> ce_key (lc_val c e) \<noteq> k" for e
    using linked_inj [OF l, of e el] by auto
  show ?thesis
    using l d other \<open>ce_key (lc_val c el) = k\<close> by (auto simp: cache_linked_def)
qed

lemma linked_front:
  assumes l: "cache_linked c" and i: "lc_idx c k = Some el"
  shows "cache_linked (c\<lparr>lc_ll := el # remove1 el (lc_ll c)\<rparr>)"
    and "length (el # remove1 el (lc_ll c)) = length (lc_ll c)"
proof -
  have d: "distinct (lc_ll c)" "el \<in> set (lc_ll c)"
    using l i linked_idx [OF l] by (auto simp: cache_linked_def)
  then have s: "set (el # remove1 el (lc_ll c)) = set (lc_ll c)" "distinct (el # remove1 el (lc_ll c))"
    by auto
  show "cache_linked (c\<lparr>lc_ll := el # remove1 el (lc_ll c)\<rparr>)"
    using l s unfolding cache_linked_def by (simp del: set_simps distinct.simps)
  show "length (el # remove1 el (lc_ll c)) = length (lc_ll c)"
    using d length_pos_if_in_set [OF d(2)] by (simp add: length_remove1)
qed

section \<open>Refinement\<close>

lemma lruGet_refines:
  assumes inv: "cache_inv c"
  shows "fst (lruGet c k now) = fst (spec_get (cache_abs c) k now)"
    and "cache_abs (snd (lruGet c k now)) = snd (spec_get (cache_abs c) k now)"
    and "cache_inv (snd (lruGet c k now))"
    and "lc_max (snd (lruGet c k now)) = lc_max c"
proof -
  have l: "cache_linked c" and len: "int (length (lc_ll c)) \<le> lc_max c"
    using inv by (auto simp: cache_inv_def)
  note look = linked_lookup [OF l, of k]
  show "fst (lruGet c k now) = fst (spec_get (cache_abs c) k now)"
    using look by (auto simp: lruGet_def spec_get_def row_def Let_def split: option.splits)
  show "lc_max (snd (lruGet c k now)) = lc_max c"
    by (simp add: lruGet_def Let_def split: option.splits)
  show "cache_abs (snd (lruGet c k now)) = snd (spec_get (cache_abs c) k now)"
  proof (cases "lc_idx c k")
    case None
    then show ?thesis using look by (simp add: lruGet_def spec_get_def)
  next
    case (Some el)
    have key: "ce_key (lc_val c el) = k" using linked_idx [OF l] Some by blast
    have row: "row (c\<lparr>lc_ll := xs, lc_idx := m\<rparr>) = row c" "row (c\<lparr>lc_ll := xs\<rparr>) = row c" for xs m
      by (simp_all add: row_def fun_eq_iff)
    show ?thesis
      using look Some key linked_remove [OF l Some] row
      by (simp add: lruGet_def spec_get_def Let_def cache_abs_def) (simp add: row_def)
  qed
  show "cache_inv (snd (lruGet c k now))"
    using linked_drop [OF l, of k] linked_front [OF l, of k] l len length_remove1 [of _ "lc_ll c"]
    by (auto simp: lruGet_def cache_inv_def Let_def split: option.splits simp del: length_Cons)
qed

lemma evict_refines:
  "cache_linked c \<Longrightarrow> 0 \<le> lc_max c \<Longrightarrow>
   cache_abs (evict c) = take (nat (lc_max c)) (cache_abs c) \<and> cache_inv (evict c)
   \<and> lc_max (evict c) = lc_max c"
proof (induction c rule: evict.induct)
  case (1 c)
  show ?case
  proof (cases "lc_max c < int (length (lc_ll c))")
    case False
    then have "evict c = c" by (subst evict.simps) simp
    then show ?thesis using False "1.prems" by (simp add: cache_inv_def cache_abs_def)
  next
    case True
    then have ne: "lc_ll c \<noteq> []" using "1.prems" by auto
    define old where "old = last (lc_ll c)"
    define c' where "c' = c\<lparr>lc_ll := butlast (lc_ll c), lc_idx := (lc_idx c)(ce_key (lc_val c old) := None)\<rparr>"
    have ev: "evict c = evict c'"
      using True ne by (subst evict.simps) (simp add: Let_def old_def c'_def)
    have ll: "lc_ll c = butlast (lc_ll c) @ [old]" using ne by (simp add: old_def)
    have dist: "distinct (butlast (lc_ll c) @ [old])"
      using "1.prems"(1) ll by (simp add: cache_linked_def)
    have mem: "set (lc_ll c) = insert old (set (butlast (lc_ll c)))"
      using ll by (metis Un_insert_right empty_set list.simps(15) set_append sup_bot_right)
    have dist': "old \<notin> set (butlast (lc_ll c))" "distinct (butlast (lc_ll c))" using dist by auto
    have inj: "e \<in> set (butlast (lc_ll c)) \<Longrightarrow> ce_key (lc_val c e) \<noteq> ce_key (lc_val c old)" for e
      using linked_inj [OF "1.prems"(1), of e old] mem dist' by auto
    have "cache_linked c'"
      using "1.prems"(1) mem dist' inj by (auto simp: cache_linked_def c'_def)
    moreover have "lc_max c' = lc_max c" by (simp add: c'_def)
    ultimately have IH: "cache_abs (evict c') = take (nat (lc_max c)) (cache_abs c')
        \<and> cache_inv (evict c') \<and> lc_max (evict c') = lc_max c"
      using "1.IH" [OF True ne old_def] "1.prems"(2) by (simp add: c'_def)
    have "cache_abs c = cache_abs c' @ [row c old]"
      using arg_cong [OF ll, of "map (row c)"] by (simp add: c'_def cache_abs_def row_def [abs_def])
    moreover have "nat (lc_max c) \<le> length (cache_abs c')"
      using True by (simp add: c'_def cache_abs_def)
    ultimately show ?thesis using IH ev by simp
  qed
qed

text \<open>A put that updates an entry, and one that inserts and may evict.\<close>

lemma lruPut_update:
  assumes l: "cache_linked c" and len: "int (length (lc_ll c)) \<le> lc_max c"
    and pos: "\<not> ttl \<le> 0" and some: "lc_idx c k = Some el"
  shows "cache_abs (lruPut c k (Some d) ttl now) = spec_put (lc_max c) (cache_abs c) k d ttl now
    \<and> cache_inv (lruPut c k (Some d) ttl now) \<and> lc_max (lruPut c k (Some d) ttl now) = lc_max c"
proof -
  have el: "el \<in> set (lc_ll c)" "ce_key (lc_val c el) = k" using linked_idx [OF l] some by auto
  define c' where "c' = c\<lparr>lc_val := (lc_val c)(el := (lc_val c el)\<lparr>ce_data := d, ce_expiresAt := now + ttl\<rparr>),
              lc_ll := el # remove1 el (lc_ll c)\<rparr>"
  have put: "lruPut c k (Some d) ttl now = c'"
    using pos some by (simp add: lruPut_def c'_def)
  have "el \<notin> set (remove1 el (lc_ll c))" using l by (simp add: cache_linked_def)
  then have "map (row c') (remove1 el (lc_ll c)) = map (row c) (remove1 el (lc_ll c))"
    by (intro map_cong) (auto simp: row_def c'_def)
  then have abs: "cache_abs c' = (k, d, now + ttl) # spec_drop k (cache_abs c)"
    using linked_remove [OF l some] el by (simp add: cache_abs_def) (simp add: c'_def row_def)
  have front: "length (lc_ll c') = length (lc_ll c)"
    using linked_front(2) [OF l some] by (simp add: c'_def)
  then have "length (cache_abs c') \<le> nat (lc_max c)" using len by (simp add: cache_abs_def)
  then have "take (nat (lc_max c)) (cache_abs c') = cache_abs c'" by simp
  moreover have "cache_linked c'"
  proof -
    have keys: "ce_key (lc_val c' e) = ce_key (lc_val c e)" for e by (simp add: c'_def)
    have rest: "lc_idx c' = lc_idx c" "lc_next c' = lc_next c"
      "lc_ll c' = el # remove1 el (lc_ll c)" by (simp_all add: c'_def)
    show ?thesis
      using linked_front(1) [OF l some] by (simp add: cache_linked_def keys rest)
  qed
  ultimately show ?thesis
    using put pos abs front len by (simp add: spec_put_def cache_inv_def) (simp add: c'_def)
qed

lemma lruPut_insert:
  assumes l: "cache_linked c" and len: "int (length (lc_ll c)) \<le> lc_max c"
    and pos: "\<not> ttl \<le> 0" and none: "lc_idx c k = None"
  shows "cache_abs (lruPut c k (Some d) ttl now) = spec_put (lc_max c) (cache_abs c) k d ttl now
    \<and> cache_inv (lruPut c k (Some d) ttl now) \<and> lc_max (lruPut c k (Some d) ttl now) = lc_max c"
proof -
  define el where "el = lc_next c"
  define c' where "c' = c\<lparr>lc_val := (lc_val c)(el := \<lparr>ce_key = k, ce_data = d, ce_expiresAt = now + ttl\<rparr>),
      lc_idx := (lc_idx c)(k \<mapsto> el), lc_ll := el # lc_ll c, lc_next := Suc el\<rparr>"
  have put: "lruPut c k (Some d) ttl now = evict c'"
    using pos none by (simp add: lruPut_def c'_def el_def Let_def)
  have fresh: "el \<notin> set (lc_ll c)" "\<forall>e \<in> set (lc_ll c). e < el"
    using l by (auto simp: cache_linked_def el_def)
  have other: "e \<in> set (lc_ll c) \<Longrightarrow> ce_key (lc_val c e) \<noteq> k" for e
    using none linked_idx [OF l, of k e] by auto
  have "cache_linked c'"
    using l fresh other by (auto simp: cache_linked_def c'_def)
  moreover have "lc_max c' = lc_max c" "0 \<le> lc_max c" using len by (auto simp: c'_def)
  ultimately have ev: "cache_abs (evict c') = take (nat (lc_max c)) (cache_abs c') \<and> cache_inv (evict c')
      \<and> lc_max (evict c') = lc_max c"
    using evict_refines [of c'] by simp
  have "map (row c') (lc_ll c) = map (row c) (lc_ll c)"
    using fresh by (intro map_cong) (auto simp: row_def c'_def)
  then have "cache_abs c' = (k, d, now + ttl) # cache_abs c"
    by (simp add: cache_abs_def) (simp add: c'_def row_def)
  moreover have "spec_drop k (cache_abs c) = cache_abs c"
    using other by (auto simp: spec_drop_def cache_abs_def row_def filter_id_conv)
  ultimately show ?thesis using put ev pos by (simp add: spec_put_def)
qed

lemma lruPut_refines:
  assumes inv: "cache_inv c"
  shows "cache_abs (lruPut c k (Some d) ttl now) = spec_put (lc_max c) (cache_abs c) k d ttl now"
    and "cache_inv (lruPut c k (Some d) ttl now)"
    and "lc_max (lruPut c k (Some d) ttl now) = lc_max c"
proof -
  have l: "cache_linked c" "int (length (lc_ll c)) \<le> lc_max c"
    using inv by (auto simp: cache_inv_def)
  have "cache_abs (lruPut c k (Some d) ttl now) = spec_put (lc_max c) (cache_abs c) k d ttl now
    \<and> cache_inv (lruPut c k (Some d) ttl now) \<and> lc_max (lruPut c k (Some d) ttl now) = lc_max c"
  proof (cases "ttl \<le> 0")
    case True
    then show ?thesis using inv by (simp add: lruPut_def spec_put_def)
  next
    case False
    then show ?thesis using lruPut_update [OF l] lruPut_insert [OF l] by (cases "lc_idx c k") blast+
  qed
  then show "cache_abs (lruPut c k (Some d) ttl now) = spec_put (lc_max c) (cache_abs c) k d ttl now"
    "cache_inv (lruPut c k (Some d) ttl now)" "lc_max (lruPut c k (Some d) ttl now) = lc_max c" by auto
qed

section \<open>What the client relies on\<close>

text \<open>
  The interface of a TTL cache: \<open>view\<close> gives the value and expiry stored under a key. A
  cache may drop entries at any time, but what it holds under a key is what the last
  effective \<open>put\<close> under that key stored.
\<close>

locale ttl_cache =
  fixes get :: "'s \<Rightarrow> 'k \<Rightarrow> int \<Rightarrow> 'v option \<times> 's"
    and put :: "'s \<Rightarrow> 'k \<Rightarrow> 'v \<Rightarrow> int \<Rightarrow> int \<Rightarrow> 's"
    and view :: "'s \<Rightarrow> 'k \<Rightarrow> ('v \<times> int) option"
    and inv :: "'s \<Rightarrow> bool"
    and mark :: "'v \<Rightarrow> 'v"
  assumes get_inv: "inv s \<Longrightarrow> inv (snd (get s k now))"
    and put_inv: "inv s \<Longrightarrow> inv (put s k v ttl now)"
    and get_result: "inv s \<Longrightarrow> fst (get s k now) =
      (case view s k of None \<Rightarrow> None | Some (v, x) \<Rightarrow> if x < now then None else Some (mark v))"
    and get_view: "inv s \<Longrightarrow> view (snd (get s k now)) k' = Some p \<Longrightarrow> view s k' = Some p"
    and put_view: "inv s \<Longrightarrow> view (put s k v ttl now) k' = Some p \<Longrightarrow>
      (if k' = k \<and> 0 < ttl then p = (v, now + ttl) else view s k' = Some p)"
begin

fun last_put :: "('k \<times> 'v \<times> int \<times> int + 'k \<times> int) list \<Rightarrow> 'k \<Rightarrow> ('v \<times> int) option \<Rightarrow> ('v \<times> int) option" where
  "last_put [] k p = p"
| "last_put (Inl (k', v, ttl, now) # os) k p =
     last_put os k (if k' = k \<and> 0 < ttl then Some (v, now + ttl) else p)"
| "last_put (Inr _ # os) k p = last_put os k p"

fun run :: "'s \<Rightarrow> ('k \<times> 'v \<times> int \<times> int + 'k \<times> int) list \<Rightarrow> 's" where
  "run s [] = s"
| "run s (Inl (k, v, ttl, now) # os) = run (put s k v ttl now) os"
| "run s (Inr (k, now) # os) = run (snd (get s k now)) os"

lemma run_inv: "inv s \<Longrightarrow> inv (run s os)"
  by (induction s os rule: run.induct) (auto simp: get_inv put_inv)

lemma run_view:
  "inv s \<Longrightarrow> (\<And>q. view s k = Some q \<Longrightarrow> p = Some q) \<Longrightarrow> view (run s os) k = Some q
   \<Longrightarrow> last_put os k p = Some q"
proof (induction s os arbitrary: p rule: run.induct)
  case (2 s k' v ttl now os)
  show ?case
    by (simp only: last_put.simps, rule "2.IH") (use "2.prems" put_inv put_view [OF "2.prems"(1), of k' v ttl now k] in
        \<open>auto split: if_splits\<close>)
next
  case (3 s k' now os)
  show ?case
    by (simp only: last_put.simps, rule "3.IH") (use "3.prems" get_inv get_view [OF "3.prems"(1)] in auto)
qed simp

lemma hit_is_last_put:
  assumes "inv s" "view s k = None" "fst (get (run s os) k now) = Some v"
  shows "\<exists>v0 x. last_put os k None = Some (v0, x) \<and> now \<le> x \<and> v = mark v0"
proof -
  from assms(3) obtain v0 x where q: "view (run s os) k = Some (v0, x)" "now \<le> x" "v = mark v0"
    using get_result [OF run_inv [OF assms(1)]] by (auto split: option.splits if_splits)
  then show ?thesis using run_view [OF assms(1) _ q(1), of None] assms(2) by auto
qed

end

definition cache_view :: "lru_cache \<Rightarrow> string \<Rightarrow> (chart_data \<times> int) option" where
  "cache_view c k = map_of (cache_abs c) k"

definition mark_cached :: "chart_data \<Rightarrow> chart_data" where
  "mark_cached d = d\<lparr>cd_Cached := True\<rparr>"

abbreviation lru_store :: "lru_cache \<Rightarrow> string \<Rightarrow> chart_data \<Rightarrow> int \<Rightarrow> int \<Rightarrow> lru_cache" where
  "lru_store c k d ttl now \<equiv> lruPut c k (Some d) ttl now"

lemma map_of_spec_drop: "map_of (spec_drop k xs) k' = (if k' = k then None else map_of xs k')"
  by (induction xs) (auto simp: spec_drop_def)

lemma map_of_take: "map_of (take n xs) k = Some p \<Longrightarrow> map_of xs k = Some p"
  by (metis append_take_drop_id map_add_Some_iff map_of_append)

lemma spec_get_view: "map_of (snd (spec_get xs k now)) k' = Some p \<Longrightarrow> map_of xs k' = Some p"
  by (auto simp: spec_get_def map_of_spec_drop split: option.splits if_splits)

lemma spec_put_view:
  "map_of (spec_put mx xs k v ttl now) k' = Some p \<Longrightarrow>
   (if k' = k \<and> 0 < ttl then p = (v, now + ttl) else map_of xs k' = Some p)"
  by (auto simp: spec_put_def map_of_spec_drop dest!: map_of_take split: if_splits)

interpretation lru: ttl_cache lruGet lru_store cache_view cache_inv mark_cached
proof unfold_locales
  fix s k now k' p v ttl
  assume inv: "cache_inv s"
  note g = lruGet_refines [OF inv] and w = lruPut_refines [OF inv]
  show "cache_inv (snd (lruGet s k now))" by (rule g)
  show "cache_inv (lru_store s k v ttl now)" by (rule w)
  show "fst (lruGet s k now) = (case cache_view s k of None \<Rightarrow> None
      | Some (v, x) \<Rightarrow> if x < now then None else Some (mark_cached v))"
    by (auto simp: g(1) spec_get_def cache_view_def mark_cached_def split: option.splits)
  show "cache_view s k' = Some p" if "cache_view (snd (lruGet s k now)) k' = Some p"
    using that by (auto simp: cache_view_def g(2) dest: spec_get_view)
  show "if k' = k \<and> 0 < ttl then p = (v, now + ttl) else cache_view s k' = Some p"
    if "cache_view (lru_store s k v ttl now) k' = Some p"
    using that unfolding cache_view_def w(1) by (rule spec_put_view)
qed

section \<open>Sequences of operations\<close>

datatype cache_op = CGet string int | CPut string chart_data int int

fun cache_step :: "lru_cache \<Rightarrow> cache_op \<Rightarrow> chart_data option \<times> lru_cache" where
  "cache_step c (CGet k now) = lruGet c k now"
| "cache_step c (CPut k d ttl now) = (None, lruPut c k (Some d) ttl now)"

fun spec_step :: "int \<Rightarrow> cache_spec \<Rightarrow> cache_op \<Rightarrow> chart_data option \<times> cache_spec" where
  "spec_step mx xs (CGet k now) = spec_get xs k now"
| "spec_step mx xs (CPut k d ttl now) = (None, spec_put mx xs k d ttl now)"

fun cache_run :: "lru_cache \<Rightarrow> cache_op list \<Rightarrow> chart_data option list \<times> lru_cache" where
  "cache_run c [] = ([], c)"
| "cache_run c (a # as) =
     (let (r, c1) = cache_step c a; (rs, c2) = cache_run c1 as in (r # rs, c2))"

fun spec_run :: "int \<Rightarrow> cache_spec \<Rightarrow> cache_op list \<Rightarrow> chart_data option list \<times> cache_spec" where
  "spec_run mx xs [] = ([], xs)"
| "spec_run mx xs (a # as) =
     (let (r, x1) = spec_step mx xs a; (rs, x2) = spec_run mx x1 as in (r # rs, x2))"

lemma cache_step_refines:
  assumes "cache_inv c"
  shows "fst (cache_step c a) = fst (spec_step (lc_max c) (cache_abs c) a)"
    and "cache_abs (snd (cache_step c a)) = snd (spec_step (lc_max c) (cache_abs c) a)"
    and "cache_inv (snd (cache_step c a))" and "lc_max (snd (cache_step c a)) = lc_max c"
  using lruGet_refines [OF assms] lruPut_refines [OF assms] by (cases a; simp)+

lemma cache_run_refines:
  "cache_inv c \<Longrightarrow> fst (cache_run c as) = fst (spec_run (lc_max c) (cache_abs c) as)
     \<and> cache_abs (snd (cache_run c as)) = snd (spec_run (lc_max c) (cache_abs c) as)
     \<and> cache_inv (snd (cache_run c as)) \<and> lc_max (snd (cache_run c as)) = lc_max c"
proof (induction as arbitrary: c)
  case (Cons a as)
  note s = cache_step_refines [OF Cons.prems, of a]
  show ?case using Cons.IH [OF s(3)] s by (simp add: case_prod_unfold Let_def)
qed simp

fun last_stored :: "string \<Rightarrow> cache_op list \<Rightarrow> (chart_data \<times> int) option \<Rightarrow> (chart_data \<times> int) option" where
  "last_stored k [] p = p"
| "last_stored k (CPut k' d ttl now # as) p =
     last_stored k as (if k' = k \<and> 0 < ttl then Some (d, now + ttl) else p)"
| "last_stored k (CGet _ _ # as) p = last_stored k as p"

fun as_lru_op :: "cache_op \<Rightarrow> string \<times> chart_data \<times> int \<times> int + string \<times> int" where
  "as_lru_op (CPut k d ttl now) = Inl (k, d, ttl, now)"
| "as_lru_op (CGet k now) = Inr (k, now)"

lemma lru_run_ops: "lru.run c (map as_lru_op as) = snd (cache_run c as)"
proof (induction as arbitrary: c)
  case (Cons a as)
  then show ?case by (cases a) (simp_all add: Let_def case_prod_unfold)
qed simp

lemma lru_last_put_ops: "lru.last_put (map as_lru_op as) k p = last_stored k as p"
  by (induction k as p rule: last_stored.induct) simp_all

text \<open>An entry survives while fewer than \<open>max\<close> other keys are touched.\<close>

fun op_key :: "cache_op \<Rightarrow> string" where
  "op_key (CGet k now) = k"
| "op_key (CPut k d ttl now) = k"

definition near_front :: "string \<Rightarrow> chart_data \<times> int \<Rightarrow> string set \<Rightarrow> cache_spec \<Rightarrow> bool" where
  "near_front k p T xs \<longleftrightarrow>
     (\<exists>us vs. xs = us @ (k, p) # vs \<and> fst ` set us \<subseteq> T \<and> distinct (map fst us))"

lemma near_front_drop: "near_front k p T xs \<Longrightarrow> k' \<noteq> k \<Longrightarrow> near_front k p T (spec_drop k' xs)"
proof -
  assume "near_front k p T xs" "k' \<noteq> k"
  then obtain us vs where x: "xs = us @ (k, p) # vs" "fst ` set us \<subseteq> T" "distinct (map fst us)"
    by (auto simp: near_front_def)
  have "map fst (spec_drop k' us) = filter (\<lambda>a. a \<noteq> k') (map fst us)"
    by (simp add: spec_drop_def filter_map comp_def case_prod_unfold)
  then have "distinct (map fst (spec_drop k' us))" using x(3) by simp
  moreover have "fst ` set (spec_drop k' us) \<subseteq> T" using x(2) by (auto simp: spec_drop_def)
  moreover have "spec_drop k' xs = spec_drop k' us @ (k, p) # spec_drop k' vs"
    using x(1) \<open>k' \<noteq> k\<close> by (cases p) (simp add: spec_drop_def)
  ultimately show ?thesis unfolding near_front_def by blast
qed

lemma near_front_push:
  "near_front k p T xs \<Longrightarrow> k' \<noteq> k \<Longrightarrow> k' \<in> T \<Longrightarrow> near_front k p T ((k', q) # spec_drop k' xs)"
proof -
  assume n: "near_front k p T xs" and k: "k' \<noteq> k" "k' \<in> T"
  from near_front_drop [OF n k(1)] obtain us vs where x: "spec_drop k' xs = us @ (k, p) # vs"
      "fst ` set us \<subseteq> T" "distinct (map fst us)"
    by (auto simp: near_front_def)
  have "set us \<subseteq> set (spec_drop k' xs)" using x(1) by auto
  then have "k' \<notin> fst ` set us" by (auto simp: spec_drop_def)
  then show ?thesis
    unfolding near_front_def using x k(2) by (intro exI [of _ "(k', q) # us"] exI [of _ vs]) auto
qed

lemma near_front_take:
  assumes "near_front k p T xs" "finite T" "int (card T) < mx"
  shows "near_front k p T (take (nat mx) xs)"
proof -
  from assms(1) obtain us vs where x: "xs = us @ (k, p) # vs" "fst ` set us \<subseteq> T" "distinct (map fst us)"
    by (auto simp: near_front_def)
  have "length us = card (fst ` set us)"
    using distinct_card [OF x(3)] by simp
  also have "\<dots> \<le> card T" using assms(2) x(2) by (rule card_mono)
  finally have "length us < nat mx" using assms(3) by simp
  then obtain n where "nat mx = length us + Suc n" using less_imp_Suc_add by auto
  then have "take (nat mx) xs = us @ (k, p) # take n vs" using x(1) by simp
  then show ?thesis unfolding near_front_def using x(2,3) by blast
qed

lemma near_front_step:
  assumes "near_front k p T xs" "finite T" "int (card T) < mx" "op_key a \<in> T" "k \<notin> T"
  shows "near_front k p T (snd (spec_step mx xs a))"
proof (cases a)
  case (CGet k' now)
  then show ?thesis
    using near_front_push [OF assms(1), of k'] near_front_drop [OF assms(1), of k'] assms
    by (auto simp: spec_get_def split: option.splits)
next
  case (CPut k' d ttl now)
  then show ?thesis
    using near_front_take [OF near_front_push [OF assms(1), of k'] assms(2,3)] assms
    by (auto simp: spec_put_def)
qed

lemma near_front_run:
  "near_front k p T xs \<Longrightarrow> finite T \<Longrightarrow> int (card T) < mx \<Longrightarrow> op_key ` set as \<subseteq> T \<Longrightarrow> k \<notin> T \<Longrightarrow>
   near_front k p T (snd (spec_run mx xs as))"
  by (induction as arbitrary: xs) (auto simp: Let_def case_prod_unfold near_front_step)

lemma near_front_lookup: "near_front k p T xs \<Longrightarrow> k \<notin> T \<Longrightarrow> map_of xs k = Some p"
proof -
  assume "near_front k p T xs" "k \<notin> T"
  then obtain us vs where x: "xs = us @ (k, p) # vs" "fst ` set us \<subseteq> T" by (auto simp: near_front_def)
  then have "map_of us k = None" using \<open>k \<notin> T\<close> by (auto simp: map_of_eq_None_iff)
  then show ?thesis using x by (simp add: map_add_def)
qed

lemma makeCacheKey_inj:
  assumes "makeCacheKey s r n = makeCacheKey s' r' n'" and "r \<in> set wire_forms" and "r' \<in> set wire_forms"
  shows "s = s' \<and> r = r' \<and> n = n'"
proof -
  have nobar: "CHR ''|'' \<notin> set r" "CHR ''|'' \<notin> set r'"
    using assms(2,3) wire_forms_no_bar by blast+
  have num: "CHR ''|'' \<notin> set (show_int m)" for m
    by (rule show_int_not_in) (simp_all add: is_digit_def byte_def)
  have "(s @ ''|'' @ r) @ [CHR ''|''] @ show_int n = (s' @ ''|'' @ r') @ [CHR ''|''] @ show_int n'"
    using assms(1) by (simp add: makeCacheKey_def)
  from split_at_last [OF this num num] have "s @ [CHR ''|''] @ r = s' @ [CHR ''|''] @ r'" "n = n'"
    by (auto dest: show_int_inj)
  then show ?thesis using split_at_last [OF _ nobar] by blast
qed

section \<open>Properties\<close>

text \<open>
  C2. A fresh cache of size \<open>sz\<close> answers every sequence of lookups and stores exactly as
  the reference LRU list does: same hits and misses, same remaining entries. It never
  holds more than \<open>sz\<close> entries, and its list and its index stay in step.
\<close>
theorem cache_refines_lru:
  assumes "0 \<le> sz"
  shows "fst (cache_run (newCache sz) as) = fst (spec_run sz [] as)
     \<and> cache_abs (snd (cache_run (newCache sz) as)) = snd (spec_run sz [] as)
     \<and> cache_inv (snd (cache_run (newCache sz) as))
     \<and> int (length (lc_ll (snd (cache_run (newCache sz) as)))) \<le> sz"
proof -
  have new: "cache_abs (newCache sz) = []" "lc_max (newCache sz) = sz"
    by (simp_all add: cache_abs_def newCache_def)
  show ?thesis
    using cache_run_refines [OF cache_inv_new [OF assms], of as] by (simp add: new cache_inv_def)
qed

definition sample_data :: "int \<Rightarrow> chart_data" where
  "sample_data n = \<lparr>cd_Symbol = ''A'', cd_Resolution = ''5'', cd_Candles = [], cd_FetchedAt = n,
     cd_Cached = False, cd_LatencyMs = 0\<rparr>"

theorem cache_refines_lru_witness:
  "fst (cache_run (newCache 1) [CPut ''a'' (sample_data 1) 5 0, CPut ''b'' (sample_data 2) 5 0, CGet ''a'' 1])
   = [None, None, None]"
  using cache_refines_lru [of 1 "[CPut ''a'' (sample_data 1) 5 0, CPut ''b'' (sample_data 2) 5 0, CGet ''a'' 1]"]
  by (simp add: spec_put_def spec_get_def spec_drop_def)

text \<open>
  C23. Whatever the history, a hit returns the data of the last effective store under that
  key (one with a positive lifetime), not yet expired at the time of the lookup, with only
  its \<open>Cached\<close> flag set: never another key's data, an overwritten value or an
  expired one.
\<close>
theorem cache_hit_is_fresh:
  assumes "0 \<le> sz" and "fst (lruGet (snd (cache_run (newCache sz) as)) k now) = Some d"
  shows "\<exists>d0 x. last_stored k as None = Some (d0, x) \<and> now \<le> x \<and> d = d0\<lparr>cd_Cached := True\<rparr>"
proof -
  have empty: "cache_view (newCache sz) k = None" by (simp add: cache_view_def cache_abs_def newCache_def)
  show ?thesis
    using lru.hit_is_last_put [OF cache_inv_new [OF assms(1)] empty, of "map as_lru_op as" now d] assms(2)
    by (simp add: lru_run_ops lru_last_put_ops mark_cached_def)
qed

theorem cache_hit_is_fresh_witness:
  "\<exists>d0 x. last_stored ''a'' [CPut ''a'' (sample_data 1) 5 0, CPut ''a'' (sample_data 2) 5 1] None = Some (d0, x)
     \<and> 4 \<le> x \<and> (sample_data 2)\<lparr>cd_Cached := True\<rparr> = d0\<lparr>cd_Cached := True\<rparr>"
  by (rule cache_hit_is_fresh [of 3]) (simp_all add: newCache_def lruGet_def lruPut_def evict.simps Let_def)

text \<open>
  C35. The cache keeps what it promises to keep: an entry stored with a positive lifetime is
  still returned by a lookup before its expiry as long as the operations in between touch
  other keys only, and fewer of them than the cache has places.
\<close>
theorem cache_keeps_recent:
  assumes "cache_inv c" and "0 < ttl" and "k \<notin> op_key ` set as"
    and "int (card (op_key ` set as)) < lc_max c" and "now \<le> t + ttl"
  shows "fst (lruGet (snd (cache_run (lruPut c k (Some d) ttl t) as)) k now) = Some (d\<lparr>cd_Cached := True\<rparr>)"
proof -
  let ?c = "lruPut c k (Some d) ttl t"
  note w = lruPut_refines [OF assms(1), of k d ttl t]
  note r = cache_run_refines [OF w(2), of as]
  have "near_front k (d, t + ttl) (op_key ` set as) ((k, d, t + ttl) # spec_drop k (cache_abs c))"
    unfolding near_front_def by (intro exI [of _ "[]"] exI [of _ "spec_drop k (cache_abs c)"]) simp
  then have "near_front k (d, t + ttl) (op_key ` set as) (cache_abs ?c)"
    using near_front_take assms(2,4) w(1) by (simp add: spec_put_def)
  then have "near_front k (d, t + ttl) (op_key ` set as) (cache_abs (snd (cache_run ?c as)))"
    using near_front_run [of k "(d, t + ttl)" "op_key ` set as" "cache_abs ?c" "lc_max c" as] r w(3) assms(3,4)
    by simp
  then have "map_of (cache_abs (snd (cache_run ?c as))) k = Some (d, t + ttl)"
    using near_front_lookup assms(3) by blast
  then show ?thesis
    using lruGet_refines(1) [of "snd (cache_run ?c as)" k now] r assms(5) by (simp add: spec_get_def)
qed

theorem cache_keeps_recent_witness:
  "fst (lruGet (snd (cache_run (lruPut (newCache 2) ''a'' (Some (sample_data 1)) 5 0)
     [CPut ''b'' (sample_data 2) 5 0, CGet ''b'' 1])) ''a'' 3) = Some ((sample_data 1)\<lparr>cd_Cached := True\<rparr>)"
  by (rule cache_keeps_recent) (simp_all add: cache_inv_new, simp add: newCache_def)

text \<open>
  Cache keys do not collide: for resolutions that \<open>NormalizeResolution\<close> returns, the
  keys of two requests are equal only if symbol, resolution and bar count are, even when
  the symbol contains the separator.
\<close>
theorem cache_key_injective:
  assumes "NormalizeResolution U r0 = Some r" and "NormalizeResolution U r0' = Some r'"
    and "makeCacheKey s r n = makeCacheKey s' r' n'"
  shows "s = s' \<and> r = r' \<and> n = n'"
  by (rule makeCacheKey_inj [OF assms(3) normalize_range [OF assms(1)] normalize_range [OF assms(2)]])

theorem cache_key_injective_witness: "''BTC|1'' = ''BTC|1'' \<and> ''5'' = ''5'' \<and> (300::int) = 300"
  by (rule cache_key_injective [of no_tables "''5''" _ "''5''"])
     (simp_all add: normalize_wire wire_forms_def)

end
