(* ===== verification/Conn.thy ===== *)
theory Conn
  imports Protocol
begin

text \<open>
  \<open>conn.go\<close>: one authenticated WebSocket connection. The WebSocket library, the network
  and the clock are inputs: a \<open>writer\<close> gives the error, if any, of the n-th
  \<open>WriteMessage\<close> on the connection; an \<open>attempt\<close> gives what one dial attempt meets; a list of \<open>tick\<close>s
  gives what each iteration of the read loop observes (the clock, the context, the result
  of \<open>ReadMessage\<close>). A finished list means the loop is still waiting: \<open>Waiting\<close> is that
  value, so returning is a fact to prove. \<open>Panicked\<close> is a run-time panic.

  A connection records the frames written to it, in order, and whether it was closed.
\<close>

datatype 'a outcome = Waiting | Panicked | Done 'a

record conn =
  cn_sent :: "string list"
  cn_closed :: bool

type_synonym writer = "nat \<Rightarrow> string option"

definition fresh_conn :: conn where
  "fresh_conn = \<lparr>cn_sent = [], cn_closed = False\<rparr>"

definition ws_write :: "writer \<Rightarrow> conn \<Rightarrow> string \<Rightarrow> string option \<times> conn" where
  "ws_write w c frame = (w (length (cn_sent c)), c\<lparr>cn_sent := cn_sent c @ [frame]\<rparr>)"

text \<open>\<open>send\<close>; encoding a message of strings and ints cannot fail.\<close>

definition send :: "writer \<Rightarrow> conn \<Rightarrow> tv_message \<Rightarrow> string option \<times> conn" where
  "send w c msg = ws_write w c (encodeFrame msg)"

text \<open>\<open>close\<close> on a possibly nil connection.\<close>

definition close :: "conn option \<Rightarrow> conn option" where
  "close c = (case c of None \<Rightarrow> None | Some x \<Rightarrow> Some (x\<lparr>cn_closed := True\<rparr>))"

definition truncateStr :: "string \<Rightarrow> int \<Rightarrow> string go" where
  "truncateStr s n = (if int (length s) \<le> n then Some s else map_option (\<lambda>t. t @ ''...'') (go_upto s n))"

section \<open>Dialing\<close>

record ws_request =
  rq_Scheme :: string
  rq_Host :: string
  rq_Path :: string
  rq_RawQuery :: string
  rq_HandshakeTimeout :: int
  rq_Origin :: string
  rq_UserAgent :: string

record attempt =
  at_cancel :: "string option"
  at_rand :: int
  at_dial :: "ws_request \<Rightarrow> string option"
  at_now :: int
  at_deadline :: "int option"
  at_hello :: "int \<Rightarrow> string + string"
  at_write :: writer

text \<open>What a dial does besides its result: sleeps, opened and closed sockets.\<close>

datatype dial_event = Slept int | Opened | Closed

text \<open>The verb \<open>%.80s\<close> cuts after 80 runes.\<close>

fun take_runes :: "nat \<Rightarrow> string \<Rightarrow> string" where
  "take_runes 0 s = []"
| "take_runes (Suc n) s =
     (if s = [] then [] else let k = snd (decode_rune s) in take k s @ take_runes n (drop k s))"

text \<open>
  The read of the server hello has the context's deadline, or else the handshake timeout
  from now: \<open>at_hello\<close> is what \<open>ReadMessage\<close> gives under that read deadline.
\<close>

definition auth_deadline :: "config \<Rightarrow> attempt \<Rightarrow> int" where
  "auth_deadline cfg a =
     (case at_deadline a of Some dl \<Rightarrow> dl | None \<Rightarrow> at_now a + cfg_HandshakeTimeout cfg)"

definition authenticate :: "config \<Rightarrow> attempt \<Rightarrow> conn \<Rightarrow> tv_error option \<times> conn" where
  "authenticate cfg a c =
     (case at_hello a (auth_deadline cfg a) of
        Inl e \<Rightarrow> (Some (newErr CodeUpstreamProtocol ''read hello'' (Some e)), c)
      | Inr h \<Rightarrow>
          if index h ''~m~'' = None
          then (Some (newErr CodeUpstreamProtocol (''unexpected hello: '' @ take_runes 80 h) None), c)
          else (case send (at_write a) c \<lparr>tm_Method = ''set_auth_token'', tm_Params = [PStr (cfg_AuthToken cfg)]\<rparr> of
              (Some e, c') \<Rightarrow> (Some (newErr CodeUpstreamProtocol ''send auth'' (Some e)), c')
            | (None, c') \<Rightarrow> (None, c')))"

definition chart_request :: "config \<Rightarrow> ws_request" where
  "chart_request cfg = \<lparr>rq_Scheme = ''wss'', rq_Host = cfg_Host cfg, rq_Path = ''/socket.io/websocket'',
     rq_RawQuery = ''type=chart'', rq_HandshakeTimeout = cfg_HandshakeTimeout cfg,
     rq_Origin = ''https://www.tradingview.com'', rq_UserAgent = cfg_UserAgent cfg\<rparr>"

text \<open>The results of \<open>dialOnce\<close> and \<open>dial\<close> are Go's pair: a connection or nil, an error or nil.\<close>

definition dialOnce :: "config \<Rightarrow> attempt \<Rightarrow> (conn option \<times> tv_error option) \<times> dial_event list" where
  "dialOnce cfg a =
     (case at_dial a (chart_request cfg) of
        Some e \<Rightarrow> ((None, Some (newErr CodeUpstreamHTTP ''websocket dial failed'' (Some e))), [])
      | None \<Rightarrow>
          (case authenticate cfg a fresh_conn of
             (Some err, _) \<Rightarrow> ((None, Some err), [Opened, Closed])
           | (None, c) \<Rightarrow> ((Some c, None), [Opened])))"

definition dialMaxAttempts :: nat where
  "dialMaxAttempts = 3"

definition millisecond :: int where
  "millisecond = 1000000"

function dial_from :: "config \<Rightarrow> (nat \<Rightarrow> attempt) \<Rightarrow> nat \<Rightarrow> tv_error option
    \<Rightarrow> (conn option \<times> tv_error option) \<times> dial_event list" where
  "dial_from cfg as n lastErr =
     (if \<not> n < dialMaxAttempts then ((None, lastErr), [])
      else
        let a = as n;
            wait = (if 0 < n then [Slept ((50 + at_rand a) * millisecond * int n)] else []) in
        if 0 < n \<and> at_cancel a \<noteq> None
        then ((None, Some (newErr CodeUpstreamTimeout ''dial canceled'' (at_cancel a))), [])
        else (case dialOnce cfg a of
            ((Some c, _), ev) \<Rightarrow> ((Some c, None), wait @ ev)
          | ((None, err), ev) \<Rightarrow>
              (let (r, ev') = dial_from cfg as (Suc n) err in (r, wait @ ev @ ev'))))"
  by pat_completeness auto
termination
  by (relation "measure (\<lambda>(cfg, as, n, e). dialMaxAttempts - n)") auto

declare dial_from.simps [simp del]

definition dial :: "config \<Rightarrow> (nat \<Rightarrow> attempt) \<Rightarrow> (conn option \<times> tv_error option) \<times> dial_event list" where
  "dial cfg as = dial_from cfg as 0 None"

section \<open>Fetching a series\<close>

record tick =
  tk_now :: int
  tk_ctx :: "string option"
  tk_read :: "string + string"

record fetch_io =
  fi_chart :: "int \<times> int"
  fi_series :: "int \<times> int"
  fi_now :: int
  fi_deadline :: "int option"
  fi_write :: writer
  fi_ticks :: "tick list"

definition frame_result :: "string \<Rightarrow> (tv_error + candle list) option go" where
  "frame_result frame =
     (case unmarshal_map frame of
        None \<Rightarrow> Some None
      | Some env \<Rightarrow>
          let mtd = (case as_str (lookup_any env ''m'') of Some m \<Rightarrow> m | None \<Rightarrow> []) in
          if mtd = ''symbol_error'' \<or> mtd = ''series_error'' \<or> mtd = ''critical_error''
          then map_option (\<lambda>t. Some (Inl (newErr CodeSymbolUnknown (mtd @ '': '' @ t) None)))
                 (truncateStr frame 200)
          else if mtd \<noteq> ''du'' \<and> mtd \<noteq> ''timescale_update'' then Some None
          else
            let params = (case as_arr (lookup_any env ''p'') of Some p \<Rightarrow> p | None \<Rightarrow> []) in
            if length params < 2 then Some None
            else
              let payload = (case as_map (params ! 1) of Some p \<Rightarrow> p | None \<Rightarrow> []);
                  candles = parseCandles payload in
              if candles \<noteq> [] then Some (Some (Inr candles)) else Some None)"

fun first_result :: "string list \<Rightarrow> (tv_error + candle list) option go" where
  "first_result [] = Some None"
| "first_result (f # fs) =
     (case frame_result f of
        None \<Rightarrow> None
      | Some (Some r) \<Rightarrow> Some (Some r)
      | Some None \<Rightarrow> first_result fs)"

fun fetch_loop :: "writer \<Rightarrow> int \<Rightarrow> tick list \<Rightarrow> conn \<Rightarrow> (tv_error + candle list) outcome \<times> conn" where
  "fetch_loop w deadline [] c = (Waiting, c)"
| "fetch_loop w deadline (t # ts) c =
     (if \<not> tk_now t < deadline
      then (Done (Inl (newErr CodeUpstreamTimeout ''no candle data within fetch timeout'' None)), c)
      else case tk_ctx t of
        Some e \<Rightarrow> (Done (Inl (newErr CodeUpstreamTimeout ''context canceled'' (Some e))), c)
      | None \<Rightarrow>
        (case tk_read t of
           Inl e \<Rightarrow> (Done (Inl (newErr CodeUpstreamProtocol ''read'' (Some e))), c)
         | Inr raw \<Rightarrow>
           (case heartbeatPong raw of
              Some pong \<Rightarrow>
                (case ws_write w c pong of
                   (Some e, c') \<Rightarrow> (Done (Inl (newErr CodeUpstreamProtocol ''pong'' (Some e))), c')
                 | (None, c') \<Rightarrow> fetch_loop w deadline ts c')
            | None \<Rightarrow>
                (case decodeFrames raw of
                   None \<Rightarrow> (Panicked, c)
                 | Some frames \<Rightarrow>
                     (case first_result frames of
                        None \<Rightarrow> (Panicked, c)
                      | Some (Some r) \<Rightarrow> (Done r, c)
                      | Some None \<Rightarrow> fetch_loop w deadline ts c)))))"

definition msg_create :: "string \<Rightarrow> tv_message" where
  "msg_create chart = \<lparr>tm_Method = ''chart_create_session'', tm_Params = [PStr chart, PStr '''']\<rparr>"

definition msg_resolve :: "string \<Rightarrow> string \<Rightarrow> tv_message" where
  "msg_resolve chart symbol = \<lparr>tm_Method = ''resolve_symbol'', tm_Params = [PStr chart, PStr ''sds_sym_1'',
     PStr (''={'' @ [dquote] @ ''symbol'' @ [dquote] @ '':'' @ [dquote] @ symbol @ [dquote] @ '',''
       @ [dquote] @ ''adjustment'' @ [dquote] @ '':'' @ [dquote] @ ''splits'' @ [dquote] @ ''}'')]\<rparr>"

definition msg_series :: "string \<Rightarrow> string \<Rightarrow> string \<Rightarrow> int \<Rightarrow> tv_message" where
  "msg_series chart series resolution bars = \<lparr>tm_Method = ''create_series'',
     tm_Params = [PStr chart, PStr series, PStr ''sds_1'', PStr ''sds_sym_1'', PStr resolution,
       PInt bars, PStr '''']\<rparr>"

definition msg_delete :: "string \<Rightarrow> tv_message" where
  "msg_delete chart = \<lparr>tm_Method = ''chart_delete_session'', tm_Params = [PStr chart]\<rparr>"

definition series_deadline :: "config \<Rightarrow> int \<Rightarrow> int option \<Rightarrow> int" where
  "series_deadline cfg now ctx = (let deadline = now + cfg_FetchTimeout cfg in
     case ctx of Some dl \<Rightarrow> if dl < deadline then dl else deadline | None \<Rightarrow> deadline)"

text \<open>
  \<open>fetchSeries\<close>. The deferred teardown runs on every way out, a panic included; while the
  loop still waits it has not run.
\<close>

definition fetch_body :: "config \<Rightarrow> fetch_io \<Rightarrow> string \<Rightarrow> string \<Rightarrow> string \<Rightarrow> string \<Rightarrow> int \<Rightarrow> conn
    \<Rightarrow> (tv_error + candle list) outcome \<times> conn" where
  "fetch_body cfg io chartID seriesID symbol resolution bars c =
     (case send (fi_write io) c (msg_resolve chartID symbol) of
        (Some e, c1) \<Rightarrow> (Done (Inl (newErr CodeUpstreamProtocol ''resolve symbol'' (Some e))), c1)
      | (None, c1) \<Rightarrow>
          (case send (fi_write io) c1 (msg_series chartID seriesID resolution bars) of
             (Some e, c2) \<Rightarrow> (Done (Inl (newErr CodeUpstreamProtocol ''create series'' (Some e))), c2)
           | (None, c2) \<Rightarrow>
               fetch_loop (fi_write io) (series_deadline cfg (fi_now io) (fi_deadline io)) (fi_ticks io) c2))"

definition fetchSeries :: "config \<Rightarrow> fetch_io \<Rightarrow> string \<Rightarrow> string \<Rightarrow> int \<Rightarrow> conn
    \<Rightarrow> (tv_error + candle list) outcome \<times> conn" where
  "fetchSeries cfg io symbol resolution bars c =
     (let chartID = fst (genSessionID ''cs'' (fst (fi_chart io)) (snd (fi_chart io)));
          seriesID = fst (genSessionID ''sds'' (fst (fi_series io)) (snd (fi_series io))) in
      case send (fi_write io) c (msg_create chartID) of
        (Some e, c1) \<Rightarrow> (Done (Inl (newErr CodeUpstreamProtocol ''create chart session'' (Some e))), c1)
      | (None, c1) \<Rightarrow>
          (case fetch_body cfg io chartID seriesID symbol resolution bars c1 of
             (Waiting, c2) \<Rightarrow> (Waiting, c2)
           | (r, c2) \<Rightarrow> (r, snd (send (fi_write io) c2 (msg_delete chartID)))))"

declare ws_write_def [go_defs] send_def [go_defs] truncateStr_def [go_defs]

section \<open>Facts about dialing\<close>

lemma dialOnce_cases:
  "(\<exists>c. dialOnce cfg a = ((Some c, None), [Opened])) \<or> (\<exists>e. dialOnce cfg a = ((None, Some e), []))
   \<or> (\<exists>e. dialOnce cfg a = ((None, Some e), [Opened, Closed]))"
  by (auto simp: dialOnce_def split: option.splits prod.splits)

text \<open>The attempt ends the loop: cancelled during its back-off, or successful.\<close>

definition cancelled :: "(nat \<Rightarrow> attempt) \<Rightarrow> nat \<Rightarrow> bool" where
  "cancelled as n \<longleftrightarrow> 0 < n \<and> at_cancel (as n) \<noteq> None"

definition connects :: "config \<Rightarrow> (nat \<Rightarrow> attempt) \<Rightarrow> nat \<Rightarrow> bool" where
  "connects cfg as n \<longleftrightarrow> fst (fst (dialOnce cfg (as n))) \<noteq> None"

lemma connects_simps:
  "connects cfg as n \<Longrightarrow> \<exists>c. dialOnce cfg (as n) = ((Some c, None), [Opened])"
  "\<not> connects cfg as n \<Longrightarrow> \<exists>e ev. dialOnce cfg (as n) = ((None, Some e), ev) \<and> (ev = [] \<or> ev = [Opened, Closed])"
  using dialOnce_cases [of cfg "as n"] by (auto simp: connects_def)

definition opened :: "dial_event list \<Rightarrow> nat" where
  "opened ev = length (filter (\<lambda>e. e = Opened) ev)"

definition closed :: "dial_event list \<Rightarrow> nat" where
  "closed ev = length (filter (\<lambda>e. e = Closed) ev)"

lemma opened_simps [simp]:
  "opened [] = 0" "opened (x # xs) = (if x = Opened then Suc (opened xs) else opened xs)"
  "opened (xs @ ys) = opened xs + opened ys"
  "closed [] = 0" "closed (x # xs) = (if x = Closed then Suc (closed xs) else closed xs)"
  "closed (xs @ ys) = closed xs + closed ys"
  by (auto simp: opened_def closed_def)

definition dial_wait :: "(nat \<Rightarrow> attempt) \<Rightarrow> nat \<Rightarrow> dial_event list" where
  "dial_wait as n = (if 0 < n then [Slept ((50 + at_rand (as n)) * millisecond * int n)] else [])"

lemma dial_wait_counts [simp]: "opened (dial_wait as n) = 0" "closed (dial_wait as n) = 0"
  by (simp_all add: dial_wait_def)

lemma dial_from_steps:
  "\<not> n < 3 \<Longrightarrow> dial_from cfg as n e = ((None, e), [])"
  "n < 3 \<Longrightarrow> cancelled as n \<Longrightarrow>
     dial_from cfg as n e = ((None, Some (newErr CodeUpstreamTimeout ''dial canceled'' (at_cancel (as n)))), [])"
  "n < 3 \<Longrightarrow> \<not> cancelled as n \<Longrightarrow> dialOnce cfg (as n) = ((Some c, e'), ev) \<Longrightarrow>
     dial_from cfg as n e = ((Some c, None), dial_wait as n @ ev)"
  "n < 3 \<Longrightarrow> \<not> cancelled as n \<Longrightarrow> dialOnce cfg (as n) = ((None, e'), ev) \<Longrightarrow>
     dial_from cfg as n e = (fst (dial_from cfg as (Suc n) e'),
       dial_wait as n @ ev @ snd (dial_from cfg as (Suc n) e'))"
proof -
  note eq = dial_from.simps [of cfg as n e, unfolded Let_def dialMaxAttempts_def, folded dial_wait_def]
  show "\<not> n < 3 \<Longrightarrow> dial_from cfg as n e = ((None, e), [])"
    by (subst eq) (simp add: cancelled_def)
  show "n < 3 \<Longrightarrow> cancelled as n \<Longrightarrow>
     dial_from cfg as n e = ((None, Some (newErr CodeUpstreamTimeout ''dial canceled'' (at_cancel (as n)))), [])"
    by (subst eq) (simp add: cancelled_def)
  show "n < 3 \<Longrightarrow> \<not> cancelled as n \<Longrightarrow> dialOnce cfg (as n) = ((Some c, e'), ev) \<Longrightarrow>
     dial_from cfg as n e = ((Some c, None), dial_wait as n @ ev)"
    by (subst eq) (simp add: cancelled_def dial_wait_def)
  show "n < 3 \<Longrightarrow> \<not> cancelled as n \<Longrightarrow> dialOnce cfg (as n) = ((None, e'), ev) \<Longrightarrow>
     dial_from cfg as n e = (fst (dial_from cfg as (Suc n) e'),
       dial_wait as n @ ev @ snd (dial_from cfg as (Suc n) e'))"
    by (subst eq) (simp add: cancelled_def dial_wait_def case_prod_unfold)
qed

text \<open>The first attempt that connects, if no back-off before it was cancelled.\<close>

definition dial_wins :: "config \<Rightarrow> (nat \<Rightarrow> attempt) \<Rightarrow> nat \<Rightarrow> nat \<Rightarrow> bool" where
  "dial_wins cfg as n k \<longleftrightarrow> n \<le> k \<and> k < 3 \<and> connects cfg as k \<and> (\<forall>j. n \<le> j \<and> j < k \<longrightarrow> \<not> connects cfg as j)
     \<and> (\<forall>j. n \<le> j \<and> j \<le> k \<longrightarrow> \<not> cancelled as j)"

lemma dial_wins_step:
  "dial_wins cfg as n k \<longleftrightarrow> n < 3 \<and> \<not> cancelled as n \<and>
     (if connects cfg as n then k = n else dial_wins cfg as (Suc n) k)"
  unfolding dial_wins_def by (auto simp: Suc_le_eq le_less)

lemma dial_from_wins:
  "dial_wins cfg as n k \<Longrightarrow> fst (dial_from cfg as n e) = (fst (fst (dialOnce cfg (as k))), None)"
proof (induction "3 - n" arbitrary: n e)
  case (Suc m)
  show ?case
  proof (cases "connects cfg as n")
    case True
    then obtain c where "dialOnce cfg (as n) = ((Some c, None), [Opened])" using connects_simps by blast
    then show ?thesis using Suc.prems True dial_wins_step [of cfg as n k] dial_from_steps(3) [of n as cfg] by simp
  next
    case False
    then obtain e' ev where "dialOnce cfg (as n) = ((None, Some e'), ev)" using connects_simps by blast
    then show ?thesis
      using Suc.hyps(1) [of "Suc n" "Some e'"] Suc.hyps(2) Suc.prems False dial_wins_step [of cfg as n k]
        dial_from_steps(4) [of n as cfg] by simp
  qed
qed (auto simp: dial_wins_def)

lemma dial_from_loses:
  "(\<forall>k. \<not> dial_wins cfg as n k) \<Longrightarrow> (3 \<le> n \<Longrightarrow> e \<noteq> None) \<Longrightarrow>
   \<exists>err. fst (dial_from cfg as n e) = (None, Some err)"
proof (induction "3 - n" arbitrary: n e)
  case 0
  then show ?case using dial_from_steps(1) [of n cfg as e] by auto
next
  case (Suc m)
  then have n: "n < 3" by simp
  show ?case
  proof (cases "cancelled as n")
    case True
    then show ?thesis using dial_from_steps(2) [OF n] by simp
  next
    case go: False
    then have "\<not> connects cfg as n" using Suc.prems(1) n dial_wins_step [of cfg as n] by auto
    then obtain e' ev where "dialOnce cfg (as n) = ((None, Some e'), ev)" using connects_simps by blast
    moreover have "\<forall>k. \<not> dial_wins cfg as (Suc n) k"
      using Suc.prems(1) n go \<open>\<not> connects cfg as n\<close> dial_wins_step [of cfg as n] by auto
    ultimately show ?thesis
      using Suc.hyps(1) [of "Suc n" "Some e'"] Suc.hyps(2) dial_from_steps(4) [OF n go] by simp
  qed
qed

lemma dial_pair:
  assumes "fst (dial cfg as) = (x, err)"
  shows "err = None \<longleftrightarrow> x \<noteq> None"
proof (cases "\<exists>k. dial_wins cfg as 0 k")
  case True
  then obtain k where k: "dial_wins cfg as 0 k" by blast
  then have "fst (fst (dialOnce cfg (as k))) \<noteq> None" by (simp add: dial_wins_def connects_def)
  then show ?thesis using dial_from_wins [OF k, of None] assms by (auto simp: dial_def)
next
  case False
  then show ?thesis using dial_from_loses [of cfg as 0 None] assms by (auto simp: dial_def)
qed

lemma dial_from_sockets:
  "opened (snd (dial_from cfg as n e)) =
     closed (snd (dial_from cfg as n e)) + (if fst (fst (dial_from cfg as n e)) = None then 0 else 1)
   \<and> opened (snd (dial_from cfg as n e)) \<le> 3 - n"
proof (induction "3 - n" arbitrary: n e)
  case 0
  then show ?case using dial_from_steps(1) [of n cfg as e] by auto
next
  case (Suc m)
  then have n: "n < 3" by simp
  have IH: "opened (snd (dial_from cfg as (Suc n) e')) = closed (snd (dial_from cfg as (Suc n) e'))
       + (if fst (fst (dial_from cfg as (Suc n) e')) = None then 0 else 1)
     \<and> opened (snd (dial_from cfg as (Suc n) e')) \<le> 3 - Suc n" for e'
    by (rule Suc.hyps(1)) (use Suc.hyps(2) in simp)
  show ?case
  proof (cases "cancelled as n")
    case True
    then show ?thesis using dial_from_steps(2) [OF n] by simp
  next
    case go: False
    from dialOnce_cases [of cfg "as n"] show ?thesis
    proof (elim disjE exE)
      fix c assume "dialOnce cfg (as n) = ((Some c, None), [Opened])"
      then show ?thesis using dial_from_steps(3) [OF n go] n by simp
    next
      fix e' assume "dialOnce cfg (as n) = ((None, Some e'), [])"
      then show ?thesis using dial_from_steps(4) [OF n go] IH [of "Some e'"] by (auto split: if_splits)
    next
      fix e' assume "dialOnce cfg (as n) = ((None, Some e'), [Opened, Closed])"
      then show ?thesis using dial_from_steps(4) [OF n go] IH [of "Some e'"] n by (auto split: if_splits)
    qed
  qed
qed


section \<open>Facts about the read loop\<close>

lemma truncateStr_returns: "0 \<le> n \<Longrightarrow> truncateStr s n = Some (if int (length s) \<le> n then s else take (nat n) s @ ''...'')"
  by (auto simp: truncateStr_def go_upto_def)

lemma frame_result_returns: "frame_result f \<noteq> None"
  by (auto simp: frame_result_def Let_def truncateStr_returns split: option.split)

text \<open>The total version: what a frame decides, if anything.\<close>

definition frame_decides :: "string \<Rightarrow> (tv_error + candle list) option" where
  "frame_decides f = the (frame_result f)"

fun first_decision :: "string list \<Rightarrow> (tv_error + candle list) option" where
  "first_decision [] = None"
| "first_decision (f # fs) = (case frame_decides f of Some r \<Rightarrow> Some r | None \<Rightarrow> first_decision fs)"

lemma first_result_decision: "first_result fs = Some (first_decision fs)"
proof (induction fs)
  case (Cons f fs)
  obtain r where "frame_result f = Some r" using frame_result_returns by blast
  then show ?case using Cons by (simp add: frame_decides_def split: option.splits)
qed simp

lemma frame_decides_nonempty: "frame_decides f = Some (Inr cs) \<Longrightarrow> cs \<noteq> []"
  by (auto simp: frame_decides_def frame_result_def Let_def truncateStr_returns split: option.splits if_splits)

lemma frame_decides_code: "frame_decides f = Some (Inl e) \<Longrightarrow> e_Code e = CodeSymbolUnknown"
  by (auto simp: frame_decides_def frame_result_def Let_def truncateStr_returns split: option.splits if_splits)

lemma first_decision_from: "first_decision fs = Some r \<Longrightarrow> \<exists>f \<in> set fs. frame_decides f = Some r"
  by (induction fs) (auto split: option.splits)

lemma first_decision_ok:
  "first_decision fs = Some (Inr cs) \<Longrightarrow> cs \<noteq> []"
  "first_decision fs = Some (Inl e) \<Longrightarrow> e_Code e = CodeSymbolUnknown"
  by (blast dest: first_decision_from frame_decides_nonempty, blast dest: first_decision_from frame_decides_code)

text \<open>
  What one iteration does, as a value: it goes on, with the frame it has written, or ends
  with a result.
\<close>

datatype turn = Goes "string option" | Ends "(tv_error + candle list) outcome" "string option"

definition turn_of :: "writer \<Rightarrow> int \<Rightarrow> tick \<Rightarrow> nat \<Rightarrow> turn" where
  "turn_of w deadline t n =
     (if \<not> tk_now t < deadline
      then Ends (Done (Inl (newErr CodeUpstreamTimeout ''no candle data within fetch timeout'' None))) None
      else case tk_ctx t of
        Some e \<Rightarrow> Ends (Done (Inl (newErr CodeUpstreamTimeout ''context canceled'' (Some e)))) None
      | None \<Rightarrow>
        (case tk_read t of
           Inl e \<Rightarrow> Ends (Done (Inl (newErr CodeUpstreamProtocol ''read'' (Some e)))) None
         | Inr raw \<Rightarrow>
           (case heartbeatPong raw of
              Some pong \<Rightarrow> (case w n of
                  Some e \<Rightarrow> Ends (Done (Inl (newErr CodeUpstreamProtocol ''pong'' (Some e)))) (Some pong)
                | None \<Rightarrow> Goes (Some pong))
            | None \<Rightarrow> (case decodeFrames raw of
                  None \<Rightarrow> Ends Panicked None
                | Some frames \<Rightarrow> (case first_decision frames of
                      Some r \<Rightarrow> Ends (Done r) None
                    | None \<Rightarrow> Goes None)))))"

definition wrote :: "string option \<Rightarrow> conn \<Rightarrow> conn" where
  "wrote p c = (case p of Some f \<Rightarrow> c\<lparr>cn_sent := cn_sent c @ [f]\<rparr> | None \<Rightarrow> c)"

lemma fetch_loop_turn:
  "fetch_loop w dl (t # ts) c =
     (case turn_of w dl t (length (cn_sent c)) of
        Goes p \<Rightarrow> fetch_loop w dl ts (wrote p c)
      | Ends r p \<Rightarrow> (r, wrote p c))"
  by (simp add: turn_of_def ws_write_def wrote_def first_result_decision
      split: option.split sum.split)

declare fetch_loop.simps(2) [simp del]

lemma fetch_loop_sent:
  "\<exists>pongs. cn_sent (snd (fetch_loop w dl ts c)) = cn_sent c @ pongs
     \<and> (\<forall>p \<in> set pongs. \<exists>t \<in> set ts. \<exists>raw. tk_read t = Inr raw \<and> heartbeatPong raw = Some p)"
proof (induction ts arbitrary: c)
  case (Cons t ts)
  have turn: "(p = None \<or> (\<exists>raw f. tk_read t = Inr raw \<and> heartbeatPong raw = Some f \<and> p = Some f))"
    if "turn_of w dl t n = Goes p \<or> (\<exists>r. turn_of w dl t n = Ends r p)" for n p
    using that by (auto simp: turn_of_def split: if_splits option.splits sum.splits)
  show ?case
  proof (cases "turn_of w dl t (length (cn_sent c))")
    case (Goes p)
    obtain pongs where IH: "cn_sent (snd (fetch_loop w dl ts (wrote p c))) = cn_sent (wrote p c) @ pongs"
      "\<forall>p \<in> set pongs. \<exists>t \<in> set ts. \<exists>raw. tk_read t = Inr raw \<and> heartbeatPong raw = Some p"
      using Cons.IH by blast
    show ?thesis
      by (rule exI [of _ "(case p of Some f \<Rightarrow> [f] | None \<Rightarrow> []) @ pongs"])
        (use IH turn [of "length (cn_sent c)" p] Goes in \<open>auto simp: fetch_loop_turn wrote_def split: option.splits\<close>)
  next
    case (Ends r p)
    show ?thesis
      by (rule exI [of _ "case p of Some f \<Rightarrow> [f] | None \<Rightarrow> []"])
        (use turn [of "length (cn_sent c)" p] Ends in \<open>auto simp: fetch_loop_turn wrote_def split: option.splits\<close>)
  qed
qed simp

lemma fetch_loop_ends:
  "\<exists>t \<in> set ts. dl \<le> tk_now t \<Longrightarrow> fst (fetch_loop w dl ts c) \<noteq> Waiting"
proof (induction ts arbitrary: c)
  case (Cons t ts)
  have w: "turn_of w dl t n \<noteq> Ends Waiting p" for n p
    by (auto simp: turn_of_def split: option.splits sum.splits)
  show ?case
  proof (cases "turn_of w dl t (length (cn_sent c))")
    case (Goes p)
    then have "\<not> dl \<le> tk_now t" by (auto simp: turn_of_def split: if_splits)
    then show ?thesis using Cons Goes by (auto simp: fetch_loop_turn)
  next
    case (Ends r p)
    then show ?thesis using w by (auto simp: fetch_loop_turn)
  qed
qed simp

definition fetch_codes :: "string set" where
  "fetch_codes = {CodeUpstreamTimeout, CodeUpstreamProtocol, CodeSymbolUnknown}"

definition fetch_result_ok :: "(tv_error + candle list) outcome \<Rightarrow> bool" where
  "fetch_result_ok r = (case r of Done (Inl e) \<Rightarrow> e_Code e \<in> fetch_codes | Done (Inr cs) \<Rightarrow> cs \<noteq> [] | _ \<Rightarrow> True)"

lemma fetch_loop_ok: "fetch_result_ok (fst (fetch_loop w dl ts c))"
proof (induction ts arbitrary: c)
  case (Cons t ts)
  have "fetch_result_ok r" if "turn_of w dl t n = Ends r p" for n r p
    using that by (auto simp: turn_of_def fetch_result_ok_def fetch_codes_def
        dest: first_decision_ok
        split: if_splits option.splits sum.splits)
  then show ?case using Cons by (simp add: fetch_loop_turn split: turn.split)
qed (simp add: fetch_result_ok_def)

section \<open>Facts about a fetch\<close>

text \<open>A tick that neither ends the loop nor fails: a heartbeat, or frames that decide nothing.\<close>

definition quiet :: "int \<Rightarrow> tick \<Rightarrow> bool" where
  "quiet dl t \<longleftrightarrow> tk_now t < dl \<and> tk_ctx t = None \<and>
     (\<exists>raw. tk_read t = Inr raw \<and> (heartbeatPong raw \<noteq> None \<or>
        (\<exists>frames. decodeFrames raw = Some frames \<and> first_decision frames = None)))"

text \<open>A tick whose message carries the candles.\<close>

definition delivers :: "int \<Rightarrow> tick \<Rightarrow> candle list \<Rightarrow> bool" where
  "delivers dl t cs \<longleftrightarrow> tk_now t < dl \<and> tk_ctx t = None \<and>
     (\<exists>raw frames. tk_read t = Inr raw \<and> heartbeatPong raw = None \<and> decodeFrames raw = Some frames
        \<and> first_decision frames = Some (Inr cs))"

lemma turn_quiet: "(\<forall>n. w n = None) \<Longrightarrow> quiet dl t \<longleftrightarrow> (\<exists>p. turn_of w dl t n = Goes p)"
  by (auto simp: turn_of_def quiet_def split: option.splits sum.splits)

lemma turn_delivers: "delivers dl t cs \<longleftrightarrow> (\<exists>p. turn_of w dl t n = Ends (Done (Inr cs)) p)"
  by (auto simp: turn_of_def delivers_def split: if_splits option.splits sum.splits)

lemma ex_first_Cons:
  "(\<exists>pre x rest. t # ts = pre @ x # rest \<and> list_all Q pre \<and> D x) \<longleftrightarrow>
   D t \<or> (Q t \<and> (\<exists>pre x rest. ts = pre @ x # rest \<and> list_all Q pre \<and> D x))" (is "?L \<longleftrightarrow> ?R")
proof
  assume ?L
  then obtain pre x rest where x: "t # ts = pre @ x # rest" "list_all Q pre" "D x" by blast
  then show ?R by (cases pre) auto
next
  assume ?R
  then show ?L
  proof
    assume "D t"
    then show ?L by (intro exI [of _ "[]"] exI [of _ t] exI [of _ ts]) simp
  next
    assume "Q t \<and> (\<exists>pre x rest. ts = pre @ x # rest \<and> list_all Q pre \<and> D x)"
    then obtain pre x rest where "Q t" "ts = pre @ x # rest" "list_all Q pre" "D x" by blast
    then show ?L by (intro exI [of _ "t # pre"] exI [of _ x] exI [of _ rest]) simp
  qed
qed

lemma fetch_loop_delivers:
  assumes w: "\<forall>n. w n = None"
  shows "fst (fetch_loop w dl ts c) = Done (Inr cs) \<longleftrightarrow>
    (\<exists>pre t rest. ts = pre @ t # rest \<and> list_all (quiet dl) pre \<and> delivers dl t cs)"
proof (induction ts arbitrary: c)
  case (Cons t ts)
  let ?turn = "turn_of w dl t (length (cn_sent c))"
  show ?case
  proof (cases ?turn)
    case (Goes p)
    have q: "quiet dl t" using turn_quiet [OF w] Goes by blast
    have nd: "\<not> delivers dl t cs" using turn_delivers [of dl t cs w] Goes by (metis turn.distinct(1))
    show ?thesis unfolding ex_first_Cons using Cons Goes q nd by (simp add: fetch_loop_turn)
  next
    case (Ends r p)
    have q: "\<not> quiet dl t" using turn_quiet [OF w, of dl t "length (cn_sent c)"] Ends by simp
    show ?thesis unfolding ex_first_Cons
      using turn_delivers [of dl t cs w "length (cn_sent c)"] Ends q by (auto simp: fetch_loop_turn)
  qed
qed simp

lemma fetch_body_sent:
  "\<exists>mid. cn_sent (snd (fetch_body cfg io ch se sy res bars c)) = cn_sent c @ encodeFrame (msg_resolve ch sy) # mid
    \<and> (mid = [] \<or> (\<exists>pongs. mid = encodeFrame (msg_series ch se res bars) # pongs
        \<and> (\<forall>p \<in> set pongs. \<exists>t \<in> set (fi_ticks io). \<exists>raw. tk_read t = Inr raw \<and> heartbeatPong raw = Some p)))"
proof -
  define c2 where "c2 = snd (send (fi_write io) (snd (send (fi_write io) c (msg_resolve ch sy))) (msg_series ch se res bars))"
  have c2: "cn_sent c2 = cn_sent c @ [encodeFrame (msg_resolve ch sy), encodeFrame (msg_series ch se res bars)]"
    by (simp add: c2_def send_def ws_write_def)
  obtain pongs where "cn_sent (snd (fetch_loop (fi_write io) (series_deadline cfg (fi_now io) (fi_deadline io))
      (fi_ticks io) c2)) = cn_sent c2 @ pongs"
    "\<forall>p \<in> set pongs. \<exists>t \<in> set (fi_ticks io). \<exists>raw. tk_read t = Inr raw \<and> heartbeatPong raw = Some p"
    using fetch_loop_sent by blast
  then show ?thesis
    using c2 by (auto simp: fetch_body_def c2_def send_def ws_write_def split: option.splits)
qed

lemma fetch_body_ok: "fetch_result_ok (fst (fetch_body cfg io ch se sy res bars c))"
  using fetch_loop_ok by (auto simp: fetch_body_def fetch_result_ok_def fetch_codes_def send_def ws_write_def
      split: option.split)

lemma fetchSeries_body:
  "fi_write io (length (cn_sent c)) = None \<Longrightarrow>
   fst (fetchSeries cfg io sy res bars c) = fst (fetch_body cfg io
      (fst (genSessionID ''cs'' (fst (fi_chart io)) (snd (fi_chart io))))
      (fst (genSessionID ''sds'' (fst (fi_series io)) (snd (fi_series io)))) sy res bars
      (c\<lparr>cn_sent := cn_sent c @ [encodeFrame (msg_create (fst (genSessionID ''cs'' (fst (fi_chart io)) (snd (fi_chart io)))))]\<rparr>))"
  by (simp add: fetchSeries_def send_def ws_write_def Let_def case_prod_unfold split: outcome.splits)

lemma fetchSeries_ok: "fetch_result_ok (fst (fetchSeries cfg io sy res bars c))"
  using fetch_body_ok fetchSeries_body [of io c]
  by (cases "fi_write io (length (cn_sent c))")
    (auto simp: fetchSeries_def send_def ws_write_def fetch_result_ok_def fetch_codes_def)

text \<open>
  The frames of one finished chart session: created, the symbol and perhaps the series requested,
  nothing but heartbeat replies from \<open>replies\<close> after that, and deleted.
\<close>

definition session_frames :: "string \<Rightarrow> string \<Rightarrow> string \<Rightarrow> string \<Rightarrow> int \<Rightarrow> string set \<Rightarrow> string list \<Rightarrow> bool" where
  "session_frames ch se sy res bars replies fs \<longleftrightarrow>
     (\<exists>mid. fs = [encodeFrame (msg_create ch), encodeFrame (msg_resolve ch sy)] @ mid @ [encodeFrame (msg_delete ch)]
        \<and> (mid = [] \<or> (\<exists>pongs. mid = encodeFrame (msg_series ch se res bars) # pongs \<and> set pongs \<subseteq> replies)))"

definition pongs_of :: "tick list \<Rightarrow> string set" where
  "pongs_of ts = {p. \<exists>t \<in> set ts. \<exists>raw. tk_read t = Inr raw \<and> heartbeatPong raw = Some p}"

lemma session_frames_mono: "session_frames ch se sy res bars R fs \<Longrightarrow> R \<subseteq> R' \<Longrightarrow> session_frames ch se sy res bars R' fs"
  unfolding session_frames_def by blast

lemma fetchSeries_session:
  assumes "fi_write io (length (cn_sent c)) = None"
    and "fst (fetchSeries cfg io sy res bars c) \<noteq> Waiting"
    and "ch = fst (genSessionID ''cs'' (fst (fi_chart io)) (snd (fi_chart io)))"
    and "se = fst (genSessionID ''sds'' (fst (fi_series io)) (snd (fi_series io)))"
  shows "\<exists>fs. cn_sent (snd (fetchSeries cfg io sy res bars c)) = cn_sent c @ fs
    \<and> session_frames ch se sy res bars (pongs_of (fi_ticks io)) fs"
proof -
  define c1 where "c1 = c\<lparr>cn_sent := cn_sent c @ [encodeFrame (msg_create ch)]\<rparr>"
  have "fst (fetch_body cfg io ch se sy res bars c1) \<noteq> Waiting"
    using assms(2) fetchSeries_body [OF assms(1)] by (simp add: assms(3,4) c1_def)
  then have sent: "cn_sent (snd (fetchSeries cfg io sy res bars c)) =
      cn_sent (snd (fetch_body cfg io ch se sy res bars c1)) @ [encodeFrame (msg_delete ch)]"
    using assms(1) by (simp add: fetchSeries_def Let_def send_def ws_write_def c1_def assms(3,4)
        case_prod_unfold split: outcome.splits)
  obtain mid where "cn_sent (snd (fetch_body cfg io ch se sy res bars c1)) =
      cn_sent c1 @ encodeFrame (msg_resolve ch sy) # mid"
    "mid = [] \<or> (\<exists>pongs. mid = encodeFrame (msg_series ch se res bars) # pongs \<and> set pongs \<subseteq> pongs_of (fi_ticks io))"
    using fetch_body_sent [of cfg io ch se sy res bars c1] unfolding pongs_of_def by blast
  then show ?thesis using sent by (auto simp: c1_def session_frames_def)
qed

lemma fetchSeries_refused:
  "fi_write io (length (cn_sent c)) = Some e \<Longrightarrow> fetchSeries cfg io sy res bars c =
     (Done (Inl (newErr CodeUpstreamProtocol ''create chart session'' (Some e))), c\<lparr>cn_sent := cn_sent c @
        [encodeFrame (msg_create (fst (genSessionID ''cs'' (fst (fi_chart io)) (snd (fi_chart io)))))]\<rparr>)"
  by (simp add: fetchSeries_def send_def ws_write_def Let_def)


section \<open>Properties\<close>

text \<open>
  C28. Dialing: at most three attempts are made. The connection of the first attempt that
  connects is returned, if no back-off before it was cancelled; in every other case an
  error and no connection. Every socket opened by a failed attempt is closed again, so a
  dial leaves one open socket when it succeeds and none when it fails.
\<close>
theorem dial_result:
  "(\<forall>k. dial_wins cfg as 0 k \<longrightarrow> fst (dial cfg as) = (fst (fst (dialOnce cfg (as k))), None))
   \<and> ((\<nexists>k. dial_wins cfg as 0 k) \<longrightarrow> (\<exists>err. fst (dial cfg as) = (None, Some err)))
   \<and> opened (snd (dial cfg as)) = closed (snd (dial cfg as)) + (if fst (fst (dial cfg as)) = None then 0 else 1)
   \<and> opened (snd (dial cfg as)) \<le> 3"
  unfolding dial_def
  using dial_from_wins [of cfg as 0 _ None] dial_from_loses [of cfg as 0 None]
    dial_from_sockets [of cfg as 0 None]
  by auto

definition good_attempt :: attempt where
  "good_attempt = \<lparr>at_cancel = None, at_rand = 0, at_dial = (\<lambda>_. None), at_now = 0, at_deadline = None,
     at_hello = (\<lambda>_. Inr ''~m~2~m~{}''),
     at_write = (\<lambda>_. None)\<rparr>"

theorem dial_result_witness:
  "fst (dial zero_config (\<lambda>n. if n = 0 then good_attempt\<lparr>at_hello := (\<lambda>_. Inr ''x'')\<rparr> else good_attempt))
     = (fst (fst (dialOnce zero_config good_attempt)), None)"
proof -
  let ?as = "\<lambda>n. if n = 0 then good_attempt\<lparr>at_hello := (\<lambda>_. Inr ''x'')\<rparr> else good_attempt"
  have bad: "fst (fst (dialOnce zero_config (good_attempt\<lparr>at_hello := (\<lambda>_. Inr ''x'')\<rparr>))) = None"
    by (simp add: good_attempt_def dialOnce_def authenticate_def has_prefix_def)
  have good: "fst (fst (dialOnce zero_config good_attempt)) \<noteq> None"
    by (simp add: good_attempt_def dialOnce_def authenticate_def send_def ws_write_def has_prefix_def)
  have "dial_wins zero_config ?as 0 1"
    using bad good by (auto simp: dial_wins_def connects_def cancelled_def good_attempt_def)
  then show ?thesis using dial_result [of zero_config ?as] by simp
qed


definition stale_frame :: string where
  "stale_frame = map (\<lambda>c. if c = CHR ''`'' then dquote else c)
     ''{`m`:`du`,`p`:[`cs_other`,{`sds_1`:{`s`:[{`v`:[1,1,1,1,1,0]}]}}]}''"

definition stale_candle :: candle where
  "stale_candle = \<lparr>c_Timestamp = 1, c_Open = 1, c_High = 1, c_Low = 1, c_Close = 1, c_Volume = 0\<rparr>"

lemma stale_frame_result: "frame_result stale_frame = Some (Some (Inr [stale_candle]))"
  by code_simp

lemma stale_frame_message:
  "heartbeatPong (frame_of stale_frame) = None" "decodeFrames (frame_of stale_frame) = Some [stale_frame]"
  by code_simp+

definition quiet_io :: "tick list \<Rightarrow> fetch_io" where
  "quiet_io ts = \<lparr>fi_chart = (7, 0), fi_series = (8, 1), fi_now = 0, fi_deadline = None,
     fi_write = (\<lambda>_. None), fi_ticks = ts\<rparr>"


text \<open>
  C5. When the connection accepts writes, a fetch returns candles exactly when, before the
  deadline and with the context alive, a data message arrives after nothing but heartbeats
  and irrelevant messages; the candles are that message's, all of them, in its order.
\<close>
theorem fetch_returns_first_data:
  assumes "\<forall>n. fi_write io n = None"
    and "dl = series_deadline cfg (fi_now io) (fi_deadline io)"
  shows "fst (fetchSeries cfg io sy res bars c) = Done (Inr cs) \<longleftrightarrow>
    (\<exists>pre t rest. fi_ticks io = pre @ t # rest \<and> list_all (quiet dl) pre \<and> delivers dl t cs)"
  using fetchSeries_body [of io c] assms(1)
  by (simp add: fetch_body_def send_def ws_write_def fetch_loop_delivers assms(2))

theorem fetch_returns_first_data_witness:
  "fst (fetchSeries DefaultConfig
     (quiet_io [\<lparr>tk_now = 1, tk_ctx = None, tk_read = Inr ''~m~4~m~~h~1''\<rparr>,
        \<lparr>tk_now = 2, tk_ctx = None, tk_read = Inr (frame_of stale_frame)\<rparr>]) ''X'' ''5'' 300 fresh_conn)
     = Done (Inr [stale_candle])"
    (is "fst (fetchSeries _ (quiet_io [?t1, ?t2]) _ _ _ _) = _")
proof -
  let ?dl = "series_deadline DefaultConfig 0 None"
  have "2 < ?dl" by (simp add: series_deadline_def DefaultConfig_def second_def)
  moreover have "heartbeatPong ''~m~4~m~~h~1'' \<noteq> None" by code_simp
  ultimately have "quiet ?dl ?t1" by (auto simp: quiet_def)
  moreover have "delivers ?dl ?t2 [stale_candle]"
    using \<open>2 < ?dl\<close> by (simp add: delivers_def stale_frame_message frame_decides_def stale_frame_result)
  ultimately have "\<exists>pre t rest. [?t1, ?t2] = pre @ t # rest \<and> list_all (quiet ?dl) pre \<and> delivers ?dl t [stale_candle]"
    by (intro exI [of _ "[?t1]"] exI [of _ ?t2] exI [of _ "[]"]) simp
  then show ?thesis
    using fetch_returns_first_data [of "quiet_io [?t1, ?t2]" ?dl DefaultConfig "''X''" "''5''" 300 fresh_conn "[stale_candle]"]
    by (simp add: quiet_io_def)
qed

text \<open>
  A fetch ends: once an iteration reads the clock at or after the deadline (the
  earlier of the fetch timeout and the context's deadline), the call has returned or
  panicked, whatever the server sent. What it returns is a non-empty list of candles or an
  error with one of three codes: timeout, protocol, unknown symbol.
\<close>
theorem fetch_ends:
  assumes "t \<in> set (fi_ticks io)" and "min (fi_now io + cfg_FetchTimeout cfg)
      (case fi_deadline io of Some d \<Rightarrow> d | None \<Rightarrow> fi_now io + cfg_FetchTimeout cfg) \<le> tk_now t"
  shows "fst (fetchSeries cfg io sy res bars c) \<noteq> Waiting
    \<and> fetch_result_ok (fst (fetchSeries cfg io sy res bars c))"
proof -
  have dl: "series_deadline cfg (fi_now io) (fi_deadline io) \<le> tk_now t"
    using assms(2) by (auto simp: series_deadline_def Let_def split: option.splits if_splits)
  have "fst (fetch_body cfg io ch se sy res bars c') \<noteq> Waiting" for ch se c'
    using fetch_loop_ends [of "fi_ticks io"] assms(1) dl
    by (auto simp: fetch_body_def split: option.splits prod.splits)
  then have "fst (fetchSeries cfg io sy res bars c) \<noteq> Waiting"
    using fetchSeries_body [of io c]
    by (cases "fi_write io (length (cn_sent c))") (auto simp: fetchSeries_def send_def ws_write_def)
  then show ?thesis using fetchSeries_ok by blast
qed

theorem fetch_ends_witness:
  "fst (fetchSeries DefaultConfig (quiet_io [\<lparr>tk_now = 20000000000, tk_ctx = None, tk_read = Inl ''''\<rparr>])
     ''X'' ''5'' 300 fresh_conn) \<noteq> Waiting"
  by (rule conjunct1, rule fetch_ends [of "\<lparr>tk_now = 20000000000, tk_ctx = None, tk_read = Inl ''''\<rparr>"])
    (simp_all add: quiet_io_def DefaultConfig_def second_def)

lemma fetch_loop_no_panic:
  "\<forall>t \<in> set ts. \<forall>raw. tk_read t = Inr raw \<longrightarrow> decodeFrames raw \<noteq> None \<Longrightarrow> fst (fetch_loop w dl ts c) \<noteq> Panicked"
proof (induction ts arbitrary: c)
  case (Cons t ts)
  have "turn_of w dl t n \<noteq> Ends Panicked p" for n p
    using Cons.prems by (auto simp: turn_of_def split: option.splits sum.splits)
  then show ?case using Cons by (auto simp: fetch_loop_turn split: turn.split)
qed simp

lemma fetchSeries_no_panic:
  "\<forall>t \<in> set (fi_ticks io). \<forall>raw. tk_read t = Inr raw \<longrightarrow> decodeFrames raw \<noteq> None \<Longrightarrow>
   fst (fetchSeries cfg io sy res bars c) \<noteq> Panicked"
  using fetch_loop_no_panic [of "fi_ticks io"]
  by (auto simp: fetchSeries_def fetch_body_def send_def ws_write_def Let_def case_prod_unfold
      split: option.splits outcome.splits)

text \<open>
  The environment of a fetch that must come to an end: the clock reaches the deadline, and no
  message has a header that starts with a minus sign.
\<close>

definition prompt :: "config \<Rightarrow> fetch_io \<Rightarrow> bool" where
  "prompt cfg io \<longleftrightarrow> (\<exists>t \<in> set (fi_ticks io). series_deadline cfg (fi_now io) (fi_deadline io) \<le> tk_now t)
     \<and> (\<forall>t \<in> set (fi_ticks io). \<forall>raw. tk_read t = Inr raw \<longrightarrow> \<not> sublist ''~m~-'' raw)"

lemma fetchSeries_returns:
  assumes "prompt cfg io"
  shows "\<exists>r. fst (fetchSeries cfg io sy res bars c) = Done r"
proof -
  obtain t where t: "t \<in> set (fi_ticks io)" "series_deadline cfg (fi_now io) (fi_deadline io) \<le> tk_now t"
    using assms by (auto simp: prompt_def)
  then have "fst (fetchSeries cfg io sy res bars c) \<noteq> Waiting"
    using fetch_ends [OF t(1)] by (auto simp: series_deadline_def Let_def split: option.splits if_splits)
  moreover have "fst (fetchSeries cfg io sy res bars c) \<noteq> Panicked"
    using assms decodeFrames_no_panic by (intro fetchSeries_no_panic) (auto simp: prompt_def)
  ultimately show ?thesis by (cases "fst (fetchSeries cfg io sy res bars c)") auto
qed

text \<open>
  Data frames are not matched to the session that asked for them: the first parameter
  of a data frame, the session id, is ignored, so the candles of a frame left over from
  an earlier session on the same connection are returned as the answer.
\<close>
theorem frame_of_any_session:
  assumes "unmarshal_map f = Some env"
    and "lookup_any env ''m'' = AStr mtd" and "mtd = ''du'' \<or> mtd = ''timescale_update''"
    and "lookup_any env ''p'' = AArr (session # AMap payload # others)"
  shows "frame_result f = Some (if parseCandles payload = [] then None else Some (Inr (parseCandles payload)))"
  using assms by (auto simp: frame_result_def as_str_def as_arr_def as_map_def Let_def)

theorem frame_of_any_session_witness:
  "frame_result stale_frame = Some (Some (Inr
     [\<lparr>c_Timestamp = 1, c_Open = 1, c_High = 1, c_Low = 1, c_Close = 1, c_Volume = 0\<rparr>]))"
proof -
  have u: "unmarshal_map stale_frame = Some [(''m'', AStr ''du''), (''p'', AArr [AStr ''cs_other'',
      AMap [(''sds_1'', AMap [(''s'', AArr [AMap [(''v'', AArr (map AFloat [1, 1, 1, 1, 1, 0]))]])])]])]"
    by code_simp
  have p: "parseCandles [(''sds_1'', AMap [(''s'', AArr [AMap [(''v'', AArr (map AFloat [1, 1, 1, 1, 1, 0]))]])])]
     = [\<lparr>c_Timestamp = 1, c_Open = 1, c_High = 1, c_Low = 1, c_Close = 1, c_Volume = 0\<rparr>]"
    by code_simp
  show ?thesis
    using frame_of_any_session [OF u, of "''du''"] p by (simp add: lookup_any_def)
qed

end
