(* ===== verification/Pool.thy ===== *)
theory Pool
  imports Conn
begin

text \<open>
  \<open>pool.go\<close>: the bounded connection pool. Each critical section under the mutex is a
  function on the pool record (\<open>pool_take\<close>, \<open>pool_give\<close>, \<open>pool_reap\<close>, \<open>pool_shut\<close>); the
  connections are abstract identities. The semaphore of \<open>golang.org/x/sync\<close> is the count of
  slots held, by its contract: an acquire succeeds only below the pool size.

  Fetching goroutines, the reaper and \<open>close\<close> interleave at critical-section boundaries: \<open>pool_step\<close> is
  the step relation, with one program counter per goroutine. \<open>sys_inv\<close> is its invariant:
  each open connection has exactly one owner, and each busy goroutine exactly one slot.
\<close>

section \<open>Critical sections\<close>

record 'c pool =
  pl_free :: "('c \<times> int) list"
  pl_closed :: bool

definition newConnPool :: "'c pool" where
  "newConnPool = \<lparr>pl_free = [], pl_closed = False\<rparr>"

text \<open>\<open>acquire\<close>, once it holds a slot: the pool is closed, a free connection, or none.\<close>

datatype 'c taken = PoolClosed | Reuse 'c | MustDial

definition pool_take :: "'c pool \<Rightarrow> 'c taken \<times> 'c pool" where
  "pool_take p =
     (if pl_closed p then (PoolClosed, p)
      else let n = length (pl_free p) in
        if 0 < n then (Reuse (fst (pl_free p ! (n - 1))), p\<lparr>pl_free := take (n - 1) (pl_free p)\<rparr>)
        else (MustDial, p))"

text \<open>\<open>release\<close>: the connection the caller must close, if any; nil only gives the slot back.\<close>

definition pool_give :: "'c pool \<Rightarrow> 'c option \<Rightarrow> bool \<Rightarrow> int \<Rightarrow> 'c option \<times> 'c pool" where
  "pool_give p conn healthy now =
     (case conn of
        None \<Rightarrow> (None, p)
      | Some c \<Rightarrow>
          let closing = pl_closed p \<or> \<not> healthy in
          (if closing then Some c else None,
           if \<not> closing then p\<lparr>pl_free := pl_free p @ [(c, now)]\<rparr> else p))"

text \<open>
  \<open>reapIdle\<close>. The loop works in place: \<open>keep\<close> is an empty slice of the array it ranges over, so
  the connections it keeps are written over the front of that array. \<open>i\<close> is the index of the
  range, \<open>k\<close> the length of \<open>keep\<close>.
\<close>

function reap_loop :: "int \<Rightarrow> ('c \<times> int) list \<Rightarrow> nat \<Rightarrow> nat \<Rightarrow> ('c \<times> int) list
    \<Rightarrow> ('c \<times> int) list \<times> ('c \<times> int) list" where
  "reap_loop cutoff arr i k dropped =
     (if length arr \<le> i then (take k arr, dropped)
      else let pc = arr ! i in
        if snd pc < cutoff then reap_loop cutoff arr (Suc i) k (dropped @ [pc])
        else reap_loop cutoff (arr[k := pc]) (Suc i) (Suc k) dropped)"
  by pat_completeness auto
termination
  by (relation "measure (\<lambda>(cutoff, arr, i, k, dropped). length arr - i)") auto

declare reap_loop.simps [simp del]

definition pool_reap :: "int \<Rightarrow> 'c pool \<Rightarrow> int \<Rightarrow> 'c list \<times> 'c pool" where
  "pool_reap idle p now =
     (let (keep, dropped) = reap_loop (now - idle) (pl_free p) 0 0 []
      in (map fst dropped, p\<lparr>pl_free := keep\<rparr>))"

text \<open>\<open>close\<close>: the connections to close, and whether \<open>stop\<close> is closed by this call.\<close>

definition pool_shut :: "'c pool \<Rightarrow> 'c list \<times> bool \<times> 'c pool" where
  "pool_shut p =
     (if pl_closed p then ([], False, p)
      else (map fst (pl_free p), True, p\<lparr>pl_closed := True, pl_free := []\<rparr>))"

text \<open>
  The array after \<open>i\<close> is never written, because \<open>keep\<close> is never ahead of the range: the loop splits
  the list it was given, in order.
\<close>

lemma reap_loop_filter:
  "k \<le> i \<Longrightarrow> i \<le> length arr \<Longrightarrow> reap_loop cutoff arr i k dropped =
     (take k arr @ filter (\<lambda>pc. \<not> snd pc < cutoff) (drop i arr), dropped @ filter (\<lambda>pc. snd pc < cutoff) (drop i arr))"
proof (induction cutoff arr i k dropped rule: reap_loop.induct)
  case (1 cutoff arr i k dropped)
  show ?case
  proof (cases "i < length arr")
    case True
    then have split: "drop i arr = arr ! i # drop (Suc i) arr" by (rule Cons_nth_drop_Suc [symmetric])
    have "drop (Suc i) (arr[k := arr ! i]) = drop (Suc i) arr" using 1 by simp
    moreover have "take (Suc k) (arr[k := arr ! i]) = take k arr @ [arr ! i]"
      using 1 True by (simp add: take_Suc_conv_app_nth)
    ultimately show ?thesis
      using 1 True split by (subst reap_loop.simps) (simp add: Let_def)
  qed (subst reap_loop.simps, use 1 in simp)
qed

lemma reap_split:
  "reap_loop cutoff arr 0 0 [] = (filter (\<lambda>pc. \<not> snd pc < cutoff) arr, filter (\<lambda>pc. snd pc < cutoff) arr)"
  by (simp add: reap_loop_filter)

lemma pool_take_free:
  "pl_free p \<noteq> [] \<Longrightarrow> \<not> pl_closed p \<Longrightarrow>
   pool_take p = (Reuse (fst (last (pl_free p))), p\<lparr>pl_free := butlast (pl_free p)\<rparr>)"
  by (simp add: pool_take_def Let_def last_conv_nth butlast_conv_take)

section \<open>Goroutines\<close>

datatype 'c pc =
  Idle
| HasSlot
| Dialing
| Using 'c
| Closing 'c
| Leaving

text \<open>
  \<open>sy_open\<close> are the open connections, \<open>sy_drain\<close> those the reaper or \<open>close\<close> took out of the
  free list and still has to close, \<open>sy_held\<close> the slots of the semaphore, \<open>sy_next\<close> the next
  connection identity, \<open>sy_stops\<close> how often the channel \<open>stop\<close> was closed, \<open>sy_shut\<close> the
  log of closed connections.
\<close>

record sys =
  sy_pool :: "nat pool"
  sy_pc :: "nat \<Rightarrow> nat pc"
  sy_held :: nat
  sy_open :: "nat set"
  sy_drain :: "nat list"
  sy_next :: nat
  sy_stops :: nat
  sy_shut :: "nat list"

definition sys_init :: sys where
  "sys_init = \<lparr>sy_pool = newConnPool, sy_pc = (\<lambda>_. Idle), sy_held = 0, sy_open = {}, sy_drain = [],
     sy_next = 0, sy_stops = 0, sy_shut = []\<rparr>"

definition set_pc :: "nat \<Rightarrow> nat pc \<Rightarrow> sys \<Rightarrow> sys" where
  "set_pc t q s = s\<lparr>sy_pc := (sy_pc s)(t := q)\<rparr>"

definition close_conn :: "nat \<Rightarrow> sys \<Rightarrow> sys" where
  "close_conn c s = s\<lparr>sy_open := sy_open s - {c}, sy_shut := sy_shut s @ [c]\<rparr>"

definition after_take :: "nat taken \<Rightarrow> nat pc" where
  "after_take r = (case r of PoolClosed \<Rightarrow> Leaving | Reuse c \<Rightarrow> Using c | MustDial \<Rightarrow> Dialing)"

definition after_give :: "nat option \<Rightarrow> nat pc" where
  "after_give r = (case r of Some c \<Rightarrow> Closing c | None \<Rightarrow> Leaving)"

inductive pool_step :: "config \<Rightarrow> sys \<Rightarrow> sys \<Rightarrow> bool" for cfg :: config where
  acquire: "sy_pc s t = Idle \<Longrightarrow> int (sy_held s) < cfg_PoolSize cfg \<Longrightarrow>
     pool_step cfg s (set_pc t HasSlot (s\<lparr>sy_held := Suc (sy_held s)\<rparr>))"
| take: "sy_pc s t = HasSlot \<Longrightarrow> pool_take (sy_pool s) = (r, p) \<Longrightarrow>
     pool_step cfg s (set_pc t (after_take r) (s\<lparr>sy_pool := p\<rparr>))"
| dial_ok: "sy_pc s t = Dialing \<Longrightarrow>
     pool_step cfg s (set_pc t (Using (sy_next s))
       (s\<lparr>sy_open := insert (sy_next s) (sy_open s), sy_next := Suc (sy_next s)\<rparr>))"
| dial_fails: "sy_pc s t = Dialing \<Longrightarrow> pool_step cfg s (set_pc t Leaving s)"
| give: "sy_pc s t = Using c \<Longrightarrow> pool_give (sy_pool s) (Some c) healthy now = (closing, p) \<Longrightarrow>
     pool_step cfg s (set_pc t (after_give closing) (s\<lparr>sy_pool := p\<rparr>))"
| close_used: "sy_pc s t = Closing c \<Longrightarrow> pool_step cfg s (set_pc t Leaving (close_conn c s))"
| release: "sy_pc s t = Leaving \<Longrightarrow>
     pool_step cfg s (set_pc t Idle (s\<lparr>sy_held := sy_held s - 1\<rparr>))"
| reap: "pool_reap (cfg_IdleConnTimeout cfg) (sy_pool s) now = (dropped, p) \<Longrightarrow>
     pool_step cfg s (s\<lparr>sy_pool := p, sy_drain := sy_drain s @ dropped\<rparr>)"
| shut: "pool_shut (sy_pool s) = (dropped, stopping, p) \<Longrightarrow>
     pool_step cfg s (s\<lparr>sy_pool := p, sy_drain := sy_drain s @ dropped,
       sy_stops := sy_stops s + (if stopping then 1 else 0)\<rparr>)"
| drain: "sy_drain s = c # cs \<Longrightarrow> pool_step cfg s (close_conn c (s\<lparr>sy_drain := cs\<rparr>))"

inductive reachable :: "config \<Rightarrow> sys \<Rightarrow> bool" for cfg :: config where
  init: "reachable cfg sys_init"
| step: "reachable cfg s \<Longrightarrow> pool_step cfg s s' \<Longrightarrow> reachable cfg s'"

inductive_cases pool_stepE: "pool_step cfg s s'"


section \<open>Invariant\<close>

definition owns :: "nat pc \<Rightarrow> nat option" where
  "owns q = (case q of Using c \<Rightarrow> Some c | Closing c \<Rightarrow> Some c | _ \<Rightarrow> None)"

lemma owns_simps [simp]:
  "owns Idle = None" "owns HasSlot = None" "owns Dialing = None" "owns Leaving = None"
  "owns (Using c) = Some c" "owns (Closing c) = Some c"
  by (simp_all add: owns_def)

text \<open>
  Ownership: \<open>H\<close> lists the connections held by the free list and the drain list, \<open>f\<close> gives what
  each goroutine owns, \<open>N\<close> bounds the identities used so far, \<open>S\<close> logs the closed ones.
\<close>

definition owned :: "nat list \<Rightarrow> (nat \<rightharpoonup> nat) \<Rightarrow> nat set \<Rightarrow> nat \<Rightarrow> nat list \<Rightarrow> bool" where
  "owned H f P N S \<longleftrightarrow> distinct H \<and> inj_on f (dom f) \<and> ran f \<inter> set H = {} \<and> P = set H \<union> ran f
     \<and> P \<inter> set S = {} \<and> P \<union> set S = {..<N} \<and> distinct S"

lemma inj_dom_upd:
  assumes "inj_on f (dom f)" and "c \<notin> ran f"
  shows "inj_on (f(t \<mapsto> c)) (dom (f(t \<mapsto> c)))"
proof (rule inj_onI)
  fix x y
  assume d: "x \<in> dom (f(t \<mapsto> c))" "y \<in> dom (f(t \<mapsto> c))" "(f(t \<mapsto> c)) x = (f(t \<mapsto> c)) y"
  have "f z \<noteq> Some c" for z using assms(2) by (meson ranI)
  then show "x = y" using d inj_onD [OF assms(1), of x y] by (auto split: if_splits)
qed

lemma inj_dom_none: "inj_on f (dom f) \<Longrightarrow> inj_on (f(t := None)) (dom (f(t := None)))"
  by (auto simp: inj_on_def)

lemma ran_none:
  assumes "inj_on f (dom f)" and "f t = Some c"
  shows "ran (f(t := None)) = ran f - {c}"
proof -
  have uniq: "u = t" if "f u = Some c" for u
    using inj_onD [OF assms(1), of u t] assms(2) that by (simp add: domI)
  show ?thesis
  proof (intro equalityI subsetI)
    fix x assume "x \<in> ran (f(t := None))"
    then obtain u where "(f(t := None)) u = Some x" unfolding ran_def by blast
    then have "u \<noteq> t" "f u = Some x" by (simp_all split: if_splits)
    then show "x \<in> ran f - {c}" using uniq [of u] ranI [of f u x] by (cases "x = c") simp_all
  next
    fix x assume "x \<in> ran f - {c}"
    then obtain u where "f u = Some x" "x \<noteq> c" unfolding ran_def by blast
    then have "(f(t := None)) u = Some x" using assms(2) by (cases "u = t") simp_all
    then show "x \<in> ran (f(t := None))" by (rule ranI)
  qed
qed

lemma owned_same: "owned H f P N S \<Longrightarrow> f t = v \<Longrightarrow> owned H (f(t := v)) P N S"
  using fun_upd_idem [of f t v] by simp

lemma owned_perm: "owned H f P N S \<Longrightarrow> mset H' = mset H \<Longrightarrow> owned H' f P N S"
  using mset_eq_imp_distinct_iff [of H' H] mset_eq_setD [of H' H] unfolding owned_def
  by (elim conjE) (intro conjI, simp_all)

lemma owned_lease:
  assumes "owned (c # H) f P N S" and "f t = None"
  shows "owned H (f(t \<mapsto> c)) P N S"
proof -
  have "c \<notin> ran f" using assms(1) by (auto simp: owned_def)
  then show ?thesis using assms inj_dom_upd [of f c t] by (auto simp: owned_def)
qed

lemma owned_return:
  assumes "owned H f P N S" and "f t = Some c"
  shows "owned (c # H) (f(t := None)) P N S"
  using assms inj_dom_none [of f t] ran_none [of f t c] ranI [of f t c] by (auto simp: owned_def)

lemma owned_dial:
  assumes "owned H f P N S" and "f t = None"
  shows "owned H (f(t \<mapsto> N)) (insert N P) (Suc N) S"
proof -
  have P: "P = set H \<union> ran f" "P \<inter> set S = {}" "P \<union> set S = {..<N}" using assms(1) by (auto simp: owned_def)
  then have N: "N \<notin> P" "N \<notin> set S" by auto
  then have fresh: "N \<notin> ran f" "N \<notin> set H" using P(1) by auto
  have ran: "ran (f(t \<mapsto> N)) = insert N (ran f)" using assms(2) by simp
  have inj: "inj_on (f(t \<mapsto> N)) (dom (f(t \<mapsto> N)))"
    using assms(1) fresh(1) by (intro inj_dom_upd) (simp_all add: owned_def)
  have S: "insert N P \<inter> set S = {}" "insert N P \<union> set S = {..<Suc N}"
    using P(2) N(2) P(3) by (simp_all add: lessThan_Suc)
  have H: "insert N (ran f) \<inter> set H = {}" "insert N P = set H \<union> insert N (ran f)"
    using assms(1) fresh(2) by (auto simp: owned_def)
  show ?thesis
    unfolding owned_def ran using assms(1) inj S H by (simp add: owned_def)
qed

lemma owned_close:
  assumes "owned (c # H) f P N S"
  shows "owned H f (P - {c}) N (S @ [c])"
  using assms unfolding owned_def by auto

definition conns_inv :: "sys \<Rightarrow> bool" where
  "conns_inv s \<longleftrightarrow> owned (map fst (pl_free (sy_pool s)) @ sy_drain s) (owns \<circ> sy_pc s)
     (sy_open s) (sy_next s) (sy_shut s)"

lemmas owns_upd = fun_upd_comp [of owns]

lemma conns_take:
  assumes "conns_inv s" and "sy_pc s t = HasSlot" and "pool_take (sy_pool s) = (r, p)"
  shows "conns_inv (set_pc t (after_take r) (s\<lparr>sy_pool := p\<rparr>))"
proof (cases "pl_closed (sy_pool s) \<or> pl_free (sy_pool s) = []")
  case True
  then have "p = sy_pool s" "owns (after_take r) = None"
    using assms(3) by (auto simp: pool_take_def after_take_def split: if_splits)
  then show ?thesis using assms by (simp add: conns_inv_def set_pc_def owns_upd owned_same)
next
  case False
  define c where "c = fst (last (pl_free (sy_pool s)))"
  have r: "r = Reuse c" "pl_free p = butlast (pl_free (sy_pool s))"
    using assms(3) pool_take_free [of "sy_pool s"] False by (auto simp: c_def)
  have "map fst (pl_free (sy_pool s)) = map fst (pl_free p) @ [c]"
    using False by (metis append_butlast_last_id c_def list.simps(8,9) map_append r(2))
  then have "owned (c # map fst (pl_free p) @ sy_drain s) (owns \<circ> sy_pc s) (sy_open s) (sy_next s) (sy_shut s)"
    using assms(1) owned_perm by (fastforce simp: conns_inv_def)
  from owned_lease [OF this, of t] show ?thesis
    using assms(2) r by (simp add: conns_inv_def set_pc_def owns_upd after_take_def)
qed

lemma conns_back:
  assumes "conns_inv s" and "owns (sy_pc s t) = Some c"
  shows "owned (c # map fst (pl_free (sy_pool s)) @ sy_drain s) ((owns \<circ> sy_pc s)(t := None))
    (sy_open s) (sy_next s) (sy_shut s)"
  using assms owned_return by (simp add: conns_inv_def)

lemma conns_give:
  assumes "conns_inv s" and "sy_pc s t = Using c" and "pool_give (sy_pool s) (Some c) healthy now = (closing, p)"
  shows "conns_inv (set_pc t (after_give closing) (s\<lparr>sy_pool := p\<rparr>))"
proof (cases "pl_closed (sy_pool s) \<or> \<not> healthy")
  case True
  then have "p = sy_pool s" "closing = Some c" using assms(3) by (auto simp: pool_give_def)
  then show ?thesis using assms by (simp add: conns_inv_def set_pc_def owns_upd after_give_def owned_same)
next
  case False
  then have r: "pl_free p = pl_free (sy_pool s) @ [(c, now)]" "closing = None"
    using assms(3) by (auto simp: pool_give_def)
  have "owned (map fst (pl_free p) @ sy_drain s) ((owns \<circ> sy_pc s)(t := None)) (sy_open s) (sy_next s) (sy_shut s)"
    by (rule owned_perm [OF conns_back [OF assms(1), of t c]]) (simp_all add: r assms(2))
  then show ?thesis using r by (simp add: conns_inv_def set_pc_def owns_upd after_give_def)
qed

lemma conns_reap:
  assumes "conns_inv s" and "pool_reap idle (sy_pool s) now = (dropped, p)"
  shows "conns_inv (s\<lparr>sy_pool := p, sy_drain := sy_drain s @ dropped\<rparr>)"
proof -
  have "mset (filter (\<lambda>pc. \<not> P pc) xs) + mset (filter P xs) = mset xs" for P and xs :: "(nat \<times> int) list"
    by (simp add: mset_filter add.commute flip: multiset_partition)
  then have "mset (map fst (pl_free p)) + mset dropped = mset (map fst (pl_free (sy_pool s)))"
    using assms(2) by (auto simp: pool_reap_def reap_split simp flip: image_mset_union)
  then show ?thesis using assms(1) by (auto simp: conns_inv_def intro: owned_perm)
qed

lemma conns_inv_step: "pool_step cfg s s' \<Longrightarrow> conns_inv s \<Longrightarrow> conns_inv s'"
proof (induction rule: pool_step.induct)
  case (dial_ok s t)
  then show ?case by (simp add: conns_inv_def set_pc_def owns_upd owned_dial)
next
  case (close_used s t c)
  then have "owned (c # map fst (pl_free (sy_pool s)) @ sy_drain s) ((owns \<circ> sy_pc s)(t := None))
      (sy_open s) (sy_next s) (sy_shut s)" by (intro conns_back) simp_all
  from owned_close [OF this] show ?case by (simp add: conns_inv_def set_pc_def owns_upd close_conn_def)
next
  case (shut s dropped stopping p)
  then show ?case by (auto simp: conns_inv_def pool_shut_def intro: owned_perm split: if_splits)
next
  case (drain s c cs)
  have "owned (c # map fst (pl_free (sy_pool s)) @ cs) (owns \<circ> sy_pc s) (sy_open s) (sy_next s) (sy_shut s)"
    using drain by (auto simp: conns_inv_def intro: owned_perm)
  from owned_close [OF this] show ?case by (simp add: conns_inv_def close_conn_def)
qed (simp_all add: conns_take conns_give conns_reap, simp_all add: conns_inv_def set_pc_def owns_upd owned_same)


text \<open>Slots: \<open>busy\<close> goroutines hold one slot each; \<open>working\<close> ones have or make a connection.\<close>

definition working :: "nat pc \<Rightarrow> bool" where
  "working q = (case q of Dialing \<Rightarrow> True | Using c \<Rightarrow> True | Closing c \<Rightarrow> True | _ \<Rightarrow> False)"

definition count :: "('a \<Rightarrow> bool) \<Rightarrow> (nat \<Rightarrow> 'a) \<Rightarrow> nat" where
  "count P f = card {t. P (f t)}"

lemma working_simps [simp]:
  "\<not> working Idle" "\<not> working HasSlot" "\<not> working Leaving" "working Dialing"
  "working (Using c)" "working (Closing c)"
  by (simp_all add: working_def)

definition slots_inv :: "config \<Rightarrow> sys \<Rightarrow> bool" where
  "slots_inv cfg s \<longleftrightarrow> finite {t. sy_pc s t \<noteq> Idle} \<and> count (\<lambda>q. q \<noteq> Idle) (sy_pc s) = sy_held s
     \<and> int (sy_held s) \<le> cfg_PoolSize cfg
     \<and> int (length (pl_free (sy_pool s)) + count working (sy_pc s)) \<le> cfg_PoolSize cfg"

lemma count_upd:
  assumes "finite {t. P (f t)}"
  shows "finite {u. P ((f(t := q)) u)}"
    and "count P (f(t := q)) + (if P (f t) then 1 else 0) = count P f + (if P q then 1 else 0)"
proof -
  have e: "{u. P ((f(t := q)) u)} = (if P q then insert t ({u. P (f u)} - {t}) else {u. P (f u)} - {t})" by auto
  show "finite {u. P ((f(t := q)) u)}" unfolding e using assms by simp
  have "card ({u. P (f u)} - {t}) + (if P (f t) then 1 else 0) = card {u. P (f u)}"
  proof (cases "P (f t)")
    case True
    then have "t \<in> {u. P (f u)}" by simp
    then have "0 < card {u. P (f u)}" using assms card_gt_0_iff by blast
    then show ?thesis using True \<open>t \<in> _\<close> by (simp add: card_Diff_singleton)
  qed simp
  then show "count P (f(t := q)) + (if P (f t) then 1 else 0) = count P f + (if P q then 1 else 0)"
    unfolding count_def e using assms by (cases "P q") (simp_all del: insert_Diff_single)
qed

lemma working_busy: "{t. working (f t)} \<subseteq> {t. f t \<noteq> Idle}" by (auto simp: working_def split: pc.splits)

lemma slots_pc:
  assumes "slots_inv cfg s"
  shows "finite {u. ((sy_pc s)(t := q)) u \<noteq> Idle}"
    and "count (\<lambda>q. q \<noteq> Idle) ((sy_pc s)(t := q)) + (if sy_pc s t \<noteq> Idle then 1 else 0)
       = sy_held s + (if q \<noteq> Idle then 1 else 0)"
    and "count working ((sy_pc s)(t := q)) + (if working (sy_pc s t) then 1 else 0)
       = count working (sy_pc s) + (if working q then 1 else 0)"
proof -
  have fin: "finite {t. sy_pc s t \<noteq> Idle}" and held: "count (\<lambda>q. q \<noteq> Idle) (sy_pc s) = sy_held s"
    using assms by (simp_all add: slots_inv_def)
  have fin': "finite {t. working (sy_pc s t)}" using finite_subset [OF working_busy fin] .
  show "finite {u. ((sy_pc s)(t := q)) u \<noteq> Idle}" using count_upd(1) [where P = "\<lambda>q. q \<noteq> Idle", OF fin] .
  show "count (\<lambda>q. q \<noteq> Idle) ((sy_pc s)(t := q)) + (if sy_pc s t \<noteq> Idle then 1 else 0)
       = sy_held s + (if q \<noteq> Idle then 1 else 0)"
    using count_upd(2) [where P = "\<lambda>q. q \<noteq> Idle", OF fin, of t q] held by simp
  show "count working ((sy_pc s)(t := q)) + (if working (sy_pc s t) then 1 else 0)
       = count working (sy_pc s) + (if working q then 1 else 0)"
    using count_upd(2) [where P = working, OF fin', of t q] .
qed

lemma slots_bounds:
  "slots_inv cfg s \<Longrightarrow> int (sy_held s) \<le> cfg_PoolSize cfg
     \<and> int (length (pl_free (sy_pool s)) + count working (sy_pc s)) \<le> cfg_PoolSize cfg"
  by (simp add: slots_inv_def)

lemma slots_pos: "slots_inv cfg s \<Longrightarrow> sy_pc s t \<noteq> Idle \<Longrightarrow> 0 < sy_held s"
  using card_gt_0_iff [of "{t. sy_pc s t \<noteq> Idle}"] by (auto simp: slots_inv_def count_def)

lemma busy_working:
  assumes "slots_inv cfg s" and "sy_pc s t = HasSlot"
  shows "Suc (count working (sy_pc s)) \<le> sy_held s"
proof -
  have "{u. working (sy_pc s u)} \<subset> {u. sy_pc s u \<noteq> Idle}"
  proof (rule psubsetI [OF working_busy])
    have "t \<in> {u. sy_pc s u \<noteq> Idle}" "t \<notin> {u. working (sy_pc s u)}" using assms(2) by simp_all
    then show "{u. working (sy_pc s u)} \<noteq> {u. sy_pc s u \<noteq> Idle}" by blast
  qed
  then have "card {u. working (sy_pc s u)} < card {u. sy_pc s u \<noteq> Idle}"
    using assms(1) by (intro psubset_card_mono) (simp_all add: slots_inv_def)
  then show ?thesis using assms(1) by (simp add: slots_inv_def count_def)
qed

text \<open>A step of one goroutine keeps the slots if its free connections and working goroutines stay in balance.\<close>

lemma slots_move:
  assumes "slots_inv cfg s" and "sy_pc s t \<noteq> Idle" and "q \<noteq> Idle"
    and "sy_pc s' = (sy_pc s)(t := q)" and "sy_held s' = sy_held s"
    and "length (pl_free (sy_pool s')) + (if working q then 1 else 0)
       \<le> length (pl_free (sy_pool s)) + (if working (sy_pc s t) then 1 else 0)"
  shows "slots_inv cfg s'"
  using slots_bounds [OF assms(1)] slots_pc [OF assms(1), of t q] assms(2-6)
  by (simp add: slots_inv_def split: if_splits)

lemma slots_take:
  assumes "slots_inv cfg s" and "sy_pc s t = HasSlot" and "pool_take (sy_pool s) = (r, p)"
  shows "slots_inv cfg (set_pc t (after_take r) (s\<lparr>sy_pool := p\<rparr>))"
proof -
  note pcs = slots_bounds [OF assms(1)] slots_pc [OF assms(1), where t = t and q = "after_take r"]
    and b = busy_working [OF assms(1,2)]
  consider "p = sy_pool s" "r = PoolClosed" | "p = sy_pool s" "r = MustDial" "pl_free p = []"
    | c where "r = Reuse c" "length (pl_free (sy_pool s)) = Suc (length (pl_free p))"
    using assms(3) by (auto simp: pool_take_def Let_def split: if_splits)
  then show ?thesis
    by cases (use pcs b assms(2) in \<open>simp_all add: slots_inv_def set_pc_def after_take_def del: fun_upd_apply\<close>)
qed

lemma slots_inv_step: "pool_step cfg s s' \<Longrightarrow> slots_inv cfg s \<Longrightarrow> slots_inv cfg s'"
proof (induction rule: pool_step.induct)
  case (acquire s t)
  then show ?case
    using slots_bounds [OF acquire.prems] slots_pc [OF acquire.prems, where t = t and q = HasSlot]
    by (simp add: slots_inv_def set_pc_def del: fun_upd_apply)
next
  case (give s t c healthy now closing p)
  have "length (pl_free p) + (if working (after_give closing) then 1 else 0) \<le> Suc (length (pl_free (sy_pool s)))"
    "after_give closing \<noteq> Idle"
    using give.hyps(2) by (auto simp: pool_give_def after_give_def split: option.split)
  then show ?case by (intro slots_move [OF give.prems, of t "after_give closing"]) (simp_all add: set_pc_def give.hyps)
next
  case (release s t)
  then show ?case
    using slots_pos [OF release.prems, of t] slots_bounds [OF release.prems]
      slots_pc [OF release.prems, where t = t and q = Idle] by (simp add: slots_inv_def set_pc_def del: fun_upd_apply)
next
  case (reap s now dropped p)
  have "length (pl_free p) \<le> length (pl_free (sy_pool s))"
    using reap.hyps by (auto simp: pool_reap_def reap_split)
  then show ?case using reap.prems by (simp add: slots_inv_def)
next
  case (shut s dropped stopping p)
  have "length (pl_free p) \<le> length (pl_free (sy_pool s))"
    using shut.hyps by (auto simp: pool_shut_def split: if_splits)
  then show ?case using shut.prems by (simp add: slots_inv_def)
next
  case (drain s c cs)
  then show ?case by (simp add: slots_inv_def close_conn_def)
next
  case (take s t r p)
  then show ?case using slots_take by blast
next
  case (dial_ok s t)
  then show ?case by (intro slots_move [OF dial_ok.prems, of t "Using (sy_next s)"]) (simp_all add: set_pc_def)
next
  case (dial_fails s t)
  then show ?case by (intro slots_move [OF dial_fails.prems, of t Leaving]) (simp_all add: set_pc_def)
next
  case (close_used s t c)
  then show ?case by (intro slots_move [OF close_used.prems, of t Leaving]) (simp_all add: set_pc_def close_conn_def)
qed

definition closed_inv :: "sys \<Rightarrow> bool" where
  "closed_inv s \<longleftrightarrow> (pl_closed (sy_pool s) \<longrightarrow> pl_free (sy_pool s) = [])
     \<and> sy_stops s = (if pl_closed (sy_pool s) then 1 else 0)"

lemma closed_inv_step: "pool_step cfg s s' \<Longrightarrow> closed_inv s \<Longrightarrow> closed_inv s'"
  by (induction rule: pool_step.induct)
    (auto simp: closed_inv_def set_pc_def close_conn_def pool_take_def pool_give_def pool_reap_def
      pool_shut_def reap_split Let_def split: if_splits)

theorem reachable_inv:
  "reachable cfg s \<Longrightarrow> 0 \<le> cfg_PoolSize cfg \<Longrightarrow> conns_inv s \<and> slots_inv cfg s \<and> closed_inv s"
proof (induction rule: reachable.induct)
  case init
  have none: "(owns \<circ> (\<lambda>_. Idle)) = Map.empty" by (simp add: fun_eq_iff)
  have "owned [] (owns \<circ> (\<lambda>_. Idle)) {} 0 []" unfolding none by (simp add: owned_def)
  then show ?case
    using init by (simp add: sys_init_def conns_inv_def slots_inv_def closed_inv_def newConnPool_def count_def)
next
  case (step s s')
  then show ?case using conns_inv_step slots_inv_step closed_inv_step by blast
qed

lemma lease_owner:
  assumes "conns_inv s" and "owns (sy_pc s t) = Some c"
  shows "c \<notin> fst ` set (pl_free (sy_pool s))" and "c \<notin> set (sy_drain s)" and "c \<in> sy_open s"
    and "owns (sy_pc s u) = Some c \<Longrightarrow> u = t"
proof -
  have o: "owned (map fst (pl_free (sy_pool s)) @ sy_drain s) (owns \<circ> sy_pc s) (sy_open s) (sy_next s) (sy_shut s)"
    using assms(1) by (simp add: conns_inv_def)
  have t: "(owns \<circ> sy_pc s) t = Some c" using assms(2) by simp
  then have "c \<in> ran (owns \<circ> sy_pc s)" by (rule ranI)
  then show "c \<notin> fst ` set (pl_free (sy_pool s))" "c \<notin> set (sy_drain s)" "c \<in> sy_open s"
    using o by (auto simp: owned_def)
  have "inj_on (owns \<circ> sy_pc s) (dom (owns \<circ> sy_pc s))" using o by (simp add: owned_def)
  then show "u = t" if "owns (sy_pc s u) = Some c"
    using that t by (intro inj_onD [where f = "owns \<circ> sy_pc s"]) auto
qed

section \<open>Properties\<close>

text \<open>
  C11. Exclusive lease: in every reachable state a connection in use is open, belongs to
  one goroutine only, and is neither in the free list nor about to be closed by the reaper
  or by \<open>close\<close>.
\<close>
theorem pool_exclusive:
  assumes "reachable cfg s" and "0 \<le> cfg_PoolSize cfg" and "sy_pc s t = Using c"
  shows "c \<in> sy_open s \<and> c \<notin> fst ` set (pl_free (sy_pool s)) \<and> c \<notin> set (sy_drain s)
    \<and> (\<forall>u. sy_pc s u = Using c \<or> sy_pc s u = Closing c \<longrightarrow> u = t)"
proof -
  have c: "conns_inv s" using reachable_inv [OF assms(1,2)] by blast
  have "owns (sy_pc s t) = Some c" using assms(3) by simp
  from lease_owner [OF c this] show ?thesis by (metis owns_simps(5,6))
qed

text \<open>
  C29. Bounds: the slots taken are exactly the busy goroutines and never more than the
  pool size, so the semaphore is never over-released; and free connections together with
  those in use or being dialed never exceed the pool size either.
\<close>
theorem pool_bounded:
  assumes "reachable cfg s" and "0 \<le> cfg_PoolSize cfg"
  shows "card {t. sy_pc s t \<noteq> Idle} = sy_held s \<and> int (sy_held s) \<le> cfg_PoolSize cfg
    \<and> (\<forall>t. sy_pc s t = Leaving \<longrightarrow> 0 < sy_held s)
    \<and> int (length (pl_free (sy_pool s)) + card {t. working (sy_pc s t)}) \<le> cfg_PoolSize cfg"
proof -
  have "slots_inv cfg s" using reachable_inv [OF assms] by blast
  moreover from slots_pos [OF this] have "\<forall>t. sy_pc s t = Leaving \<longrightarrow> 0 < sy_held s" by fastforce
  ultimately show ?thesis by (simp add: slots_inv_def count_def)
qed

text \<open>
  No leak and no double close: every connection ever dialed is either open with one
  known owner or has been closed, exactly once. \<open>stop\<close> is closed at most once. After
  \<open>close\<close>, when all goroutines are done and the drained connections are closed, no
  connection is left open.
\<close>
theorem pool_no_leak:
  assumes "reachable cfg s" and "0 \<le> cfg_PoolSize cfg"
  shows "sy_open s \<union> set (sy_shut s) = {..<sy_next s} \<and> sy_open s \<inter> set (sy_shut s) = {}
    \<and> distinct (sy_shut s) \<and> sy_stops s \<le> 1
    \<and> (pl_closed (sy_pool s) \<and> (\<forall>t. sy_pc s t = Idle) \<and> sy_drain s = [] \<longrightarrow> sy_open s = {})"
proof -
  have o: "owned (map fst (pl_free (sy_pool s)) @ sy_drain s) (owns \<circ> sy_pc s) (sy_open s) (sy_next s) (sy_shut s)"
    and c: "closed_inv s"
    using reachable_inv [OF assms] by (simp_all add: conns_inv_def)
  have "sy_open s = {}" if "pl_closed (sy_pool s)" "\<forall>t. sy_pc s t = Idle" "sy_drain s = []"
  proof -
    have "ran (owns \<circ> sy_pc s) = {}" using that(2) by (simp add: ran_def)
    moreover have "pl_free (sy_pool s) = []" using c that(1) by (simp add: closed_inv_def)
    ultimately show ?thesis using o that(3) by (simp add: owned_def)
  qed
  then show ?thesis using o c by (auto simp: owned_def closed_inv_def)
qed

text \<open>One goroutine dials, fetches and returns its connection; then the pool closes.\<close>

definition sample_using :: sys where
  "sample_using = set_pc 0 (Using 0) (set_pc 0 Dialing (set_pc 0 HasSlot (sys_init\<lparr>sy_held := 1\<rparr>))
     \<lparr>sy_open := {0}, sy_next := 1\<rparr>)"

lemma sample_reachable: "reachable DefaultConfig sample_using"
proof -
  have 1: "reachable DefaultConfig (set_pc 0 HasSlot (sys_init\<lparr>sy_held := 1\<rparr>))" (is "reachable _ ?s1")
    using reachable.step [OF reachable.init pool_step.acquire [of sys_init 0 DefaultConfig]]
    by (simp add: sys_init_def DefaultConfig_def)
  have 2: "reachable DefaultConfig (set_pc 0 Dialing ?s1)" (is "reachable _ ?s2")
    using reachable.step [OF 1 pool_step.take [of ?s1 0 MustDial newConnPool]]
    by (simp add: sys_init_def set_pc_def pool_take_def newConnPool_def after_take_def)
  show ?thesis
    using reachable.step [OF 2 pool_step.dial_ok [of ?s2 0]]
    by (simp add: sample_using_def sys_init_def set_pc_def)
qed

theorem pool_exclusive_witness: "(0::nat) \<in> sy_open sample_using"
  by (rule conjunct1, rule pool_exclusive [OF sample_reachable, of 0])
    (simp_all add: DefaultConfig_def sample_using_def set_pc_def)

theorem pool_bounded_witness:
  "int (sy_held sample_using) \<le> 8"
  using pool_bounded [OF sample_reachable] by (simp add: DefaultConfig_def)

theorem pool_no_leak_witness:
  "sy_open sample_using \<union> set (sy_shut sample_using) = {..<sy_next sample_using}"
  using pool_no_leak [OF sample_reachable] by (simp add: DefaultConfig_def)

end
