(* ===== verification/Client.thy ===== *)
theory Client
  imports Cache Pool
begin

text \<open>
  \<open>client.go\<close>: the public client, composed of the pool (\<open>Pool\<close>), the connections
  (\<open>Conn\<close>) and the cache (\<open>Cache\<close>) as the code composes them. A call takes, besides its
  arguments, what it observes: clock readings, the semaphore's error if the context is
  done, the dial attempts, the connection's reads and writes.

  One call runs against the client state it finds; the interleaving of several calls at the
  pool is the subject of \<open>Pool\<close>. In \<open>FetchMulti\<close> the goroutines finish in any order: the
  list \<open>jobs\<close> is in the order in which they lock the result.
\<close>

section \<open>Acquire and release\<close>

definition acquire :: "config \<Rightarrow> string option \<Rightarrow> (nat \<Rightarrow> attempt) \<Rightarrow> conn pool
    \<Rightarrow> (conn option \<times> tv_error option) \<times> conn pool" where
  "acquire cfg sem as p =
     (case sem of
        Some e \<Rightarrow> ((None, Some (newErr CodeUpstreamTimeout ''pool acquire canceled'' (Some e))), p)
      | None \<Rightarrow>
          (case pool_take p of
             (PoolClosed, p') \<Rightarrow> ((None, Some (newErr CodeClosed ''pool closed'' None)), p')
           | (Reuse c, p') \<Rightarrow> ((Some c, None), p')
           | (MustDial, p') \<Rightarrow> (fst (dial cfg as), p')))"

text \<open>\<open>release\<close>: the pool afterwards, and the connections it closes.\<close>

definition release :: "conn pool \<Rightarrow> conn option \<Rightarrow> bool \<Rightarrow> int \<Rightarrow> conn pool \<times> conn list" where
  "release p c healthy now =
     (case pool_give p c healthy now of
        (Some x, p') \<Rightarrow> (p', (case close (Some x) of Some y \<Rightarrow> [y] | None \<Rightarrow> []))
      | (None, p') \<Rightarrow> (p', []))"

section \<open>The client\<close>

definition defaultBars :: int where
  "defaultBars = 300"

definition maxBars :: int where
  "maxBars = 5000"

record client =
  cl_cfg :: config
  cl_pool :: "conn pool"
  cl_cache :: "lru_cache option"
  cl_httpTimeout :: int
  cl_closed :: bool

definition New :: "config \<Rightarrow> client" where
  "New cfg0 = (let cfg = withDefaults cfg0 in
     \<lparr>cl_cfg = cfg, cl_pool = newConnPool,
      cl_cache = (if cfg_EnableCache cfg then Some (newCache (cfg_CacheSize cfg)) else None),
      cl_httpTimeout = cfg_SearchTimeout cfg + 5 * second, cl_closed = False\<rparr>)"

text \<open>\<open>Close\<close>: the connections it closes.\<close>

definition Close :: "client \<Rightarrow> conn list \<times> client" where
  "Close cl =
     (if cl_closed cl then ([], cl)
      else case pool_shut (cl_pool cl) of
        (conns, _, p) \<Rightarrow> (List.map_filter (\<lambda>c. close (Some c)) conns, cl\<lparr>cl_closed := True, cl_pool := p\<rparr>))"

definition isClosed :: "client \<Rightarrow> bool" where
  "isClosed cl = cl_closed cl"

record once_io =
  oi_sem :: "string option"
  oi_dial :: "nat \<Rightarrow> attempt"
  oi_fetch :: fetch_io
  oi_now :: int

text \<open>
  \<open>fetchOnce\<close>: the result, the pool, the connections it closed. The pair a nil connection
  and a nil error cannot come out of \<open>acquire\<close>; dereferencing the nil would panic.
\<close>

definition fetchOnce :: "config \<Rightarrow> once_io \<Rightarrow> conn pool \<Rightarrow> string \<Rightarrow> string \<Rightarrow> int
    \<Rightarrow> (tv_error + candle list) outcome \<times> conn pool \<times> conn list" where
  "fetchOnce cfg io p sy res bars =
     (case acquire cfg (oi_sem io) (oi_dial io) p of
        ((_, Some err), p1) \<Rightarrow> (Done (Inl err), p1, [])
      | ((None, None), p1) \<Rightarrow> (Panicked, p1, [])
      | ((Some conn, None), p1) \<Rightarrow>
          (case fetchSeries cfg (oi_fetch io) sy res bars conn of
             (Done (Inl err), conn') \<Rightarrow> (Done (Inl err), release p1 (Some conn') False (oi_now io))
           | (Done (Inr candles), conn') \<Rightarrow> (Done (Inr candles), release p1 (Some conn') True (oi_now io))
           | (Panicked, conn') \<Rightarrow> (Panicked, p1, [])
           | (Waiting, conn') \<Rightarrow> (Waiting, p1, [])))"

record fetch_env =
  fe_get :: int
  fe_once :: once_io
  fe_at :: int
  fe_since :: int
  fe_put :: int

text \<open>\<open>Duration.Milliseconds\<close>: integer division towards zero.\<close>

definition to_milliseconds :: "int \<Rightarrow> int" where
  "to_milliseconds d = (if 0 \<le> d then d div 1000000 else - (- d div 1000000))"

definition cache_lookup :: "client \<Rightarrow> string \<Rightarrow> int \<Rightarrow> chart_data option \<times> client" where
  "cache_lookup cl key now =
     (case cl_cache cl of
        None \<Rightarrow> (None, cl)
      | Some c \<Rightarrow> (let (hit, c') = lruGet c key now in (hit, cl\<lparr>cl_cache := Some c'\<rparr>)))"

definition cache_store :: "client \<Rightarrow> string \<Rightarrow> string \<Rightarrow> chart_data \<Rightarrow> int \<Rightarrow> client" where
  "cache_store cl key res dat now =
     (case cl_cache cl of
        None \<Rightarrow> cl
      | Some c \<Rightarrow>
          (case Option.bind (cfg_CacheTTLs (cl_cfg cl)) (\<lambda>m. m res) of
             None \<Rightarrow> cl
           | Some ttl \<Rightarrow> cl\<lparr>cl_cache := Some (lruPut c key (Some dat) ttl now)\<rparr>))"

definition fetch_miss :: "client \<Rightarrow> fetch_env \<Rightarrow> string \<Rightarrow> string \<Rightarrow> int
    \<Rightarrow> (tv_error + chart_data) outcome \<times> client" where
  "fetch_miss cl env sy res bars =
     (let key = makeCacheKey sy res bars in
      case fetchOnce (cl_cfg cl) (fe_once env) (cl_pool cl) sy res bars of
        (Waiting, p, _) \<Rightarrow> (Waiting, cl\<lparr>cl_pool := p\<rparr>)
      | (Panicked, p, _) \<Rightarrow> (Panicked, cl\<lparr>cl_pool := p\<rparr>)
      | (Done (Inl err), p, _) \<Rightarrow> (Done (Inl err), cl\<lparr>cl_pool := p\<rparr>)
      | (Done (Inr candles), p, _) \<Rightarrow>
          (let out = \<lparr>cd_Symbol = sy, cd_Resolution = res, cd_Candles = candles, cd_FetchedAt = fe_at env,
                 cd_Cached = False, cd_LatencyMs = to_milliseconds (fe_since env)\<rparr>
           in (Done (Inr out), cache_store (cl\<lparr>cl_pool := p\<rparr>) key res out (fe_put env))))"

definition Fetch :: "unicode \<Rightarrow> client \<Rightarrow> fetch_env \<Rightarrow> string \<Rightarrow> string \<Rightarrow> int
    \<Rightarrow> (tv_error + chart_data) outcome \<times> client" where
  "Fetch U cl env symbol resolution bars0 =
     (if isClosed cl then (Done (Inl (newErr CodeClosed ''client closed'' None)), cl)
      else
        let sy = NormalizeSymbol U symbol in
        if sy = '''' then (Done (Inl (newErr CodeSymbolUnknown ''symbol is empty'' None)), cl)
        else (case NormalizeResolution U resolution of
            None \<Rightarrow> (Done (Inl (newErr CodeInvalidResolution (''unknown resolution: '' @ resolution) None)), cl)
          | Some res \<Rightarrow>
              let bars = (if bars0 \<le> 0 then defaultBars else bars0) in
              if maxBars < bars
              then (Done (Inl (newErr CodeInvalidBars ''bars exceeds max (5000)'' None)), cl)
              else (case cache_lookup cl (makeCacheKey sy res bars) (fe_get env) of
                  (Some hit, cl') \<Rightarrow> (Done (Inr hit), cl')
                | (None, cl') \<Rightarrow> fetch_miss cl' env sy res bars)))"

section \<open>Several resolutions\<close>

definition multi_empty :: "string \<Rightarrow> multi_chart_data" where
  "multi_empty sy = \<lparr>md_Symbol = sy, md_Slabs = [], md_Errors = Some [], md_FetchedAt = 0, md_LatencyMs = 0\<rparr>"

text \<open>What one goroutine does under the lock, given the result of its \<open>Fetch\<close>.\<close>

definition multi_collect :: "string \<times> (tv_error + chart_data) \<Rightarrow> multi_chart_data \<Rightarrow> multi_chart_data" where
  "multi_collect job out =
     (case job of
        (r, Inl err) \<Rightarrow> out\<lparr>md_Errors := map_option (assoc_put r (error_string (Some err))) (md_Errors out)\<rparr>
      | (r, Inr d) \<Rightarrow> out\<lparr>md_Slabs := assoc_put (cd_Resolution d) (Some d) (md_Slabs out)\<rparr>)"

text \<open>
  \<open>FetchMulti\<close>, and its part from the start of the goroutines on. A job is one goroutine: its resolution and the client state and environment
  its \<open>Fetch\<close> finds. The list has them in the order in which they lock the result;
  \<open>g.Wait\<close> returns when all have.
\<close>

type_synonym job = "string \<times> client \<times> fetch_env"

definition job_result :: "unicode \<Rightarrow> string \<Rightarrow> int \<Rightarrow> job \<Rightarrow> string \<times> (tv_error + chart_data) outcome" where
  "job_result U symbol barsPer j =
     (case j of (r, cl, env) \<Rightarrow> (r, fst (Fetch U cl env symbol r barsPer)))"

fun collect_jobs :: "(string \<times> (tv_error + chart_data) outcome) list \<Rightarrow> multi_chart_data
    \<Rightarrow> multi_chart_data outcome" where
  "collect_jobs [] out = Done out"
| "collect_jobs ((r, Done x) # js) out = collect_jobs js (multi_collect (r, x) out)"
| "collect_jobs ((r, Panicked) # js) out = Panicked"
| "collect_jobs ((r, Waiting) # js) out = Waiting"

definition multi_finish :: "string \<Rightarrow> (string \<times> (tv_error + chart_data) outcome) list \<Rightarrow> int \<Rightarrow> int
    \<Rightarrow> multi_chart_data outcome" where
  "multi_finish sy outcomes now since =
     (case collect_jobs outcomes (multi_empty sy) of
        Waiting \<Rightarrow> Waiting
      | Panicked \<Rightarrow> Panicked
      | Done out \<Rightarrow>
          (let out = out\<lparr>md_FetchedAt := now, md_LatencyMs := to_milliseconds since\<rparr>
           in Done (if md_Errors out = Some [] then out\<lparr>md_Errors := None\<rparr> else out)))"

definition FetchMulti :: "unicode \<Rightarrow> client \<Rightarrow> string \<Rightarrow> string list \<Rightarrow> int \<Rightarrow> job list
    \<Rightarrow> int \<Rightarrow> int \<Rightarrow> (tv_error + multi_chart_data) outcome" where
  "FetchMulti U cl symbol resolutions barsPer jobs now since =
     (if isClosed cl then Done (Inl (newErr CodeClosed ''client closed'' None))
      else if resolutions = []
      then Done (Inl (newErr CodeInvalidResolution ''no resolutions provided'' None))
      else case multi_finish (NormalizeSymbol U symbol) (map (job_result U symbol barsPer) jobs) now since of
          Waiting \<Rightarrow> Waiting
        | Panicked \<Rightarrow> Panicked
        | Done out \<Rightarrow> Done (Inr out))"

section \<open>Facts about one fetch\<close>

definition dial_codes :: "string set" where
  "dial_codes = {CodeUpstreamTimeout, CodeUpstreamProtocol, CodeUpstreamHTTP}"

lemma dialOnce_code: "snd (fst (dialOnce cfg a)) = Some e \<Longrightarrow> e_Code e \<in> dial_codes"
  by (auto simp: dialOnce_def authenticate_def dial_codes_def split: option.splits prod.splits sum.splits if_splits)

lemma dial_from_code:
  "snd (fst (dial_from cfg as n err)) = Some e \<Longrightarrow> (\<And>x. err = Some x \<Longrightarrow> e_Code x \<in> dial_codes)
   \<Longrightarrow> e_Code e \<in> dial_codes"
proof (induction "3 - n" arbitrary: n err)
  case 0
  then show ?case using dial_from_steps(1) [of n cfg as err] by simp
next
  case (Suc m)
  then have n: "n < 3" and m: "m = 3 - Suc n" by simp_all
  show ?case
  proof (cases "cancelled as n")
    case True
    then show ?thesis using dial_from_steps(2) [OF n, of as cfg err] Suc.prems by (auto simp: dial_codes_def)
  next
    case go: False
    obtain c e' ev where once: "dialOnce cfg (as n) = ((c, e'), ev)" by (metis surj_pair)
    show ?thesis
    proof (cases c)
      case None
      then show ?thesis
        using Suc.hyps(1) [OF m, of e'] Suc.prems(1) dial_from_steps(4) [OF n go, of cfg e' ev err] once
          dialOnce_code [of cfg "as n"] by simp
    next
      case (Some x)
      then show ?thesis using dial_from_steps(3) [OF n go, of cfg x e' ev err] once Suc.prems by simp
    qed
  qed
qed

lemma acquire_err: "snd (fst (acquire cfg sem as p)) = Some e \<Longrightarrow> e_Code e \<in> insert CodeClosed dial_codes"
  using dial_from_code [of cfg as 0 None e]
  by (auto simp: acquire_def dial_def dial_codes_def split: option.splits taken.splits prod.splits)

definition network_codes :: "string set" where
  "network_codes = {CodeUpstreamTimeout, CodeUpstreamProtocol, CodeUpstreamHTTP, CodeSymbolUnknown, CodeClosed}"

lemma fetchOnce_ok:
  assumes "fetchOnce cfg io p sy res bars = (Done r, q, cs)"
  shows "case r of Inl e \<Rightarrow> e_Code e \<in> network_codes | Inr candles \<Rightarrow> candles \<noteq> []"
proof -
  obtain c err p1 where a: "acquire cfg (oi_sem io) (oi_dial io) p = ((c, err), p1)" by (metis surj_pair)
  show ?thesis
  proof (cases err)
    case (Some e)
    then show ?thesis
      using assms a acquire_err [of cfg "oi_sem io" "oi_dial io" p e]
      by (cases c) (auto simp: fetchOnce_def network_codes_def dial_codes_def)
  next
    case None
    then obtain conn where c: "c = Some conn" using assms a by (cases c) (auto simp: fetchOnce_def)
    obtain r' conn' where f: "fetchSeries cfg (oi_fetch io) sy res bars conn = (r', conn')" by (metis surj_pair)
    have "r' = Done r" using assms a None c f by (auto simp: fetchOnce_def split: outcome.splits sum.splits)
    then show ?thesis
      using fetchSeries_ok [of cfg "oi_fetch io" sy res bars conn] f
      by (auto simp: fetch_result_ok_def fetch_codes_def network_codes_def split: sum.splits)
  qed
qed

text \<open>
  A pooled connection that has broken while idle is lent out all the same: nothing on the way
  checks it, and the fetch that gets it fails without dialing another.
\<close>

lemma broken_conn_fails_fetch:
  assumes "oi_sem io = None" and "\<not> pl_closed p" and "pl_free p = ps @ [(c, since)]"
    and "fi_write (oi_fetch io) (length (cn_sent c)) = Some e"
  shows "\<exists>cs. fetchOnce cfg io p sy res bars =
    (Done (Inl (newErr CodeUpstreamProtocol ''create chart session'' (Some e))), p\<lparr>pl_free := ps\<rparr>, cs)"
proof -
  have "pool_take p = (Reuse c, p\<lparr>pl_free := ps\<rparr>)" using assms(2,3) pool_take_free [of p] by simp
  then show ?thesis
    using assms(1,2,4)
    by (simp add: fetchOnce_def acquire_def fetchSeries_def send_def ws_write_def release_def pool_give_def close_def)
qed

section \<open>Invariant\<close>

text \<open>
  What the cache holds under a key is an answer to the request the key stands for.
\<close>

definition keyed :: "string \<Rightarrow> chart_data \<Rightarrow> bool" where
  "keyed k d \<longleftrightarrow> (\<exists>n. k = makeCacheKey (cd_Symbol d) (cd_Resolution d) n)
     \<and> cd_Resolution d \<in> set wire_forms \<and> cd_Candles d \<noteq> []"

definition client_inv :: "client \<Rightarrow> bool" where
  "client_inv cl \<longleftrightarrow> config_ok (cl_cfg cl) \<and>
     (\<forall>c. cl_cache cl = Some c \<longrightarrow> cache_inv c \<and> lc_max c = cfg_CacheSize (cl_cfg cl)
        \<and> (\<forall>k d x. cache_view c k = Some (d, x) \<longrightarrow> keyed k d))"

lemma client_inv_new: "client_inv (New cfg)"
proof -
  have ok: "config_ok (withDefaults cfg)" by (rule withDefaults_config_ok)
  then have "cache_inv (newCache (cfg_CacheSize (withDefaults cfg)))"
    by (intro cache_inv_new) (simp add: config_ok_def)
  moreover have "lc_max (newCache n) = n" "cache_view (newCache n) k = None" for n k
    by (simp_all add: cache_view_def cache_abs_def newCache_def)
  ultimately show ?thesis using ok by (simp add: client_inv_def New_def Let_def)
qed

lemma client_inv_pool: "client_inv cl \<Longrightarrow> client_inv (cl\<lparr>cl_pool := p\<rparr>)"
  by (simp add: client_inv_def)

lemma cache_lookup_inv:
  assumes "client_inv cl"
  shows "client_inv (snd (cache_lookup cl key now))"
    and "fst (cache_lookup cl key now) = Some d \<Longrightarrow> keyed key (d\<lparr>cd_Cached := b\<rparr>)"
    and "cl_cfg (snd (cache_lookup cl key now)) = cl_cfg cl"
proof -
  show "cl_cfg (snd (cache_lookup cl key now)) = cl_cfg cl"
    by (simp add: cache_lookup_def case_prod_unfold Let_def split: option.splits)
  show "client_inv (snd (cache_lookup cl key now))"
  proof (cases "cl_cache cl")
    case (Some c)
    then have c: "cache_inv c" "lc_max c = cfg_CacheSize (cl_cfg cl)"
      "\<And>k d x. cache_view c k = Some (d, x) \<Longrightarrow> keyed k d"
      using assms by (auto simp: client_inv_def)
    then show ?thesis
      using assms Some lru.get_inv [OF c(1), of key now] lruGet_refines(4) [OF c(1), of key now]
        lru.get_view [OF c(1), of key now]
      by (auto simp: client_inv_def cache_lookup_def case_prod_unfold Let_def)
  qed (use assms in \<open>simp add: cache_lookup_def\<close>)
  assume hit: "fst (cache_lookup cl key now) = Some d"
  then obtain c where c: "cl_cache cl = Some c" "fst (lruGet c key now) = Some d"
    by (auto simp: cache_lookup_def case_prod_unfold Let_def split: option.splits)
  then have inv: "cache_inv c" using assms by (simp add: client_inv_def)
  from lru.get_result [OF inv, of key now] c(2) obtain d0 x where "cache_view c key = Some (d0, x)" "d = mark_cached d0"
    by (auto split: option.splits if_splits)
  moreover from this c(1) assms have "keyed key d0" by (auto simp: client_inv_def)
  ultimately show "keyed key (d\<lparr>cd_Cached := b\<rparr>)" by (simp add: keyed_def mark_cached_def)
qed

lemma cache_store_inv:
  assumes "client_inv cl" and "keyed key d"
  shows "client_inv (cache_store cl key res d now)"
proof (cases "cl_cache cl")
  case (Some c)
  then have c: "cache_inv c" "lc_max c = cfg_CacheSize (cl_cfg cl)"
    "\<And>k d x. cache_view c k = Some (d, x) \<Longrightarrow> keyed k d"
    using assms by (auto simp: client_inv_def)
  have "keyed k d'" if "cache_view (lru_store c key d ttl now) k = Some (d', x)" for k d' x ttl
    using lru.put_view [OF c(1) that] c(3) assms(2) by (auto split: if_splits)
  then show ?thesis
    using assms(1) Some c lru.put_inv [OF c(1), of key d _ now] lruPut_refines(3) [OF c(1), of key d _ now]
    by (auto simp: client_inv_def cache_store_def split: option.splits)
qed (use assms in \<open>simp add: cache_store_def\<close>)

lemma fetch_miss_inv:
  assumes "client_inv cl" and "res \<in> set wire_forms"
  shows "client_inv (snd (fetch_miss cl env sy res bars))"
    and "fst (fetch_miss cl env sy res bars) = Done (Inr d) \<Longrightarrow>
       cd_Symbol d = sy \<and> cd_Resolution d = res \<and> cd_Candles d \<noteq> [] \<and> \<not> cd_Cached d"
    and "fst (fetch_miss cl env sy res bars) = Done (Inl e) \<Longrightarrow> e_Code e \<in> network_codes"
proof -
  obtain r p cs where f: "fetchOnce (cl_cfg cl) (fe_once env) (cl_pool cl) sy res bars = (r, p, cs)"
    by (metis surj_pair)
  show "client_inv (snd (fetch_miss cl env sy res bars))"
  proof (cases "\<exists>candles. r = Done (Inr candles)")
    case True
    then obtain candles where r: "r = Done (Inr candles)" by blast
    then have "candles \<noteq> []" using fetchOnce_ok f by fastforce
    then show ?thesis
      using f r assms by (auto simp: fetch_miss_def Let_def keyed_def intro!: cache_store_inv client_inv_pool)
  next
    case False
    then show ?thesis
      using f assms client_inv_pool by (auto simp: fetch_miss_def split: outcome.splits sum.splits)
  qed
  show "cd_Symbol d = sy \<and> cd_Resolution d = res \<and> cd_Candles d \<noteq> [] \<and> \<not> cd_Cached d"
    if "fst (fetch_miss cl env sy res bars) = Done (Inr d)"
    using that f fetchOnce_ok [of "cl_cfg cl" "fe_once env" "cl_pool cl" sy res bars]
    by (auto simp: fetch_miss_def Let_def split: outcome.splits sum.splits)
  show "e_Code e \<in> network_codes" if "fst (fetch_miss cl env sy res bars) = Done (Inl e)"
    using that f fetchOnce_ok [of "cl_cfg cl" "fe_once env" "cl_pool cl" sy res bars]
    by (auto simp: fetch_miss_def Let_def split: outcome.splits sum.splits)
qed

text \<open>The request the arguments of \<open>Fetch\<close> stand for, if they stand for one.\<close>

definition request :: "unicode \<Rightarrow> string \<Rightarrow> string \<Rightarrow> int \<Rightarrow> (string \<times> string \<times> int) option" where
  "request U symbol resolution bars =
     (if NormalizeSymbol U symbol = '''' \<or> maxBars < bars then None
      else map_option (\<lambda>res. (NormalizeSymbol U symbol, res, if bars \<le> 0 then defaultBars else bars))
             (NormalizeResolution U resolution))"

lemma Fetch_request:
  assumes "request U symbol resolution bars = Some (sy, res, n)" and "\<not> cl_closed cl"
  shows "Fetch U cl env symbol resolution bars =
    (case cache_lookup cl (makeCacheKey sy res n) (fe_get env) of
       (Some hit, cl') \<Rightarrow> (Done (Inr hit), cl') | (None, cl') \<Rightarrow> fetch_miss cl' env sy res n)"
    and "res \<in> set wire_forms"
  using assms normalize_range
  by (auto simp: request_def Fetch_def isClosed_def Let_def defaultBars_def maxBars_def split: if_splits)

lemma Fetch_no_request:
  "cl_closed cl \<Longrightarrow> Fetch U cl env symbol resolution bars = (Done (Inl (newErr CodeClosed ''client closed'' None)), cl)"
  "request U symbol resolution bars = None \<Longrightarrow> \<not> cl_closed cl \<Longrightarrow>
   \<exists>e. e_Code e = (if NormalizeSymbol U symbol = '''' then CodeSymbolUnknown
        else if NormalizeResolution U resolution = None then CodeInvalidResolution else CodeInvalidBars)
     \<and> Fetch U cl env symbol resolution bars = (Done (Inl e), cl)"
  by (auto simp: request_def Fetch_def isClosed_def Let_def defaultBars_def maxBars_def split: if_splits)

lemma Fetch_sound:
  assumes inv: "client_inv cl"
  shows "client_inv (snd (Fetch U cl env symbol resolution bars))"
    and "fst (Fetch U cl env symbol resolution bars) = Done (Inr d) \<Longrightarrow>
      \<exists>n. request U symbol resolution bars = Some (cd_Symbol d, cd_Resolution d, n) \<and> cd_Candles d \<noteq> []"
proof -
  have "client_inv (snd (Fetch U cl env symbol resolution bars)) \<and>
    (fst (Fetch U cl env symbol resolution bars) = Done (Inr d) \<longrightarrow>
      (\<exists>n. request U symbol resolution bars = Some (cd_Symbol d, cd_Resolution d, n) \<and> cd_Candles d \<noteq> []))"
  proof (cases "cl_closed cl \<or> request U symbol resolution bars = None")
    case True
    then obtain e where "Fetch U cl env symbol resolution bars = (Done (Inl e), cl)"
      using Fetch_no_request by blast
    then show ?thesis using inv by simp
  next
    case False
    then obtain sy res n where req: "request U symbol resolution bars = Some (sy, res, n)" "\<not> cl_closed cl"
      by (metis option.exhaust prod_cases3)
    note F = Fetch_request [OF req]
    let ?key = "makeCacheKey sy res n"
    obtain hit cl1 where look: "cache_lookup cl ?key (fe_get env) = (hit, cl1)" by (metis surj_pair)
    have inv1: "client_inv cl1" using cache_lookup_inv(1) [OF inv, of ?key "fe_get env"] look by simp
    show ?thesis
    proof (cases hit)
      case (Some h)
      have "keyed ?key h" using cache_lookup_inv(2) [OF inv, of ?key "fe_get env" h "cd_Cached h"] look Some by simp
      then have "cd_Symbol h = sy \<and> cd_Resolution h = res \<and> cd_Candles h \<noteq> []"
        using makeCacheKey_inj [OF _ F(2)] unfolding keyed_def by metis
      then show ?thesis using F(1) look Some inv1 req(1) by auto
    next
      case None
      then show ?thesis
        using F look req(1) fetch_miss_inv(1,2) [OF inv1 F(2), of env sy n] by auto
    qed
  qed
  then show "client_inv (snd (Fetch U cl env symbol resolution bars))"
    "fst (Fetch U cl env symbol resolution bars) = Done (Inr d) \<Longrightarrow>
      \<exists>n. request U symbol resolution bars = Some (cd_Symbol d, cd_Resolution d, n) \<and> cd_Candles d \<noteq> []" by auto
qed


lemma Fetch_codes:
  assumes "\<not> cl_closed cl" and "request U symbol resolution bars \<noteq> None" and inv: "client_inv cl"
    and e: "fst (Fetch U cl env symbol resolution bars) = Done (Inl e)"
  shows "e_Code e \<in> network_codes"
proof -
  from assms(2) obtain sy res n where r: "request U symbol resolution bars = Some (sy, res, n)" by auto
  note F = Fetch_request [OF r assms(1)]
  have i: "client_inv (snd (cache_lookup cl (makeCacheKey sy res n) (fe_get env)))"
    by (rule cache_lookup_inv(1) [OF inv])
  have "fst (fetch_miss (snd (cache_lookup cl (makeCacheKey sy res n) (fe_get env))) env sy res n) = Done (Inl e)"
    using e F(1) by (auto split: prod.splits option.splits)
  then show ?thesis by (rule fetch_miss_inv(3) [OF i F(2)])
qed

definition client_codes :: "string set" where
  "client_codes = network_codes \<union> {CodeInvalidResolution, CodeInvalidBars}"

lemma Fetch_client_codes:
  "client_inv cl \<Longrightarrow> fst (Fetch U cl env symbol resolution bars) = Done (Inl e) \<Longrightarrow> e_Code e \<in> client_codes"
  using Fetch_codes [of cl U symbol resolution bars env e] Fetch_no_request(1) [of cl U env symbol resolution bars]
    Fetch_no_request(2) [of U symbol resolution bars cl env]
  by (fastforce simp: client_codes_def network_codes_def split: if_splits)

lemma FetchMulti_codes:
  "FetchMulti U cl symbol rs barsPer jobs now since = Done (Inl e) \<Longrightarrow> e_Code e \<in> client_codes"
  by (auto simp: FetchMulti_def Let_def client_codes_def network_codes_def split: if_splits outcome.splits)


lemma fetch_miss_stores:
  assumes inv: "client_inv cl" and c: "cl_cache cl = Some c"
    and ttl: "cfg_CacheTTLs (cl_cfg cl) = Some m" "m res = Some ttl" "0 < ttl"
    and f: "fetch_miss cl env sy res n = (Done (Inr d), cl1)"
  shows "\<exists>c1. cl_cache cl1 = Some c1 \<and> cache_inv c1 \<and> cl_closed cl1 = cl_closed cl
    \<and> cache_view c1 (makeCacheKey sy res n) = Some (d, fe_put env + ttl)"
proof -
  have ci: "cache_inv c" "0 < lc_max c" using inv c by (auto simp: client_inv_def config_ok_def)
  let ?c1 = "lruPut c (makeCacheKey sy res n) (Some d) ttl (fe_put env)"
  have "cl_cache cl1 = Some ?c1 \<and> cl_closed cl1 = cl_closed cl"
    using f c ttl by (auto simp: fetch_miss_def cache_store_def Let_def split: prod.splits outcome.splits sum.splits)
  moreover have "cache_view ?c1 (makeCacheKey sy res n) = Some (d, fe_put env + ttl)"
    using lruPut_refines(1) [OF ci(1)] ci(2) ttl(3)
    by (cases "nat (lc_max c)") (simp_all add: cache_view_def spec_put_def)
  ultimately show ?thesis using lruPut_refines(2) [OF ci(1)] by blast
qed

lemma lookup_hit:
  assumes "cl_cache cl = Some c" and "cache_inv c" and "cache_view c key = Some (d, x)" and "now \<le> x"
  shows "\<exists>c'. cache_lookup cl key now = (Some (d\<lparr>cd_Cached := True\<rparr>), cl\<lparr>cl_cache := Some c'\<rparr>)"
  using lru.get_result [OF assms(2), of key now] assms
  by (auto simp: cache_lookup_def case_prod_unfold Let_def mark_cached_def)

section \<open>Facts about several resolutions\<close>

abbreviation slab :: "multi_chart_data \<Rightarrow> string \<Rightarrow> chart_data option option" where
  "slab out k \<equiv> map_of (md_Slabs out) k"

definition err_at :: "multi_chart_data \<Rightarrow> string \<Rightarrow> string option" where
  "err_at out r = Option.bind (md_Errors out) (\<lambda>m. map_of m r)"

lemma collect_steps:
  "slab (multi_collect (r, Inl e) out) k = slab out k"
  "slab (multi_collect (r, Inr d) out) k = (if k = cd_Resolution d then Some (Some d) else slab out k)"
  "md_Errors out \<noteq> None \<Longrightarrow> err_at (multi_collect (r, Inl e) out) k = (if k = r then Some (error_string (Some e)) else err_at out k)"
  "err_at (multi_collect (r, Inr d) out) k = err_at out k"
  "md_Errors out \<noteq> None \<Longrightarrow> md_Errors (multi_collect j out) \<noteq> None"
  by (auto simp: multi_collect_def err_at_def split: prod.split sum.split)

lemma collect_slabs:
  "slab (fold multi_collect js out) k =
     (case List.find (\<lambda>(r, x). case x of Inr d \<Rightarrow> cd_Resolution d = k | Inl _ \<Rightarrow> False) (rev js) of
        Some (r, Inr d) \<Rightarrow> Some (Some d) | _ \<Rightarrow> slab out k)"
proof (induction js rule: rev_induct)
  case (snoc j js)
  obtain r x where j: "j = (r, x)" by (cases j)
  show ?case using snoc unfolding j by (cases x) (auto simp: collect_steps)
qed simp

lemma collect_errors:
  "md_Errors out \<noteq> None \<Longrightarrow> md_Errors (fold multi_collect js out) \<noteq> None \<and>
   err_at (fold multi_collect js out) k =
     (case List.find (\<lambda>(r, x). r = k \<and> isl x) (rev js) of
        Some (r, Inl e) \<Rightarrow> Some (error_string (Some e)) | _ \<Rightarrow> err_at out k)"
proof (induction js rule: rev_induct)
  case (snoc j js)
  obtain r x where j: "j = (r, x)" by (cases j)
  have "md_Errors (fold multi_collect js out) \<noteq> None" using snoc by blast
  then show ?case using snoc unfolding j by (cases x) (auto simp: collect_steps)
qed simp

lemma find_eq_Some:
  "List.find P xs = Some x \<Longrightarrow> x \<in> set xs \<and> P x"
  "x \<in> set xs \<Longrightarrow> P x \<Longrightarrow> \<exists>y. List.find P xs = Some y"
  by (induction xs) (auto split: if_splits)

lemma collected_slab:
  "(\<exists>r d. (r, Inr d) \<in> set js \<and> cd_Resolution d = k) \<Longrightarrow>
   \<exists>r d. (r, Inr d) \<in> set js \<and> cd_Resolution d = k \<and> slab (fold multi_collect js (multi_empty sy)) k = Some (Some d)"
  "(\<nexists>r d. (r, Inr d) \<in> set js \<and> cd_Resolution d = k) \<Longrightarrow> slab (fold multi_collect js (multi_empty sy)) k = None"
proof -
  let ?P = "\<lambda>(r :: string, x :: tv_error + chart_data). case x of Inr d \<Rightarrow> cd_Resolution d = k | Inl _ \<Rightarrow> False"
  note s = collect_slabs [of js "multi_empty sy" k]
  { assume "\<exists>r d. (r, Inr d) \<in> set js \<and> cd_Resolution d = k"
    then obtain r d where h: "(r, Inr d) \<in> set (rev js)" "?P (r, Inr d)" by auto
    from find_eq_Some(2) [where P = ?P, OF h] obtain y where y: "List.find ?P (rev js) = Some y" by blast
    then show "\<exists>r d. (r, Inr d) \<in> set js \<and> cd_Resolution d = k \<and> slab (fold multi_collect js (multi_empty sy)) k = Some (Some d)"
      using find_eq_Some(1) [OF y] s by (auto split: sum.splits) }
  { assume none: "\<nexists>r d. (r, Inr d) \<in> set js \<and> cd_Resolution d = k"
    have "List.find ?P (rev js) = None"
      using none find_eq_Some(1) [of ?P "rev js"] by (cases "List.find ?P (rev js)") (auto split: sum.splits)
    then show "slab (fold multi_collect js (multi_empty sy)) k = None" using s by (simp add: multi_empty_def) }
qed

lemma collected_error:
  "(\<exists>e. (r, Inl e) \<in> set js) \<Longrightarrow>
   \<exists>e. (r, Inl e) \<in> set js \<and> err_at (fold multi_collect js (multi_empty sy)) r = Some (error_string (Some e))"
  "(\<nexists>e. (r, Inl e) \<in> set js) \<Longrightarrow> err_at (fold multi_collect js (multi_empty sy)) r = None"
proof -
  let ?P = "\<lambda>(r', x :: tv_error + chart_data). r' = r \<and> isl x"
  have ne: "md_Errors (multi_empty sy) \<noteq> None" "err_at (multi_empty sy) r = None"
    by (simp_all add: multi_empty_def err_at_def)
  note s = collect_errors [OF ne(1), of js r]
  { assume "\<exists>e. (r, Inl e) \<in> set js"
    then obtain e where h: "(r, Inl e) \<in> set (rev js)" "?P (r, Inl e)" by auto
    from find_eq_Some(2) [where P = ?P, OF h] obtain y where y: "List.find ?P (rev js) = Some y" by blast
    then show "\<exists>e. (r, Inl e) \<in> set js \<and> err_at (fold multi_collect js (multi_empty sy)) r = Some (error_string (Some e))"
      using find_eq_Some(1) [OF y] s by (cases y; cases "snd y") auto }
  { assume none: "\<nexists>e. (r, Inl e) \<in> set js"
    have "List.find ?P (rev js) = None"
      using none find_eq_Some(1) [of ?P "rev js"] by (cases "List.find ?P (rev js)") (auto simp: isl_def)
    then show "err_at (fold multi_collect js (multi_empty sy)) r = None" using s ne(2) by simp }
qed


section \<open>Properties\<close>

text \<open>
  C1. \<open>Fetch\<close> answers the request that was made: whatever the cache, the pool and the
  network did before, a result carries the normalised symbol and resolution of this call
  and at least one candle, from the network or from the cache. The invariant behind it
  (the cache is consistent and every entry answers the request its key stands for) holds
  for a new client and is kept by every call.
\<close>
theorem fetch_answers_request:
  assumes "client_inv cl"
  shows "client_inv (New cfg) \<and> client_inv (snd (Fetch U cl env symbol resolution bars))
    \<and> (\<forall>d. fst (Fetch U cl env symbol resolution bars) = Done (Inr d) \<longrightarrow>
         cd_Symbol d = NormalizeSymbol U symbol
         \<and> NormalizeResolution U resolution = Some (cd_Resolution d) \<and> cd_Candles d \<noteq> [] \<and> bars \<le> maxBars)"
  using Fetch_sound [OF assms] client_inv_new by (fastforce simp: request_def split: if_splits)

definition sample_env :: fetch_env where
  "sample_env = \<lparr>fe_get = 0, fe_once = \<lparr>oi_sem = None, oi_dial = (\<lambda>_. good_attempt),
     oi_fetch = quiet_io [\<lparr>tk_now = 1, tk_ctx = None, tk_read = Inr (frame_of stale_frame)\<rparr>], oi_now = 2\<rparr>,
     fe_at = 2, fe_since = 3000000, fe_put = 3\<rparr>"

definition sample_client :: client where
  "sample_client = New (zero_config\<lparr>cfg_EnableCache := True\<rparr>)"

lemma sample_dial: "fst (dial cfg (\<lambda>_. good_attempt)) = (Some (fresh_conn\<lparr>cn_sent := [encodeFrame
    \<lparr>tm_Method = ''set_auth_token'', tm_Params = [PStr (cfg_AuthToken cfg)]\<rparr>]\<rparr>), None)"
proof -
  have "dialOnce cfg good_attempt = ((Some (fresh_conn\<lparr>cn_sent := [encodeFrame
    \<lparr>tm_Method = ''set_auth_token'', tm_Params = [PStr (cfg_AuthToken cfg)]\<rparr>]\<rparr>), None), [Opened])"
    by (simp add: good_attempt_def dialOnce_def authenticate_def send_def ws_write_def has_prefix_def fresh_conn_def)
  then show ?thesis
    using dial_from_steps(3) [of 0 "\<lambda>_. good_attempt" cfg] by (simp add: dial_def cancelled_def)
qed

definition sample_answer :: chart_data where
  "sample_answer = \<lparr>cd_Symbol = ''BTC'', cd_Resolution = ''5'', cd_Candles = [stale_candle], cd_FetchedAt = 2,
     cd_Cached = False, cd_LatencyMs = 3\<rparr>"

lemma sample_series:
  "1 < cfg_FetchTimeout cfg \<Longrightarrow>
   fst (fetchSeries cfg (quiet_io [\<lparr>tk_now = 1, tk_ctx = None, tk_read = Inr (frame_of stale_frame)\<rparr>])
     sy res bars c) = Done (Inr [stale_candle])"
  by (simp add: fetchSeries_body quiet_io_def fetch_body_def send_def ws_write_def fetch_loop_turn turn_of_def
      series_deadline_def stale_frame_message frame_decides_def stale_frame_result)

lemma sample_fetch:
  "fst (fetch_miss sample_client sample_env ''BTC'' ''5'' 300) = Done (Inr sample_answer)
   \<and> pl_free (cl_pool (snd (fetch_miss sample_client sample_env ''BTC'' ''5'' 300))) \<noteq> []"
proof -
  have t: "1 < cfg_FetchTimeout (cl_cfg sample_client)"
    by (simp add: sample_client_def New_def withDefaults_def zero_config_def DefaultConfig_def second_def Let_def)
  let ?io = "quiet_io [\<lparr>tk_now = 1, tk_ctx = None, tk_read = Inr (frame_of stale_frame)\<rparr>]"
  define c where "c = fresh_conn\<lparr>cn_sent := [encodeFrame
    \<lparr>tm_Method = ''set_auth_token'', tm_Params = [PStr (cfg_AuthToken (cl_cfg sample_client))]\<rparr>]\<rparr>"
  obtain c' where f: "fetchSeries (cl_cfg sample_client) ?io ''BTC'' ''5'' 300 c = (Done (Inr [stale_candle]), c')"
    using sample_series [OF t, of "''BTC''" "''5''" 300 c] by (metis prod.collapse)
  have "pool_take (cl_pool sample_client) = (MustDial, cl_pool sample_client)"
    by (simp add: sample_client_def New_def Let_def pool_take_def newConnPool_def)
  then have "acquire (cl_cfg sample_client) None (\<lambda>_. good_attempt) (cl_pool sample_client)
      = ((Some c, None), cl_pool sample_client)"
    by (simp add: acquire_def sample_dial c_def)
  moreover have "\<not> pl_closed (cl_pool sample_client)"
    by (simp add: sample_client_def New_def Let_def newConnPool_def)
  ultimately show ?thesis
    using f by (simp add: fetch_miss_def fetchOnce_def sample_env_def Let_def to_milliseconds_def sample_answer_def
        release_def pool_give_def cache_store_def case_prod_unfold split: option.split)
qed

lemma sample_Fetch:
  "fst (Fetch no_tables sample_client sample_env ''btc '' ''5m'' 0) = Done (Inr sample_answer)"
  and sample_Fetch_pool: "pl_free (cl_pool (snd (Fetch no_tables sample_client sample_env ''btc '' ''5m'' 0))) \<noteq> []"
proof -
  have r: "request no_tables ''btc '' ''5m'' 0 = Some (''BTC'', ''5'', 300)" by code_simp
  have "cache_lookup sample_client (makeCacheKey ''BTC'' ''5'' 300) 0 = (None, sample_client)"
    by (simp add: sample_client_def New_def Let_def withDefaults_def cache_lookup_def lruGet_def newCache_def)
  moreover have "\<not> cl_closed sample_client" by (simp add: sample_client_def New_def Let_def)
  ultimately have "Fetch no_tables sample_client sample_env ''btc '' ''5m'' 0 = fetch_miss sample_client sample_env ''BTC'' ''5'' 300"
    using Fetch_request(1) [OF r, of sample_client sample_env] by (simp add: sample_env_def)
  then show "fst (Fetch no_tables sample_client sample_env ''btc '' ''5m'' 0) = Done (Inr sample_answer)"
    "pl_free (cl_pool (snd (Fetch no_tables sample_client sample_env ''btc '' ''5m'' 0))) \<noteq> []"
    using sample_fetch by simp_all
qed

theorem fetch_answers_request_witness:
  "cd_Symbol sample_answer = NormalizeSymbol no_tables ''btc ''"
  using fetch_answers_request [of sample_client zero_config no_tables sample_env "''btc ''" "''5m''" 0]
    sample_Fetch client_inv_new by (simp add: sample_client_def)



text \<open>
  C31. A repeated request is served from the cache: after a fetch that went to the network,
  with caching on and a positive lifetime for the resolution, any call that stands for the
  same request (an alias of the resolution, other spacing or case) and reads the clock
  before the expiry gets the same data marked as cached, touches neither pool nor network,
  and does so whatever the network would have answered.
\<close>
theorem fetch_twice_cached:
  assumes "client_inv cl" and "cl_cache cl \<noteq> None" and "cfg_CacheTTLs (cl_cfg cl) = Some m"
    and "Fetch U cl env symbol resolution bars = (Done (Inr d), cl1)" and "\<not> cd_Cached d"
    and "m (cd_Resolution d) = Some ttl" and "0 < ttl"
    and "request U symbol' resolution' bars' = request U symbol resolution bars"
    and "fe_get env' \<le> fe_put env + ttl"
  shows "\<exists>cl2. Fetch U cl1 env' symbol' resolution' bars' = (Done (Inr (d\<lparr>cd_Cached := True\<rparr>)), cl2)
    \<and> cl_pool cl2 = cl_pool cl1"
proof -
  have "fst (Fetch U cl env symbol resolution bars) = Done (Inr d)" using assms(4) by simp
  then obtain n where r: "request U symbol resolution bars = Some (cd_Symbol d, cd_Resolution d, n)"
    using Fetch_sound(2) [OF assms(1)] by blast
  have live: "\<not> cl_closed cl" using Fetch_no_request(1) [of cl U env symbol resolution bars] assms(4) by auto
  note F = Fetch_request(1) [OF r live, of env]
  let ?key = "makeCacheKey (cd_Symbol d) (cd_Resolution d) n"
  obtain hit cl0 where look: "cache_lookup cl ?key (fe_get env) = (hit, cl0)" by (metis surj_pair)
  have inv0: "client_inv cl0" "cl_cfg cl0 = cl_cfg cl" "cl_cache cl0 \<noteq> None" "cl_closed cl0 = cl_closed cl"
    using cache_lookup_inv(1,3) [OF assms(1), of ?key "fe_get env"] look assms(2)
    by (auto simp: cache_lookup_def case_prod_unfold Let_def)
  have "hit = None"
  proof (cases hit)
    case (Some h)
    then have "h = d" using F(1) look assms(4) by simp
    moreover have "cd_Cached h"
      using look Some by (auto simp: cache_lookup_def lruGet_def case_prod_unfold Let_def split: option.splits if_splits)
    ultimately show ?thesis using assms(5) by simp
  qed
  then have miss: "fetch_miss cl0 env (cd_Symbol d) (cd_Resolution d) n = (Done (Inr d), cl1)"
    using F(1) look assms(4) by simp
  obtain c where "cl_cache cl0 = Some c" using inv0(3) by blast
  then obtain c1 where c1: "cl_cache cl1 = Some c1" "cache_inv c1" "cl_closed cl1 = cl_closed cl0"
    "cache_view c1 ?key = Some (d, fe_put env + ttl)"
    using fetch_miss_stores [OF inv0(1) _ _ _ assms(7) miss] assms(3,6) inv0(2) by auto
  have r': "request U symbol' resolution' bars' = Some (cd_Symbol d, cd_Resolution d, n)" using r assms(8) by simp
  have "\<not> cl_closed cl1" using live c1(3) inv0(4) by simp
  from Fetch_request(1) [OF r' this, of env'] lookup_hit [OF c1(1,2,4) assms(9)] show ?thesis by auto
qed

theorem fetch_twice_cached_witness:
  "\<exists>cl2. Fetch no_tables (snd (Fetch no_tables sample_client sample_env ''btc '' ''5m'' 0)) sample_env ''BTC'' '' 5'' 300
      = (Done (Inr (sample_answer\<lparr>cd_Cached := True\<rparr>)), cl2)
    \<and> cl_pool cl2 = cl_pool (snd (Fetch no_tables sample_client sample_env ''btc '' ''5m'' 0))"
proof (rule fetch_twice_cached [of sample_client default_ttls _ sample_env "''btc ''" "''5m''" 0 _ _ "15 * second"])
  show "client_inv sample_client" using client_inv_new by (simp add: sample_client_def)
  show "cl_cache sample_client \<noteq> None" "cfg_CacheTTLs (cl_cfg sample_client) = Some default_ttls"
    by (simp_all add: sample_client_def New_def withDefaults_def zero_config_def DefaultConfig_def Let_def)
  show "Fetch no_tables sample_client sample_env ''btc '' ''5m'' 0 =
      (Done (Inr sample_answer), snd (Fetch no_tables sample_client sample_env ''btc '' ''5m'' 0))"
    using sample_Fetch by (metis prod.collapse)
  show "request no_tables ''BTC'' '' 5'' 300 = request no_tables ''btc '' ''5m'' 0" by code_simp
qed (simp_all add: sample_answer_def default_ttls_def second_def sample_env_def)



lemma collect_jobs_done:
  "collect_jobs js out = Done out' \<Longrightarrow> \<exists>fs. js = map (\<lambda>(r, x). (r, Done x)) fs \<and> out' = fold multi_collect fs out"
proof (induction js out rule: collect_jobs.induct)
  case (2 r x js out)
  have "collect_jobs js (multi_collect (r, x) out) = Done out'" using "2.prems" by simp
  from "2.IH" [OF this] obtain fs where
    "js = map (\<lambda>(r, x). (r, Done x)) fs" "out' = fold multi_collect fs (multi_collect (r, x) out)" by blast
  then show ?case by (intro exI [of _ "(r, x) # fs"]) simp
qed auto

lemma map_of_none_empty: "(\<forall>k. map_of m k = None) \<longleftrightarrow> m = []"
  by (cases m) auto

lemma multi_fold:
  assumes "out = (if md_Errors o1 = Some [] then o1\<lparr>md_Errors := None\<rparr> else o1)"
    and "o1 = (fold multi_collect fs (multi_empty sy))\<lparr>md_FetchedAt := now, md_LatencyMs := l\<rparr>"
  shows "md_Slabs out = md_Slabs (fold multi_collect fs (multi_empty sy))"
    and "err_at out r = err_at (fold multi_collect fs (multi_empty sy)) r"
    and "md_Errors out = None \<longleftrightarrow> (\<nexists>r e. (r, Inl e) \<in> set fs)"
    and "md_Symbol out = sy"
proof -
  let ?all = "fold multi_collect fs (multi_empty sy)"
  show "md_Slabs out = md_Slabs ?all" "err_at out r = err_at ?all r"
    using assms by (auto simp: err_at_def)
  have sym: "md_Symbol (fold multi_collect js o') = md_Symbol o'" for js o'
    by (induction js arbitrary: o') (auto simp: multi_collect_def split: prod.split sum.split)
  show "md_Symbol out = sy" using assms sym by (simp add: multi_empty_def)
  obtain m where m: "md_Errors ?all = Some m"
    using collect_errors [of "multi_empty sy" fs] by (auto simp: multi_empty_def)
  have "err_at ?all r = map_of m r" for r using m by (simp add: err_at_def)
  moreover have "md_Errors out = None \<longleftrightarrow> m = []" using m assms by simp
  ultimately have "md_Errors out = None \<longleftrightarrow> (\<forall>r. err_at ?all r = None)"
    using map_of_none_empty [of m] by simp
  moreover have "err_at ?all r = None \<longleftrightarrow> (\<nexists>e. (r, Inl e) \<in> set fs)" for r
  proof (cases "\<exists>e. (r, Inl e) \<in> set fs")
    case True
    from collected_error(1) [OF this] have "err_at ?all r \<noteq> None" by auto
    then show ?thesis using True by blast
  next
    case False
    from collected_error(2) [OF this] False show ?thesis by simp
  qed
  ultimately show "md_Errors out = None \<longleftrightarrow> (\<nexists>r e. (r, Inl e) \<in> set fs)" by blast
qed

text \<open>What a finished result reports about its goroutines' \<open>outcomes\<close>, if those are sound.\<close>

definition sound_outcome :: "unicode \<Rightarrow> string \<Rightarrow> string \<times> (tv_error + chart_data) outcome \<Rightarrow> bool" where
  "sound_outcome U sy j = (case j of
       (r, Done (Inr d)) \<Rightarrow> NormalizeResolution U r = Some (cd_Resolution d) \<and> cd_Symbol d = sy \<and> cd_Candles d \<noteq> []
     | _ \<Rightarrow> True)"

definition reported :: "unicode \<Rightarrow> string \<Rightarrow> multi_chart_data \<Rightarrow> string \<Rightarrow> bool" where
  "reported U sy out r \<longleftrightarrow> err_at out r \<noteq> None \<or>
     (\<exists>w d. NormalizeResolution U r = Some w \<and> slab out w = Some (Some d)
        \<and> cd_Resolution d = w \<and> cd_Symbol d = sy \<and> cd_Candles d \<noteq> [])"

lemma multi_finish_results:
  assumes "multi_finish sy outcomes now since = Done out"
  obtains fs where "outcomes = map (\<lambda>(r, x). (r, Done x)) fs"
    and "md_Slabs out = md_Slabs (fold multi_collect fs (multi_empty sy))"
    and "\<And>r. err_at out r = err_at (fold multi_collect fs (multi_empty sy)) r"
    and "md_Errors out = None \<longleftrightarrow> (\<nexists>r e. (r, Inl e) \<in> set fs)"
    and "md_Symbol out = sy"
proof -
  from assms obtain o2 where o2: "collect_jobs outcomes (multi_empty sy) = Done o2"
    "out = (let out = o2\<lparr>md_FetchedAt := now, md_LatencyMs := to_milliseconds since\<rparr>
             in (if md_Errors out = Some [] then out\<lparr>md_Errors := None\<rparr> else out))"
    by (auto simp: multi_finish_def Let_def split: outcome.splits)
  obtain fs where fs: "outcomes = map (\<lambda>(r, x). (r, Done x)) fs" "o2 = fold multi_collect fs (multi_empty sy)"
    using collect_jobs_done [OF o2(1)] by blast
  have "o2\<lparr>md_FetchedAt := now, md_LatencyMs := to_milliseconds since\<rparr> = (fold multi_collect fs
      (multi_empty sy))\<lparr>md_FetchedAt := now, md_LatencyMs := to_milliseconds since\<rparr>" by (simp add: fs(2))
  from multi_fold [OF o2(2) [unfolded Let_def] this] show thesis by (intro that [OF fs(1)])
qed

lemma multi_finish_reports:
  assumes "multi_finish sy outcomes now since = Done out" and "list_all (sound_outcome U sy) outcomes"
  shows "list_all (\<lambda>(r, _). reported U sy out r) outcomes"
    and "err_at out r = Some msg \<Longrightarrow> \<exists>e. (r, Done (Inl e)) \<in> set outcomes \<and> msg = error_string (Some e)"
    and "slab out w \<noteq> None \<Longrightarrow> \<exists>(r, x) \<in> set outcomes. NormalizeResolution U r = Some w"
    and "md_Errors out = None \<longleftrightarrow> (\<forall>r. err_at out r = None)"
    and "md_Symbol out = sy"
proof -
  obtain fs where fs: "outcomes = map (\<lambda>(r, x). (r, Done x)) fs"
    and m: "md_Slabs out = md_Slabs (fold multi_collect fs (multi_empty sy))"
      "\<And>r. err_at out r = err_at (fold multi_collect fs (multi_empty sy)) r"
      "md_Errors out = None \<longleftrightarrow> (\<nexists>r e. (r, Inl e) \<in> set fs)" "md_Symbol out = sy"
    by (rule multi_finish_results [OF assms(1)]) (rule that; assumption)
  have fin: "(r, x) \<in> set fs \<Longrightarrow> (r, Done x) \<in> set outcomes" for r x unfolding fs by force
  have dat: "NormalizeResolution U r = Some (cd_Resolution d) \<and> cd_Symbol d = sy \<and> cd_Candles d \<noteq> []"
    if "(r, Inr d) \<in> set fs" for r d
    using fin [OF that] assms(2) by (auto simp: list_all_iff sound_outcome_def)
  have answered: "reported U sy out r" if x: "(r, x) \<in> set fs" for r x
  proof (cases x)
    case (Inl e)
    then show ?thesis using collected_error(1) [of r fs sy] x m(2) by (auto simp: reported_def)
  next
    case (Inr d)
    then obtain r' d' where "(r', Inr d') \<in> set fs" "cd_Resolution d' = cd_Resolution d"
      "slab out (cd_Resolution d) = Some (Some d')"
      using collected_slab(1) [of fs "cd_Resolution d" sy] x m(1) by auto
    then show ?thesis using dat [of r' d'] dat [of r d] x Inr by (auto simp: reported_def)
  qed
  then show "list_all (\<lambda>(r, _). reported U sy out r) outcomes" by (auto simp: list_all_iff fs)
  have errors: "\<exists>e. (r, Inl e) \<in> set fs \<and> msg = error_string (Some e)" if e: "err_at out r = Some msg" for r msg
    using collected_error [of r fs sy] m(2) e by (cases "\<exists>e. (r, Inl e) \<in> set fs") auto
  then show "err_at out r = Some msg \<Longrightarrow> \<exists>e. (r, Done (Inl e)) \<in> set outcomes \<and> msg = error_string (Some e)"
    using fin by blast
  show "\<exists>(r, x) \<in> set outcomes. NormalizeResolution U r = Some w" if w: "slab out w \<noteq> None"
  proof -
    have "\<exists>r d. (r, Inr d) \<in> set fs \<and> cd_Resolution d = w" using collected_slab(2) [of fs w sy] w m(1) by fastforce
    then show ?thesis using fin dat by fast
  qed
  show "md_Errors out = None \<longleftrightarrow> (\<forall>r. err_at out r = None)"
    using m(3) errors collected_error(1) [of _ fs sy] m(2)
    by (metis err_at_def bind.bind_lunit option.distinct(1) Option.bind_eq_None_conv)
  show "md_Symbol out = sy" by (rule m(4))
qed



lemma collect_jobs_fold:
  "collect_jobs (map (\<lambda>(r, x). (r, Done x)) fs) out = Done (fold multi_collect fs out)"
  by (induction fs arbitrary: out) auto

lemma multi_finish_done: "list_all (\<lambda>(r, x). \<exists>y. x = Done y) outs \<Longrightarrow> \<exists>out. multi_finish sy outs now since = Done out"
proof -
  assume "list_all (\<lambda>(r, x). \<exists>y. x = Done y) outs"
  then have "\<exists>fs. outs = map (\<lambda>(r, x). (r, Done x)) fs"
  proof (induction outs)
    case (Cons o1 outs)
    then obtain r y fs where "o1 = (r, Done y)" "outs = map (\<lambda>(r, x). (r, Done x)) fs" by auto
    then show ?case by (intro exI [of _ "(r, y) # fs"]) simp
  qed simp
  then show ?thesis by (auto simp: multi_finish_def collect_jobs_fold Let_def)
qed

section \<open>Calls return\<close>

definition prompt_env :: "config \<Rightarrow> fetch_env \<Rightarrow> bool" where
  "prompt_env cfg env \<longleftrightarrow> prompt cfg (oi_fetch (fe_once env))"

lemma fetchOnce_returns:
  assumes "prompt cfg (oi_fetch io)"
  shows "\<exists>r q cs. fetchOnce cfg io p sy res bars = (Done r, q, cs)"
proof -
  obtain c err p1 where a: "acquire cfg (oi_sem io) (oi_dial io) p = ((c, err), p1)" by (metis surj_pair)
  show ?thesis
  proof (cases err)
    case (Some e)
    then show ?thesis using a by (cases c) (simp_all add: fetchOnce_def)
  next
    case None
    then obtain x where c: "c = Some x"
      using a dial_pair [of cfg "oi_dial io" c err]
      by (auto simp: acquire_def split: option.splits taken.splits prod.splits)
    obtain r y where "fetchSeries cfg (oi_fetch io) sy res bars x = (Done r, y)"
      using fetchSeries_returns [OF assms, of sy res bars x] by (metis prod.collapse)
    then show ?thesis using a None c
      by (cases r; cases "release p1 (Some y) (\<not> isl r) (oi_now io)") (simp_all add: fetchOnce_def)
  qed
qed

lemma Fetch_returns:
  assumes "prompt_env (cl_cfg cl) env"
  shows "\<exists>r. fst (Fetch U cl env symbol resolution bars) = Done r"
proof -
  have "\<exists>r. fst (fetch_miss (snd (cache_lookup cl key now)) env sy res n) = Done r" for key now sy res n
  proof -
    have "cl_cfg (snd (cache_lookup cl key now)) = cl_cfg cl"
      by (simp add: cache_lookup_def Let_def case_prod_unfold split: option.split)
    moreover obtain r q cs where
      "fetchOnce (cl_cfg cl) (fe_once env) (cl_pool (snd (cache_lookup cl key now))) sy res n = (Done r, q, cs)"
      using fetchOnce_returns assms unfolding prompt_env_def by blast
    ultimately show ?thesis by (cases r) (simp_all add: fetch_miss_def Let_def)
  qed
  note miss = this
  show ?thesis
  proof (cases "cl_closed cl \<or> request U symbol resolution bars = None")
    case True
    then show ?thesis using Fetch_no_request by (metis fst_conv)
  next
    case False
    then obtain sy res n where r: "request U symbol resolution bars = Some (sy, res, n)" "\<not> cl_closed cl" by auto
    obtain hit cl1 where c: "cache_lookup cl (makeCacheKey sy res n) (fe_get env) = (hit, cl1)" by (metis surj_pair)
    then show ?thesis using miss [of "makeCacheKey sy res n" "fe_get env" sy res n]
      by (cases hit) (simp_all add: Fetch_request(1) [OF r])
  qed
qed



end
