(* ===== verification/Indicators.thy ===== *)
theory Indicators
  imports Types GoStrings
begin

text \<open>
  \<open>ta/ta.go\<close>: the candle helpers, the state classifiers and the enrichers. The indicator
  mathematics is the library \<open>github.com/Bitvested/ta.go\<close>: a record of functions, \<open>talib\<close>,
  over which everything here is parametric; a library function may panic (\<open>None\<close>). Every
  \<open>Enrich\<close> returns its annotations or panics.

  Floats are IEEE doubles (\<open>Float64\<close>): comparisons with NaN are false, as in Go. Products and sums are
  rounded separately, as on amd64.
\<close>

section \<open>Candle helpers\<close>

definition closes :: "candle list \<Rightarrow> f64 list" where
  "closes c = map c_Close c"

definition hlc :: "candle list \<Rightarrow> f64 list list" where
  "hlc c = map (\<lambda>b. [c_High b, c_Close b, c_Low b]) c"

definition closeVolume :: "candle list \<Rightarrow> f64 list list" where
  "closeVolume c = map (\<lambda>b. [c_Close b, c_Volume b]) c"

definition volumeClose :: "candle list \<Rightarrow> f64 list list" where
  "volumeClose c = map (\<lambda>b. [c_Volume b, c_Close b]) c"

definition lastOf :: "f64 list \<Rightarrow> f64" where
  "lastOf s = (if s = [] then 0 else last s)"

text \<open>\<open>findSwing\<close>: \<open>c[0]\<close> panics on an empty slice.\<close>

definition swing_step :: "candle \<Rightarrow> f64 \<times> f64 \<Rightarrow> f64 \<times> f64" where
  "swing_step b hl = (case hl of (high, low) \<Rightarrow>
     (if high < c_High b then c_High b else high, if c_Low b < low then c_Low b else low))"

definition findSwing :: "candle list \<Rightarrow> (f64 \<times> f64) go" where
  "findSwing c = do {
     c0 \<leftarrow> go_nth c 0;
     Some (fold swing_step c (c_High c0, c_Low c0)) }"

definition tfOrder :: "string \<rightharpoonup> int" where
  "tfOrder = map_of [(''1'', 1), (''5'', 2), (''15'', 3), (''30'', 4), (''60'', 5), (''120'', 6),
     (''240'', 7), (''D'', 8), (''W'', 9), (''M'', 10)]"

definition tfRank :: "string \<Rightarrow> int" where
  "tfRank tf = (case tfOrder tf of Some r \<Rightarrow> r | None \<Rightarrow> 99)"

section \<open>State classifiers\<close>

definition rsiState :: "f64 \<Rightarrow> string" where
  "rsiState v =
     (if f64_of_int 70 \<le> v then ''Overbought''
      else if f64_of_int 60 \<le> v then ''Approaching overbought''
      else if v \<le> f64_of_int 30 then ''Oversold''
      else if v \<le> f64_of_int 40 then ''Approaching oversold''
      else ''Neutral'')"

definition macdState :: "f64 \<Rightarrow> f64 \<Rightarrow> f64 \<Rightarrow> string" where
  "macdState macd sig hist =
     (if sig < macd \<and> 0 < hist then ''Bullish (MACD above signal, positive histogram)''
      else if macd < sig \<and> hist < 0 then ''Bearish (MACD below signal, negative histogram)''
      else if sig < macd \<and> hist < 0 then ''Bearish momentum weakening''
      else if macd < sig \<and> 0 < hist then ''Bullish momentum weakening''
      else ''Neutral'')"

text \<open>A missing key of a Go map reads as zero.\<close>

definition emaState :: "f64 \<Rightarrow> (int \<rightharpoonup> f64) \<Rightarrow> string" where
  "emaState price vals =
     (let ema20 = (case vals 20 of Some v \<Rightarrow> v | None \<Rightarrow> 0); has20 = (vals 20 \<noteq> None);
          ema50 = (case vals 50 of Some v \<Rightarrow> v | None \<Rightarrow> 0); has50 = (vals 50 \<noteq> None);
          ema200 = (case vals 200 of Some v \<Rightarrow> v | None \<Rightarrow> 0); has200 = (vals 200 \<noteq> None) in
      if has200 \<and> ema200 < price \<and> has20 \<and> ema50 < ema20
      then ''Strong bullish (price above 200, 20>50)''
      else if has200 \<and> price < ema200 \<and> has20 \<and> ema20 < ema50
      then ''Strong bearish (price below 200, 20<50)''
      else if has20 \<and> has50 \<and> ema20 < price \<and> ema50 < ema20
      then ''Bullish structure (price > 20 > 50)''
      else if has20 \<and> has50 \<and> price < ema20 \<and> ema20 < ema50
      then ''Bearish structure (price < 20 < 50)''
      else if has20 \<and> has50 \<and> ema20 < price \<and> price < ema50
      then ''Recovery attempt (above 20, below 50)''
      else ''Mixed/Transitional'')"

definition atrState :: "f64 \<Rightarrow> string" where
  "atrState pct =
     (if f64_of_int 5 < pct then ''Extremely volatile''
      else if f64_of_int 3 < pct then ''High volatility''
      else if fdec 15 1 < pct then ''Moderate volatility''
      else ''Low volatility'')"

definition srState :: "f64 \<Rightarrow> f64 \<Rightarrow> string" where
  "srState distSup distRes =
     (if distSup < 1 then ''Near support (potential bounce zone)''
      else if distRes < 1 then ''Near resistance (potential rejection zone)''
      else if distSup < distRes then ''Closer to support''
      else ''Closer to resistance'')"

definition fibState :: "f64 \<Rightarrow> f64 \<Rightarrow> f64 \<Rightarrow> f64 \<Rightarrow> f64 \<Rightarrow> f64 \<Rightarrow> f64 \<Rightarrow> string" where
  "fibState price high low r382 r500 r618 r786 =
     (if high \<le> price then ''Above swing high (price discovery, extension targets active: 1.272, 1.618)''
      else if r382 \<le> price then ''Shallow pullback (above 0.382 retrace, strong trend intact)''
      else if r500 \<le> price then ''Mid pullback (between 0.382 and 0.5 retrace)''
      else if r618 \<le> price then ''Deep pullback (golden pocket 0.5-0.618, high-probability bounce zone)''
      else if r786 \<le> price then ''Very deep pullback (between 0.618 and 0.786, trend weakening)''
      else if price \<le> low then ''Below swing low (structure broken)''
      else ''Below 0.786 retrace (trend likely failing)'')"

definition contextState :: "f64 \<Rightarrow> f64 \<Rightarrow> f64 \<Rightarrow> string" where
  "contextState pctFromHigh pctFromLow velocity =
     (if f64_of_int (-2) < pctFromHigh then
        (if f64_of_int 100 < velocity then ''At/near range high in parabolic uptrend, price discovery imminent''
         else ''At/near range high, breakout or rejection imminent'')
      else if f64_of_int (-10) < pctFromHigh then
        (if f64_of_int 50 < velocity then ''Pullback within strong uptrend, high-probability continuation zone''
         else ''Near range high, testing resistance'')
      else if pctFromLow < f64_of_int 5 then ''At/near range low, capitulation or accumulation zone''
      else if pctFromHigh < f64_of_int (-50) then ''Deep in range from highs, bear market structure or accumulation''
      else ''Mid-range, no edge from positional context alone'')"

section \<open>The indicator library\<close>

text \<open>
  The functions of \<open>Bitvested/ta.go\<close> the source calls. The types of the points and lines
  that \<open>RecentHigh\<close>, \<open>Support\<close> and \<open>LineCalc\<close> exchange are the library's own, hence type
  variables.
\<close>

record ('p, 'l) talib =
  ti_Rsi :: "f64 list \<Rightarrow> int \<Rightarrow> f64 list go"
  ti_Macd :: "f64 list \<Rightarrow> int \<Rightarrow> int \<Rightarrow> f64 list go"
  ti_MacdSignal :: "f64 list \<Rightarrow> int \<Rightarrow> int \<Rightarrow> int \<Rightarrow> f64 list go"
  ti_MacdBars :: "f64 list \<Rightarrow> int \<Rightarrow> int \<Rightarrow> int \<Rightarrow> f64 list go"
  ti_Ema :: "f64 list \<Rightarrow> int \<Rightarrow> f64 list go"
  ti_Bands :: "f64 list \<Rightarrow> int \<Rightarrow> f64 \<Rightarrow> f64 list list go"
  ti_Atr :: "f64 list list \<Rightarrow> int \<Rightarrow> f64 list go"
  ti_Supertrend :: "f64 list list \<Rightarrow> int \<Rightarrow> f64 \<Rightarrow> f64 list list go"
  ti_Vwap :: "f64 list list \<Rightarrow> int \<Rightarrow> f64 list go"
  ti_Obv :: "f64 list list \<Rightarrow> f64 list go"
  ti_Adx :: "f64 list list \<Rightarrow> int \<Rightarrow> f64 list go"
  ti_StochRsi :: "f64 list \<Rightarrow> int \<Rightarrow> int \<Rightarrow> int \<Rightarrow> int \<Rightarrow> f64 list list go"
  ti_Rsi_divergence :: "f64 list \<Rightarrow> int \<Rightarrow> (f64 list \<Rightarrow> int \<Rightarrow> f64 list go) \<Rightarrow> f64 list go"
  ti_RecentHigh :: "f64 list \<Rightarrow> int \<Rightarrow> 'p go"
  ti_RecentLow :: "f64 list \<Rightarrow> int \<Rightarrow> 'p go"
  ti_Support :: "f64 list \<Rightarrow> 'p \<Rightarrow> 'l go"
  ti_Resistance :: "f64 list \<Rightarrow> 'p \<Rightarrow> 'l go"
  ti_LineCalc :: "int \<Rightarrow> 'l \<Rightarrow> f64 go"

section \<open>Enrichers\<close>

record annotation =
  an_Indicator :: string
  an_Value :: string
  an_State :: string

text \<open>The label of one indicator on one timeframe, \<open>NAME [tf]\<close>.\<close>

definition label :: "string \<Rightarrow> string \<Rightarrow> string" where
  "label nm tf = nm @ '' ['' @ tf @ '']''"

definition annot :: "string \<Rightarrow> string \<Rightarrow> string \<Rightarrow> annotation" where
  "annot i v s = \<lparr>an_Indicator = i, an_Value = v, an_State = s\<rparr>"

definition rsi_enrich :: "('p, 'l) talib \<Rightarrow> int \<Rightarrow> candle list \<Rightarrow> string \<Rightarrow> annotation list go" where
  "rsi_enrich L period c tf = do {
     r \<leftarrow> ti_Rsi L (closes c) period;
     let v = lastOf r;
     Some [annot (label (''RSI('' @ show_int period @ '')'') tf) (show_fixed 1 v) (rsiState v)] }"

definition macd_enrich :: "('p, 'l) talib \<Rightarrow> int \<Rightarrow> int \<Rightarrow> int \<Rightarrow> candle list \<Rightarrow> string \<Rightarrow> annotation list go" where
  "macd_enrich L fast slow signal c tf = do {
     let cl = closes c;
     m \<leftarrow> ti_Macd L cl fast slow;
     s \<leftarrow> ti_MacdSignal L cl fast slow signal;
     b \<leftarrow> ti_MacdBars L cl fast slow signal;
     let macd = lastOf m;
     let sig = lastOf s;
     let hist = lastOf b;
     Some [annot (label (''MACD('' @ show_int fast @ ''/'' @ show_int slow @ ''/'' @ show_int signal @ '')'') tf)
       (''MACD='' @ show_fixed 4 macd @ '' Signal='' @ show_fixed 4 sig @ '' Hist='' @ show_fixed 4 hist)
       (macdState macd sig hist)] }"

text \<open>The loop that fills \<open>vals\<close>; periods longer than the series are skipped.\<close>

fun ema_vals :: "('p, 'l) talib \<Rightarrow> f64 list \<Rightarrow> int list \<Rightarrow> (int \<rightharpoonup> f64) \<Rightarrow> (int \<rightharpoonup> f64) go" where
  "ema_vals L cl [] vals = Some vals"
| "ema_vals L cl (p # ps) vals =
     (if int (length cl) < p then ema_vals L cl ps vals
      else do { e \<leftarrow> ti_Ema L cl p; ema_vals L cl ps (vals(p \<mapsto> lastOf e)) })"

definition ema_text :: "(int \<rightharpoonup> f64) \<Rightarrow> int \<Rightarrow> string" where
  "ema_text vals p = (case vals p of
       Some v \<Rightarrow> '' EMA'' @ show_int p @ ''='' @ show_fixed 4 v | None \<Rightarrow> '''')"

text \<open>The verb \<open>%v\<close> on a slice of ints.\<close>

definition show_ints :: "int list \<Rightarrow> string" where
  "show_ints ps = ''['' @ join '' '' (map show_int ps) @ '']''"

definition ema_enrich :: "('p, 'l) talib \<Rightarrow> int list \<Rightarrow> candle list \<Rightarrow> string \<Rightarrow> annotation list go" where
  "ema_enrich L periods c tf = do {
     let cl = closes c;
     price \<leftarrow> go_nth cl (int (length cl) - 1);
     vals \<leftarrow> ema_vals L cl periods Map.empty;
     Some [annot (label (''EMA('' @ show_ints periods @ '')'') tf)
       (''Price='' @ show_fixed 4 price @ concat (map (ema_text vals) periods)) (emaState price vals)] }"

definition bollingerState :: "f64 \<Rightarrow> f64 \<Rightarrow> f64 \<Rightarrow> f64 \<Rightarrow> string" where
  "bollingerState price upper lower width =
     (if upper \<le> price then ''At upper band (potential resistance/breakout)''
      else if price \<le> lower then ''At lower band (potential support/bounce)''
      else if width < f64_of_int 5 then ''Squeeze (low volatility, expansion imminent)''
      else ''Within bands'')"

definition bollinger_enrich :: "('p, 'l) talib \<Rightarrow> int \<Rightarrow> f64 \<Rightarrow> candle list \<Rightarrow> string \<Rightarrow> annotation list go" where
  "bollinger_enrich L period stdDev c tf = do {
     let cl = closes c;
     bb \<leftarrow> ti_Bands L cl period stdDev;
     if bb = [] then Some []
     else do {
       let lb = last bb;
       middle \<leftarrow> go_nth lb 1;
       b0 \<leftarrow> go_nth lb 0;
       b2 \<leftarrow> go_nth lb 2;
       let (upper, lower) = (if b0 < b2 then (b2, b0) else (b0, b2));
       price \<leftarrow> go_nth cl (int (length cl) - 1);
       let width = (upper - lower) / middle * f64_of_int 100;
       Some [annot (label (''Bollinger('' @ show_int period @ '','' @ show_fixed 1 stdDev @ '')'') tf)
         (''Upper='' @ show_fixed 4 upper @ '' Mid='' @ show_fixed 4 middle @ '' Lower='' @ show_fixed 4 lower
           @ '' Width='' @ show_fixed 1 width @ ''%'')
         (bollingerState price upper lower width)] } }"

text \<open>The close of the last candle, \<open>c[len(c)-1].Close\<close>.\<close>

definition last_close :: "candle list \<Rightarrow> f64 go" where
  "last_close c = map_option c_Close (go_nth c (int (length c) - 1))"

definition atr_enrich :: "('p, 'l) talib \<Rightarrow> int \<Rightarrow> candle list \<Rightarrow> string \<Rightarrow> annotation list go" where
  "atr_enrich L period c tf = do {
     r \<leftarrow> ti_Atr L (hlc c) period;
     let v = lastOf r;
     price \<leftarrow> last_close c;
     let pct = (v / price) * f64_of_int 100;
     Some [annot (label (''ATR('' @ show_int period @ '')'') tf)
       (show_fixed 4 v @ '' ('' @ show_fixed 2 pct @ ''% of price)'') (atrState pct)] }"

definition supertrend_enrich :: "('p, 'l) talib \<Rightarrow> int \<Rightarrow> f64 \<Rightarrow> candle list \<Rightarrow> string \<Rightarrow> annotation list go" where
  "supertrend_enrich L period multiplier c tf = do {
     st \<leftarrow> ti_Supertrend L (hlc c) period multiplier;
     if st = [] then Some []
     else do {
       let lst = last st;
       dir \<leftarrow> go_nth lst 1;
       let state = (if dir < 0 then ''Bearish (price below supertrend)'' else ''Bullish (price above supertrend)'');
       v \<leftarrow> go_nth lst 0;
       Some [annot (label (''Supertrend('' @ show_int period @ '','' @ show_fixed 1 multiplier @ '')'') tf)
         (show_fixed 4 v) state] } }"

definition vwap_enrich :: "('p, 'l) talib \<Rightarrow> int \<Rightarrow> candle list \<Rightarrow> string \<Rightarrow> annotation list go" where
  "vwap_enrich L period c tf = do {
     r \<leftarrow> ti_Vwap L (closeVolume c) period;
     let v = lastOf r;
     price \<leftarrow> last_close c;
     let state = (if price < v then ''Price below VWAP (bearish bias)'' else ''Price above VWAP (bullish bias)'');
     Some [annot (label (''VWAP('' @ show_int period @ '')'') tf)
       (show_fixed 4 v @ '' (Price='' @ show_fixed 4 price @ '')'') state] }"

definition obvState :: "f64 \<Rightarrow> f64 \<Rightarrow> string" where
  "obvState cur prev =
     (if prev * fdec 11 1 < cur then ''Rising (accumulation)''
      else if cur < prev * fdec 9 1 then ''Falling (distribution)''
      else ''Flat (no volume conviction)'')"

definition obv_enrich :: "('p, 'l) talib \<Rightarrow> candle list \<Rightarrow> string \<Rightarrow> annotation list go" where
  "obv_enrich L c tf = do {
     obv \<leftarrow> ti_Obv L (volumeClose c);
     if length obv < 20 then Some []
     else do {
       cur \<leftarrow> go_nth obv (int (length obv) - 1);
       prev \<leftarrow> go_nth obv (int (length obv) - 10);
       Some [annot (label ''OBV'' tf)
         (show_fixed 0 cur @ '' (10-bar delta: '' @ show_fixed 0 (cur - prev) @ '')'') (obvState cur prev)] } }"

definition adxState :: "f64 \<Rightarrow> string" where
  "adxState v =
     (if f64_of_int 50 \<le> v then ''Extremely strong trend''
      else if f64_of_int 25 \<le> v then ''Strong trend''
      else if f64_of_int 20 \<le> v then ''Emerging trend''
      else ''No trend'')"

definition adx_enrich :: "('p, 'l) talib \<Rightarrow> int \<Rightarrow> candle list \<Rightarrow> string \<Rightarrow> annotation list go" where
  "adx_enrich L period c tf = do {
     r \<leftarrow> ti_Adx L (hlc c) period;
     let v = lastOf r;
     Some [annot (label (''ADX('' @ show_int period @ '')'') tf) (show_fixed 1 v) (adxState v)] }"

definition stochState :: "f64 \<Rightarrow> f64 \<Rightarrow> string" where
  "stochState k d =
     (if f64_of_int 80 < k \<and> f64_of_int 80 < d then ''Overbought''
      else if k < f64_of_int 20 \<and> d < f64_of_int 20 then ''Oversold''
      else if d < k \<and> k < f64_of_int 30 then ''Bullish crossover from oversold''
      else if k < d \<and> f64_of_int 70 < k then ''Bearish crossover from overbought''
      else ''Neutral'')"

definition stochrsi_enrich :: "('p, 'l) talib \<Rightarrow> int \<Rightarrow> int \<Rightarrow> int \<Rightarrow> int \<Rightarrow> candle list \<Rightarrow> string \<Rightarrow> annotation list go" where
  "stochrsi_enrich L rsiPeriod stochPeriod smoothK smoothD c tf = do {
     sr \<leftarrow> ti_StochRsi L (closes c) rsiPeriod stochPeriod smoothK smoothD;
     if sr = [] then Some []
     else do {
       let lsr = last sr;
       k \<leftarrow> go_nth lsr 0;
       d \<leftarrow> go_nth lsr 1;
       Some [annot (label (''StochRSI('' @ show_int rsiPeriod @ '','' @ show_int stochPeriod @ '')'') tf)
         (''K='' @ show_fixed 1 k @ '' D='' @ show_fixed 1 d) (stochState k d)] } }"

definition divergence_enrich :: "('p, 'l) talib \<Rightarrow> int \<Rightarrow> candle list \<Rightarrow> string \<Rightarrow> annotation list go" where
  "divergence_enrich L period c tf = do {
     r \<leftarrow> ti_Rsi_divergence L (closes c) period (ti_Rsi L);
     let v = lastOf r;
     if feq v 0 then Some []
     else Some [annot (label ''RSI Divergence'' tf) (show_fixed 2 v)
       (if v < 0 then ''Bearish divergence detected'' else ''Bullish divergence detected'')] }"

definition sr_enrich :: "('p, 'l) talib \<Rightarrow> int \<Rightarrow> candle list \<Rightarrow> string \<Rightarrow> annotation list go" where
  "sr_enrich L lookback c tf =
     (if int (length c) < lookback then Some []
      else do {
        w \<leftarrow> go_from c (int (length c) - lookback);
        let cl = closes w;
        price \<leftarrow> go_nth cl (int (length cl) - 1);
        hi \<leftarrow> ti_RecentHigh L cl lookback;
        lo \<leftarrow> ti_RecentLow L cl lookback;
        supLine \<leftarrow> ti_Support L cl lo;
        supLevel \<leftarrow> ti_LineCalc L (int (length cl) - 1) supLine;
        resLine \<leftarrow> ti_Resistance L cl hi;
        resLevel \<leftarrow> ti_LineCalc L (int (length cl) - 1) resLine;
        let distToSup = ((price - supLevel) / price) * f64_of_int 100;
        let distToRes = ((resLevel - price) / price) * f64_of_int 100;
        Some [annot (label ''S/R Levels'' tf)
          (''Support='' @ show_fixed 4 supLevel @ '' ('' @ show_fixed 1 distToSup @ ''% away) Resistance=''
            @ show_fixed 4 resLevel @ '' ('' @ show_fixed 1 distToRes @ ''% away)'')
          (srState distToSup distToRes)] })"

text \<open>The Fibonacci levels: retracements and extensions of a swing.\<close>

definition retrace :: "f64 \<Rightarrow> f64 \<Rightarrow> f64 \<Rightarrow> f64" where
  "retrace high rng f = high - rng * f"

definition extend_up :: "f64 \<Rightarrow> f64 \<Rightarrow> f64 \<Rightarrow> f64" where
  "extend_up high rng f = high + rng * f"

definition fib_enrich :: "int \<Rightarrow> candle list \<Rightarrow> string \<Rightarrow> annotation list go" where
  "fib_enrich lookback c tf =
     (if int (length c) < lookback then Some []
      else do {
        window \<leftarrow> go_from c (int (length c) - lookback);
        (high, low) \<leftarrow> findSwing window;
        if high \<le> low then Some []
        else do {
          price \<leftarrow> last_close c;
          let rng = high - low;
          let r382 = retrace high rng (fdec 382 3);
          let r500 = retrace high rng (fdec 5 1);
          let r618 = retrace high rng (fdec 618 3);
          let r786 = retrace high rng (fdec 786 3);
          let ext1272 = extend_up high rng (fdec 272 3);
          let ext1414 = extend_up high rng (fdec 414 3);
          let ext1618 = extend_up high rng (fdec 618 3);
          let ext2000 = extend_up high rng (fdec 10 1);
          let ext2618 = extend_up high rng (fdec 1618 3);
          Some [annot (label ''Fib Levels'' tf)
            (''Swing: '' @ show_fixed 2 low @ ''->'' @ show_fixed 2 high @ '' | Retrace: 0.382='' @ show_fixed 2 r382
              @ '' 0.5='' @ show_fixed 2 r500 @ '' 0.618='' @ show_fixed 2 r618 @ '' 0.786='' @ show_fixed 2 r786
              @ '' | Ext: 1.272='' @ show_fixed 2 ext1272 @ '' 1.414='' @ show_fixed 2 ext1414
              @ '' 1.618='' @ show_fixed 2 ext1618 @ '' 2.0='' @ show_fixed 2 ext2000
              @ '' 2.618='' @ show_fixed 2 ext2618)
            (fibState price high low r382 r500 r618 r786)] } })"

definition context_enrich :: "int \<Rightarrow> candle list \<Rightarrow> string \<Rightarrow> annotation list go" where
  "context_enrich lookback c tf =
     (if int (length c) < lookback then Some []
      else do {
        window \<leftarrow> go_from c (int (length c) - lookback);
        (high, low) \<leftarrow> findSwing window;
        w0 \<leftarrow> go_nth window 0;
        let openPrice = c_Open w0;
        price \<leftarrow> last_close c;
        let pctFromHigh = ((price - high) / high) * f64_of_int 100;
        let pctFromLow = ((price - low) / low) * f64_of_int 100;
        let velocity = ((price - openPrice) / openPrice) * f64_of_int 100;
        Some [annot (label ''Price Context'' tf)
          (''Range: '' @ show_fixed 2 low @ ''->'' @ show_fixed 2 high @ '' ('' @ show_int lookback
            @ ''bar) | Now: '' @ show_fixed 2 price @ '' | From High: '' @ show_fixed 1 pctFromHigh
            @ ''% | From Low: '' @ show_fixed 1 pctFromLow @ ''% | Velocity: '' @ show_fixed 1 velocity @ ''%'')
          (contextState pctFromHigh pctFromLow velocity)] })"

section \<open>Readings that mislead\<close>

text \<open>
  With the periods 20 and 200 there is no 50-period average; the classifier reads it as zero
  and reports that the 20-period average is above it. A negative balance volume that falls
  is reported as rising.
\<close>

lemma ema_claims_50:
  "emaState (f64_of_int 3) [20 \<mapsto> f64_of_int 2, 200 \<mapsto> f64_of_int 1] = ''Strong bullish (price above 200, 20>50)''"
  by code_simp

lemma obv_falling_is_rising:
  "obvState (f64_of_int (-105)) (f64_of_int (-100)) = ''Rising (accumulation)''"
  by code_simp

end
