(* ===== verification/VolumeProfile.thy ===== *)
theory VolumeProfile
  imports Indicators
begin

text \<open>
  \<open>VolumeProfileEnricher\<close> of \<open>ta/ta.go\<close>: the volume at each price bin, the point of control
  and the value area around it. Every index expression is bounds-checked as in Go; the
  two inner loops are functions with a termination proof.
\<close>

section \<open>Definitions\<close>

definition range_step :: "candle \<Rightarrow> f64 \<times> f64 \<Rightarrow> f64 \<times> f64" where
  "range_step b mm = (case mm of (minPrice, maxPrice) \<Rightarrow>
     (if c_Low b < minPrice then c_Low b else minPrice, if maxPrice < c_High b then c_High b else maxPrice))"

text \<open>\<open>for i := startBin; i <= endBin; i++\<close>\<close>

function add_bins :: "int \<Rightarrow> int \<Rightarrow> f64 \<Rightarrow> f64 list \<Rightarrow> f64 \<Rightarrow> (f64 list \<times> f64) go" where
  "add_bins i endBin volPer volAt tot =
     (if endBin < i then Some (volAt, tot)
      else do {
        v \<leftarrow> go_nth volAt i;
        volAt' \<leftarrow> go_upd volAt i (v + volPer);
        add_bins (i + 1) endBin volPer volAt' (tot + volPer) })"
  by pat_completeness auto
termination
  by (relation "measure (\<lambda>(i, endBin, _). nat (endBin + 1 - i))") auto

declare add_bins.simps [simp del]

definition start_bin :: "f64 \<Rightarrow> f64 \<Rightarrow> candle \<Rightarrow> int" where
  "start_bin minPrice binSize b =
     (let s = f64_to_int ((c_Low b - minPrice) / binSize) in if s < 0 then 0 else s)"

definition end_bin :: "int \<Rightarrow> f64 \<Rightarrow> f64 \<Rightarrow> candle \<Rightarrow> int" where
  "end_bin bins minPrice binSize b =
     (let e = f64_to_int ((c_High b - minPrice) / binSize) in if bins \<le> e then bins - 1 else e)"

fun fill_bins :: "int \<Rightarrow> f64 \<Rightarrow> f64 \<Rightarrow> candle list \<Rightarrow> f64 list \<Rightarrow> f64 \<Rightarrow> (f64 list \<times> f64) go" where
  "fill_bins bins minPrice binSize [] volAt tot = Some (volAt, tot)"
| "fill_bins bins minPrice binSize (b # bs) volAt tot =
     (let startBin = start_bin minPrice binSize b;
          endBin = end_bin bins minPrice binSize b;
          volPer = c_Volume b / f64_of_int (wrap64 (endBin - startBin + 1)) in
      do {
        (volAt', tot') \<leftarrow> add_bins startBin endBin volPer volAt tot;
        fill_bins bins minPrice binSize bs volAt' tot' })"

fun poc_scan :: "int \<Rightarrow> f64 list \<Rightarrow> int \<Rightarrow> f64 \<Rightarrow> int" where
  "poc_scan i [] pocBin maxVol = pocBin"
| "poc_scan i (v # vs) pocBin maxVol =
     (if maxVol < v then poc_scan (i + 1) vs i v else poc_scan (i + 1) vs pocBin maxVol)"

definition bin_vol :: "bool \<Rightarrow> f64 list \<Rightarrow> int \<Rightarrow> f64 go" where
  "bin_vol inside volAt i = (if inside then go_nth volAt i else Some 0)"

text \<open>
  The loop that widens the value area by the heavier neighbour. The last branch of the Go
  code, where nothing changes, cannot be reached: with both neighbours out of range both
  volumes are zero and the loop breaks; it is kept as stopping.
\<close>

function widen :: "int \<Rightarrow> f64 list \<Rightarrow> f64 \<Rightarrow> f64 \<Rightarrow> int \<Rightarrow> int \<Rightarrow> (int \<times> int \<times> f64) go" where
  "widen bins volAt target acc lowBin highBin =
     (if \<not> acc < target then Some (lowBin, highBin, acc)
      else
        let expandLow = lowBin - 1; expandHigh = highBin + 1 in
        (case bin_vol (0 \<le> expandLow) volAt expandLow of
           None \<Rightarrow> None
         | Some lowVol \<Rightarrow>
           (case bin_vol (expandHigh < bins) volAt expandHigh of
              None \<Rightarrow> None
            | Some highVol \<Rightarrow>
              if feq lowVol 0 \<and> feq highVol 0 then Some (lowBin, highBin, acc)
              else if lowVol \<le> highVol \<and> expandHigh < bins
              then widen bins volAt target (acc + highVol) lowBin expandHigh
              else if 0 \<le> expandLow then widen bins volAt target (acc + lowVol) expandLow highBin
              else if expandHigh < bins then widen bins volAt target (acc + highVol) lowBin expandHigh
              else Some (lowBin, highBin, acc))))"
  by pat_completeness auto
termination
  by (relation "measure (\<lambda>(bins, _, _, _, lowBin, highBin). nat lowBin + nat (bins - highBin))") auto

declare widen.simps [simp del]

text \<open>\<open>compute\<close>: the point of control, the high and the low end of the value area.\<close>

definition vp_compute :: "int \<Rightarrow> candle list \<Rightarrow> (f64 \<times> f64 \<times> f64) go" where
  "vp_compute bins c =
     (if c = [] then Some (0, 0, 0)
      else
        let (minPrice, maxPrice) = fold range_step c (c_Low (hd c), c_High (hd c)) in
        if feq maxPrice minPrice then Some (minPrice, maxPrice, minPrice)
        else if bins < 0 then None
        else
          let binSize = (maxPrice - minPrice) / f64_of_int bins in
          do {
            (volAt, tot) \<leftarrow> fill_bins bins minPrice binSize c (replicate (nat bins) 0) 0;
            let pocBin = poc_scan 0 volAt 0 0;
            let poc = minPrice + (f64_of_int pocBin + fdec 5 1) * binSize;
            let target = tot * fdec 7 1;
            acc \<leftarrow> go_nth volAt pocBin;
            (lowBin, highBin, _) \<leftarrow> widen bins volAt target acc pocBin pocBin;
            let val = minPrice + f64_of_int lowBin * binSize;
            let vah = minPrice + f64_of_int (highBin + 1) * binSize;
            Some (poc, vah, val) })"

definition profileState :: "f64 \<Rightarrow> f64 \<Rightarrow> f64 \<Rightarrow> f64 \<Rightarrow> string" where
  "profileState price poc vah val =
     (if vah \<le> price then ''Above Value Area (potential breakout or mean-revert back)''
      else if price \<le> val then ''Below Value Area (potential breakdown or mean-revert up)''
      else if fabs (price - poc) / price < fdec 5 3 then ''At POC (high-volume node, strong magnet)''
      else ''Mid-range'')"

definition profile_enrich :: "int \<Rightarrow> int \<Rightarrow> candle list \<Rightarrow> string \<Rightarrow> annotation list go" where
  "profile_enrich bins lookback c tf =
     (if int (length c) < lookback then Some []
      else do {
        window \<leftarrow> go_from c (int (length c) - lookback);
        (poc, vah, val) \<leftarrow> vp_compute bins window;
        price \<leftarrow> last_close c;
        Some [annot (label (''Volume Profile('' @ show_int lookback @ '')'') tf)
          (''POC='' @ show_fixed 4 poc @ '' VAH='' @ show_fixed 4 vah @ '' VAL='' @ show_fixed 4 val)
          (profileState price poc vah val)] })"

section \<open>No index leaves its range\<close>

lemma end_bin_less: "end_bin bins mn bs b < bins"
  by (simp add: end_bin_def Let_def)

lemma start_bin_nonneg: "0 \<le> start_bin mn bs b"
  by (simp add: start_bin_def Let_def)

lemma add_bins_runs:
  "0 \<le> i \<Longrightarrow> endBin < int (length volAt) \<Longrightarrow>
   \<exists>v t. add_bins i endBin p volAt tot = Some (v, t) \<and> length v = length volAt"
proof (induction i endBin p volAt tot rule: add_bins.induct)
  case (1 i endBin p volAt tot)
  show ?case
  proof (cases "endBin < i")
    case True
    then show ?thesis by (simp add: add_bins.simps)
  next
    case False
    then have i: "go_nth volAt i = Some (volAt ! nat i)"
      "go_upd volAt i (volAt ! nat i + p) = Some (volAt[nat i := volAt ! nat i + p])"
      using "1.prems" by simp_all
    show ?thesis
      using "1.IH" [OF False i] False i "1.prems" by (subst add_bins.simps) simp
  qed
qed

lemma fill_bins_runs:
  "int (length volAt) = bins \<Longrightarrow>
   \<exists>v t. fill_bins bins mn bs cs volAt tot = Some (v, t) \<and> int (length v) = bins"
proof (induction bins mn bs cs volAt tot rule: fill_bins.induct)
  case (2 bins mn bs b cs volAt tot)
  let ?p = "c_Volume b / f64_of_int (wrap64 (end_bin bins mn bs b - start_bin mn bs b + 1))"
  have "end_bin bins mn bs b < int (length volAt)" using end_bin_less "2.prems" by simp
  from add_bins_runs [OF start_bin_nonneg this] obtain v t where
    a: "add_bins (start_bin mn bs b) (end_bin bins mn bs b) ?p volAt tot = Some (v, t)" "length v = length volAt"
    by blast
  from "2.IH" [OF refl refl refl, of "(v, t)" v t] a "2.prems" show ?case by (simp add: Let_def)
qed simp

lemma poc_scan_range: "0 \<le> i \<Longrightarrow> 0 \<le> pb \<Longrightarrow> pb < n \<Longrightarrow> i + int (length vs) \<le> n \<Longrightarrow>
   0 \<le> poc_scan i vs pb m \<and> poc_scan i vs pb m < n"
  by (induction i vs pb m rule: poc_scan.induct) auto

text \<open>One turn of the loop: it stops, or goes on with one more bin on one side.\<close>

definition widen_stops :: "int \<Rightarrow> f64 list \<Rightarrow> f64 \<Rightarrow> f64 \<Rightarrow> int \<Rightarrow> int \<Rightarrow> bool" where
  "widen_stops bins volAt target a l h \<longleftrightarrow> \<not> a < target \<or> ((0 < l \<longrightarrow> feq (volAt ! nat (l - 1)) 0)
     \<and> (h + 1 < bins \<longrightarrow> feq (volAt ! nat (h + 1)) 0))"

lemma widen_turn:
  assumes "0 \<le> l" and "l \<le> h" and "h < bins" and "bins = int (length volAt)"
  shows "(widen bins volAt target acc l h = Some (l, h, acc) \<and> widen_stops bins volAt target acc l h)
    \<or> (\<exists>a. h + 1 < bins \<and> widen bins volAt target acc l h = widen bins volAt target a l (h + 1))
    \<or> (\<exists>a. 0 \<le> l - 1 \<and> widen bins volAt target acc l h = widen bins volAt target a (l - 1) h)"
proof -
  define lv where "lv = (if 0 \<le> l - 1 then volAt ! nat (l - 1) else 0)"
  define hv where "hv = (if h + 1 < bins then volAt ! nat (h + 1) else 0)"
  have lv: "bin_vol (0 \<le> l - 1) volAt (l - 1) = Some lv" and hv: "bin_vol (h + 1 < bins) volAt (h + 1) = Some hv"
    using assms by (auto simp: bin_vol_def lv_def hv_def)
  note eq = widen.simps [of bins volAt target acc l h, unfolded Let_def lv hv option.case]
  have z: "feq 0 (0::f64)" by (simp add: feq_def zero_f64_def)
  consider (stop) "\<not> acc < target \<or> (feq lv 0 \<and> feq hv 0)"
    | (up) "acc < target" "\<not> (feq lv 0 \<and> feq hv 0)" "h + 1 < bins" "lv \<le> hv \<or> \<not> 0 \<le> l - 1"
    | (down) "acc < target" "\<not> (feq lv 0 \<and> feq hv 0)" "0 \<le> l - 1" "\<not> (lv \<le> hv \<and> h + 1 < bins)"
    using z by (cases "h + 1 < bins"; cases "0 \<le> l - 1") (auto simp: lv_def hv_def)
  then show ?thesis
  proof cases
    case stop
    then have "widen bins volAt target acc l h = Some (l, h, acc)" by (subst eq) simp
    then show ?thesis using stop by (auto simp: widen_stops_def lv_def hv_def)
  next
    case up
    then have "widen bins volAt target acc l h = widen bins volAt target (acc + hv) l (h + 1)"
      by (subst eq) auto
    then show ?thesis using up(3) by blast
  next
    case down
    then have "widen bins volAt target acc l h = widen bins volAt target (acc + lv) (l - 1) h"
      by (subst eq) auto
    then show ?thesis using down(3) by blast
  qed
qed

lemma widen_runs:
  "0 \<le> l \<Longrightarrow> l \<le> h \<Longrightarrow> h < bins \<Longrightarrow> bins = int (length volAt) \<Longrightarrow>
   \<exists>l' h' a'. widen bins volAt target acc l h = Some (l', h', a') \<and> 0 \<le> l' \<and> l' \<le> l \<and> h \<le> h' \<and> h' < bins
     \<and> widen_stops bins volAt target a' l' h'"
proof (induction "nat (bins - h + l)" arbitrary: acc l h rule: less_induct)
  case less
  from widen_turn [OF less.prems, of target acc] show ?case
  proof (elim disjE exE conjE)
    fix a assume up: "h + 1 < bins" "widen bins volAt target acc l h = widen bins volAt target a l (h + 1)"
    have "nat (bins - (h + 1) + l) < nat (bins - h + l)" using less.prems by simp
    from less.hyps [OF this] less.prems up show ?thesis by fastforce
  next
    fix a assume down: "0 \<le> l - 1" "widen bins volAt target acc l h = widen bins volAt target a (l - 1) h"
    have "nat (bins - h + (l - 1)) < nat (bins - h + l)" using less.prems down(1) by simp
    from less.hyps [OF this] less.prems down show ?thesis by fastforce
  qed (use less.prems in auto)
qed


lemma vp_compute_runs:
  assumes "0 < bins"
  shows "\<exists>r. vp_compute bins c = Some r"
proof -
  obtain mn mx where r: "fold range_step c (c_Low (hd c), c_High (hd c)) = (mn, mx)" by (metis surj_pair)
  let ?bs = "(mx - mn) / f64_of_int bins"
  obtain v t where f: "fill_bins bins mn ?bs c (replicate (nat bins) 0) 0 = Some (v, t)" "int (length v) = bins"
    using fill_bins_runs [of "replicate (nat bins) 0" bins mn ?bs c 0] assms by auto
  have p: "0 \<le> poc_scan 0 v 0 0" "poc_scan 0 v 0 0 < bins"
    using poc_scan_range [of 0 0 bins v 0] f(2) assms by auto
  then obtain l h a where w: "widen bins v (t * fdec 7 1) (v ! nat (poc_scan 0 v 0 0)) (poc_scan 0 v 0 0)
      (poc_scan 0 v 0 0) = Some (l, h, a)"
    using widen_runs [OF p(1) order_refl p(2) f(2) [symmetric]] by blast
  show ?thesis using assms r f w p by (auto simp: vp_compute_def Let_def)
qed

section \<open>Order of the levels\<close>

text \<open>A finite float of bounded size; sums and products of such floats do not overflow.\<close>

definition bounded :: "f64 \<Rightarrow> int \<Rightarrow> bool" where
  "bounded x k \<longleftrightarrow> okfin x \<and> \<bar>xval x\<bar> \<le> 2 powi k"

lemma fl_bounded:
  assumes "oknum z" and "xval z = fl r" and "\<bar>r\<bar> \<le> 2 powi k" and "-1074 \<le> k" and "k \<le> 1000"
  shows "bounded z k"
proof -
  have top: "(2::real) powi k < f64_top"
    using powi_mono [OF assms(5)] big_below_top by (rule le_less_trans)
  have "\<bar>fl r\<bar> \<le> 2 powi k" using fl_abs_le [OF rep_powi [OF assms(4)] top assms(3)] .
  then show ?thesis using oknum_fin [OF assms(1)] assms(2) top by (simp add: bounded_def)
qed

lemma bounded_add:
  assumes "bounded x k" "bounded y k" "-1074 \<le> k" "k < 1000"
  shows "xval (x + y) = fl (xval x + xval y)" "bounded (x + y) (k + 1)"
proof -
  have ok: "okfin x" "okfin y" using assms by (auto simp: bounded_def)
  show v: "xval (x + y) = fl (xval x + xval y)" using fadd_val(1) [OF ok] .
  have "\<bar>xval x + xval y\<bar> \<le> 2 powi k + 2 powi k" using assms(1,2) by (auto simp: bounded_def)
  also have "\<dots> = 2 powi (k + 1)" by (simp add: powi_split)
  finally show "bounded (x + y) (k + 1)" using fl_bounded [OF fadd_val(2) [OF ok] v] assms(3,4) by simp
qed

lemma bounded_minus: "bounded x k \<Longrightarrow> bounded (- x) k"
  by (simp add: bounded_def xval_neg)

lemma bounded_sub:
  assumes "bounded x k" "bounded y k" "-1074 \<le> k" "k < 1000"
  shows "xval (x - y) = fl (xval x - xval y)" "bounded (x - y) (k + 1)"
  using bounded_add [OF assms(1) bounded_minus [OF assms(2)] assms(3,4)] by (simp_all add: minus_as_add xval_neg)

lemma bounded_mul:
  assumes "bounded x a" "bounded y b" "-1074 \<le> a + b" "a + b \<le> 1000"
  shows "xval (x * y) = fl (xval x * xval y)" "bounded (x * y) (a + b)"
proof -
  have ok: "okfin x" "okfin y" using assms by (auto simp: bounded_def)
  show v: "xval (x * y) = fl (xval x * xval y)" using fmul_val(1) [OF ok] .
  have "\<bar>xval x * xval y\<bar> \<le> 2 powi a * 2 powi b"
    unfolding abs_mult using assms(1,2) by (intro mult_mono) (auto simp: bounded_def)
  then show "bounded (x * y) (a + b)"
    using fl_bounded [OF fmul_val(2) [OF ok] v] assms(3,4) by (simp add: powi_split)
qed

lemma bounded_div_int:
  assumes "bounded x k" "0 < n" "n \<le> 2 ^ 53" "-1074 \<le> k" "k \<le> 1000"
  shows "xval (x / f64_of_int n) = fl (xval x / of_int n)" "bounded (x / f64_of_int n) k"
proof -
  have n: "okfin (f64_of_int n)" "xval (f64_of_int n) = of_int n"
    using assms(2,3) f64_of_int_okfin [of n] f64_of_int_exact [of n] by auto
  have ok: "okfin x" using assms(1) by (simp add: bounded_def)
  have nz: "xval (f64_of_int n) \<noteq> 0" using assms(2) n(2) by simp
  show v: "xval (x / f64_of_int n) = fl (xval x / of_int n)" using fdiv_val(1) [OF ok n(1) nz] n(2) by simp
  have "\<bar>xval x / of_int n\<bar> \<le> \<bar>xval x\<bar> / 1"
    unfolding abs_divide using assms(2) by (intro divide_left_mono) auto
  also have "\<dots> \<le> 2 powi k" using assms(1) by (simp add: bounded_def)
  finally show "bounded (x / f64_of_int n) k"
    using fl_bounded [OF fdiv_val(2) [OF ok n(1) nz] v] assms(4,5) by blast
qed

lemma bounded_int: "0 \<le> n \<Longrightarrow> n \<le> 2 ^ nat k \<Longrightarrow> 0 \<le> k \<Longrightarrow> k \<le> 53 \<Longrightarrow> bounded (f64_of_int n) k \<and> xval (f64_of_int n) = of_int n"
proof -
  assume n: "0 \<le> n" "n \<le> 2 ^ nat k" "0 \<le> k" "k \<le> 53"
  have "(2::int) ^ nat k \<le> 2 ^ 53" using n(3,4) by (intro power_increasing) auto
  then have b: "\<bar>n\<bar> \<le> 2 ^ 53" using n(1,2) by linarith
  have "(of_int n :: real) \<le> of_int (2 ^ nat k)" using n(2) by (simp only: of_int_le_iff)
  then have "(of_int n :: real) \<le> 2 powi k" using n(3) by (simp add: powi_nat)
  then show ?thesis using f64_of_int_okfin [of n] f64_of_int_exact [OF b] b n(1) by (simp add: bounded_def)
qed

text \<open>Prices a market can have: finite, below \<open>2^900\<close>, low not above high.\<close>

definition candle_ok :: "candle \<Rightarrow> bool" where
  "candle_ok b \<longleftrightarrow> bounded (c_Low b) 900 \<and> bounded (c_High b) 900 \<and> c_Low b \<le> c_High b"

lemma bounded_le: "bounded x a \<Longrightarrow> bounded y b \<Longrightarrow> (x \<le> y) = (xval x \<le> xval y)"
  by (auto simp: bounded_def intro!: fle_val okfin_oknum)

lemma bounded_less: "bounded x a \<Longrightarrow> bounded y b \<Longrightarrow> (x < y) = (xval x < xval y)"
  by (auto simp: bounded_def intro!: flt_val okfin_oknum)

lemma range_fold:
  "list_all candle_ok c \<Longrightarrow> bounded mn 900 \<Longrightarrow> bounded mx 900 \<Longrightarrow> xval mn \<le> xval mx \<Longrightarrow>
   \<exists>mn' mx'. fold range_step c (mn, mx) = (mn', mx') \<and> bounded mn' 900 \<and> bounded mx' 900
     \<and> xval mn' \<le> xval mn \<and> xval mx \<le> xval mx'"
proof (induction c arbitrary: mn mx)
  case (Cons b c)
  define mn1 where "mn1 = (if c_Low b < mn then c_Low b else mn)"
  define mx1 where "mx1 = (if mx < c_High b then c_High b else mx)"
  have b: "bounded (c_Low b) 900" "bounded (c_High b) 900" using Cons.prems(1) by (auto simp: candle_ok_def)
  have m: "bounded mn1 900" "bounded mx1 900" "xval mn1 \<le> xval mn" "xval mx \<le> xval mx1"
    using b Cons.prems bounded_less [OF b(1) Cons.prems(2)] bounded_less [OF Cons.prems(3) b(2)]
    by (auto simp: mn1_def mx1_def)
  have le: "xval mn1 \<le> xval mx1" using m(3,4) Cons.prems(4) by linarith
  have c: "list_all candle_ok c" using Cons.prems(1) by simp
  have f: "fold range_step (b # c) (mn, mx) = fold range_step c (mn1, mx1)"
    by (simp add: range_step_def mn1_def mx1_def)
  obtain mn' mx' where "fold range_step c (mn1, mx1) = (mn', mx')" "bounded mn' 900" "bounded mx' 900"
    "xval mn' \<le> xval mn1" "xval mx1 \<le> xval mx'"
    using Cons.IH [OF c m(1,2) le] by blast
  then show ?case unfolding f using m(3,4) by (intro exI [of _ mn'] exI [of _ mx']) simp
qed simp

text \<open>The price at the left edge, or a point inside, of a bin: monotone in the bin coordinate.\<close>

lemma level_mono:
  assumes mn: "bounded mn 900" and bs: "bounded bs 901" "0 \<le> xval bs"
    and x: "bounded x 50" and y: "bounded y 50" and xy: "xval x \<le> xval y"
  shows "mn + x * bs \<le> mn + y * bs"
proof -
  have m: "bounded (x * bs) 951" "bounded (y * bs) 951" "xval (x * bs) \<le> xval (y * bs)"
    using bounded_mul [OF x bs(1)] bounded_mul [OF y bs(1)] xy bs(2) by (auto intro!: fl_mono mult_right_mono)
  have mn': "bounded mn 951" using mn powi_mono [of 900 951] by (auto simp: bounded_def)
  note a = bounded_add [OF mn' m(1)] and b = bounded_add [OF mn' m(2)]
  show ?thesis
    unfolding bounded_le [OF a(2) b(2), simplified] using a(1) b(1) m(3) by (auto intro!: fl_mono)
qed

lemma half_val: "bounded (fdec 5 1) 0" "xval (fdec 5 1) = 1 / 2"
proof -
  have r: "rep (1 / 2)" unfolding rep_def by (intro exI [of _ 1] exI [of _ "-1"]) (simp add: powi_neg_nat)
  have v: "xval (fdec 5 1) = fl (1 / 2)" using fdec_val [of 5 1] by simp
  then show "bounded (fdec 5 1) 0" using fl_bounded [OF fdec_oknum v, of 0] by simp
  have "\<bar>1 / 2 :: real\<bar> \<le> f64_top" unfolding f64_top_def by simp
  then show "xval (fdec 5 1) = 1 / 2" using v fl_rep [OF r] by simp
qed

lemma mid_bin:
  assumes "0 \<le> p" "p < 2 ^ 40"
  shows "bounded (f64_of_int p + fdec 5 1) 50" "of_int p \<le> xval (f64_of_int p + fdec 5 1)"
    "xval (f64_of_int p + fdec 5 1) \<le> of_int p + 1"
proof -
  have p: "bounded (f64_of_int p) 49" "xval (f64_of_int p) = of_int p"
    using bounded_int [of p 49] assms by auto
  have h: "bounded (fdec 5 1) 49" using half_val powi_mono [of 0 49] by (auto simp: bounded_def)
  have s: "xval (f64_of_int p + fdec 5 1) = fl (xval (f64_of_int p) + xval (fdec 5 1))"
    "bounded (f64_of_int p + fdec 5 1) 50"
    using bounded_add [OF p(1) h] by simp_all
  have fl: "fl (of_int p) = of_int p" "fl (of_int (p + 1)) = of_int (p + 1)" by (rule fl_of_int; use assms in simp)+
  show "bounded (f64_of_int p + fdec 5 1) 50" by (rule s(2))
  show "of_int p \<le> xval (f64_of_int p + fdec 5 1)"
    unfolding s(1) p(2) half_val(2) using fl_mono [of "of_int p" "of_int p + 1 / 2"] fl(1) by simp
  show "xval (f64_of_int p + fdec 5 1) \<le> of_int p + 1"
    unfolding s(1) p(2) half_val(2) using fl_mono [of "of_int p + 1 / 2" "of_int (p + 1)"] fl(2) by simp
qed

text \<open>What a run of \<open>compute\<close> on a proper range computes.\<close>

lemma vp_compute_shape:
  assumes "vp_compute bins c = Some (poc, vah, val)" and "0 < bins" and "c \<noteq> []"
    and "fold range_step c (c_Low (hd c), c_High (hd c)) = (mn, mx)" and "\<not> feq mx mn"
  obtains p l h where "0 \<le> l" "l \<le> p" "p \<le> h" "h < bins"
    and "poc = mn + (f64_of_int p + fdec 5 1) * ((mx - mn) / f64_of_int bins)"
    and "val = mn + f64_of_int l * ((mx - mn) / f64_of_int bins)"
    and "vah = mn + f64_of_int (h + 1) * ((mx - mn) / f64_of_int bins)"
proof -
  let ?bs = "(mx - mn) / f64_of_int bins"
  obtain v t where f: "fill_bins bins mn ?bs c (replicate (nat bins) 0) 0 = Some (v, t)" "int (length v) = bins"
    using fill_bins_runs [of "replicate (nat bins) 0" bins mn ?bs c 0] assms(2) by auto
  define p where "p = poc_scan 0 v 0 0"
  have p: "0 \<le> p" "p < bins"
    using poc_scan_range [of 0 0 bins v 0] f(2) assms(2) by (auto simp: p_def)
  then obtain l h a where w: "widen bins v (t * fdec 7 1) (v ! nat p) p p = Some (l, h, a)"
    "0 \<le> l" "l \<le> p" "p \<le> h" "h < bins"
    using widen_runs [OF p(1) order_refl p(2) f(2) [symmetric]] by blast
  show thesis
    by (rule that [of l p h]) (use assms f w p in \<open>auto simp: vp_compute_def Let_def p_def\<close>)
qed


section \<open>Volume that is not counted\<close>

text \<open>
  A candle whose bins are empty (its low falls past its high's bin, as for a candle at the
  top of the range, where the low's bin is not capped and the high's is) adds nothing.
\<close>

lemma fill_bins_skips:
  "end_bin bins mn bs b < start_bin mn bs b \<Longrightarrow>
   fill_bins bins mn bs (b # c) volAt tot = fill_bins bins mn bs c volAt tot"
  by (simp add: add_bins.simps Let_def)

definition flat_bar :: "f64 \<Rightarrow> f64 \<Rightarrow> f64 \<Rightarrow> candle" where
  "flat_bar lo hi v = \<lparr>c_Timestamp = 0, c_Open = lo, c_High = hi, c_Low = lo, c_Close = hi, c_Volume = v\<rparr>"

lemma int_val: "0 \<le> n \<Longrightarrow> n < 2 ^ 40 \<Longrightarrow> bounded (f64_of_int n) 900 \<and> xval (f64_of_int n) = of_int n"
  using bounded_int [of n 40] powi_mono [of 40 900] by (auto simp: bounded_def)

lemma zero_val: "bounded 0 900" "xval 0 = 0"
  by (simp_all add: bounded_def okfin_def f64_ok_def zero_f64_def)

theorem top_candle_ignored:
  "vp_compute 24 [flat_bar 0 (f64_of_int 24) v, flat_bar (f64_of_int 24) (f64_of_int 24) w]
     = vp_compute 24 [flat_bar 0 (f64_of_int 24) v]"
proof -
  let ?h = "f64_of_int 24" and ?z = "0 :: f64"
  let ?a = "flat_bar ?z ?h v" and ?b = "flat_bar ?h ?h w" and ?bs = "(?h - ?z) / f64_of_int 24"
  have h: "bounded ?h 900" "xval ?h = 24" using int_val [of 24] by simp_all
  have c: "\<not> ?h < ?h" "\<not> ?h < ?z" "\<not> ?z < ?z" "\<not> feq ?h ?z"
    using h zero_val bounded_less [OF h(1) h(1)] bounded_less [OF h(1) zero_val(1)]
      bounded_less [OF zero_val(1) zero_val(1)] bounded_le [OF h(1) zero_val(1)]
    by (simp_all add: feq_def flip: less_eq_f64_def)
  have d: "bounded (?h - ?z) 901" "xval (?h - ?z) = 24"
    using bounded_sub [OF h(1) zero_val(1)] h(2) zero_val(2) fl_of_int [of 24] by simp_all
  have bs: "bounded ?bs 901" "xval ?bs = 1"
    using bounded_div_int [OF d(1), of 24] d(2) fl_of_int [of 1] by simp_all
  have ok: "okfin (?h - ?z)" "okfin ?bs" "xval ?bs \<noteq> 0" using d bs by (simp_all add: bounded_def)
  note q = fdiv_val [OF ok]
  have qv: "xval ((?h - ?z) / ?bs) = of_int 24" using q(1) d(2) bs(2) fl_of_int [of 24] by simp
  have "bounded ((?h - ?z) / ?bs) 5"
    by (rule fl_bounded [OF q(2) q(1)]) (use d(2) bs(2) in \<open>simp_all add: powi_nat\<close>)
  then have "f64_to_int ((?h - ?z) / ?bs) = 24"
    using f64_to_int_exact [OF _ qv] by (simp add: bounded_def int64_min_def int64_max_def)
  then have "start_bin ?z ?bs ?b = 24" by (simp add: start_bin_def flat_bar_def)
  then have "end_bin 24 ?z ?bs ?b < start_bin ?z ?bs ?b" using end_bin_less [of 24 ?z ?bs ?b] by simp
  then have skip: "fill_bins 24 ?z ?bs [?b] vs t = fill_bins 24 ?z ?bs [] vs t" for vs t
    by (rule fill_bins_skips)
  have "fill_bins 24 ?z ?bs [?a, ?b] vs t = fill_bins 24 ?z ?bs [?a] vs t" for vs t
    unfolding fill_bins.simps(2) [of 24 ?z ?bs ?a "[?b]"] fill_bins.simps(2) [of 24 ?z ?bs ?a "[]"] Let_def skip ..
  then show ?thesis using c by (simp add: vp_compute_def range_step_def flat_bar_def)
qed

section \<open>Properties\<close>

text \<open>
  C8. The three levels of the volume profile are computed without a panic and in order, for
  every series of finite candles with low at most high and every volume, NaN included: the
  low end of the value area is at most the point of control, which is at most the high
  end. Float rounding cannot reverse them.
\<close>
theorem profile_levels_ordered:
  assumes "list_all candle_ok c" and "0 < bins" and "bins < 2 ^ 40"
  shows "\<exists>poc vah val. vp_compute bins c = Some (poc, vah, val) \<and> val \<le> poc \<and> poc \<le> vah"
proof (cases "c = []")
  case True
  then show ?thesis by (simp add: vp_compute_def fle_refl zero_f64_def)
next
  case ne: False
  then obtain c0 where c0: "c0 = hd c" "candle_ok c0" using assms(1) by (cases c) auto
  then have start: "bounded (c_Low c0) 900" "bounded (c_High c0) 900" "xval (c_Low c0) \<le> xval (c_High c0)"
    using bounded_le by (auto simp: candle_ok_def)
  obtain mn mx where r: "fold range_step c (c_Low (hd c), c_High (hd c)) = (mn, mx)"
    and b: "bounded mn 900" "bounded mx 900" and "xval mn \<le> xval (c_Low c0)" "xval (c_High c0) \<le> xval mx"
    using range_fold [OF assms(1) start] c0(1) by auto
  then have le: "xval mn \<le> xval mx" using start(3) by linarith
  show ?thesis
  proof (cases "feq mx mn")
    case True
    then have "mn \<le> mn" "mn \<le> mx" using b le by (simp_all add: bounded_le)
    then show ?thesis using ne r True by (simp add: vp_compute_def)
  next
    case False
    obtain poc vah val where v: "vp_compute bins c = Some (poc, vah, val)"
      using vp_compute_runs [OF assms(2), of c] by auto
    let ?bs = "(mx - mn) / f64_of_int bins"
    obtain p l h where s: "0 \<le> l" "l \<le> p" "p \<le> h" "h < bins" "poc = mn + (f64_of_int p + fdec 5 1) * ?bs"
      "val = mn + f64_of_int l * ?bs" "vah = mn + f64_of_int (h + 1) * ?bs"
      by (rule vp_compute_shape [OF v assms(2) ne r False])
    have d: "bounded (mx - mn) 901" "0 \<le> xval (mx - mn)"
      using bounded_sub [OF b(2,1)] le fl_nonneg [of "xval mx - xval mn"] by simp_all
    have "bins \<le> 2 ^ 53" using assms(3) by simp
    from bounded_div_int [OF d(1) assms(2) this] have bs: "bounded ?bs 901" "0 \<le> xval ?bs"
      using d(2) assms(2) fl_nonneg [of "xval (mx - mn) / of_int bins"] by simp_all
    have l: "bounded (f64_of_int l) 50" "xval (f64_of_int l) = of_int l"
      and h: "bounded (f64_of_int (h + 1)) 50" "xval (f64_of_int (h + 1)) = of_int (h + 1)"
      using bounded_int [of l 50] bounded_int [of "h + 1" 50] s(1-4) assms(3) by simp_all
    have "0 \<le> p" "p < 2 ^ 40" using s(1-4) assms(3) by simp_all
    note m = mid_bin [OF this]
    have "xval (f64_of_int l) \<le> xval (f64_of_int p + fdec 5 1)" using m(2) l(2) s(2) by simp
    from level_mono [OF b(1) bs l(1) m(1) this] have "val \<le> poc" by (simp only: s(5,6))
    moreover have "xval (f64_of_int p + fdec 5 1) \<le> xval (f64_of_int (h + 1))" using m(3) h(2) s(3) by simp
    from level_mono [OF b(1) bs m(1) h(1) this] have "poc \<le> vah" by (simp only: s(5,7))
    ultimately show ?thesis using v by blast
  qed
qed

theorem profile_levels_ordered_witness:
  "\<exists>poc vah val. vp_compute 24 [flat_bar 0 1 1] = Some (poc, vah, val) \<and> val \<le> poc \<and> poc \<le> vah"
proof (rule profile_levels_ordered)
  have "bounded 0 900" "bounded 1 900"
    by (simp_all add: bounded_def okfin_def f64_ok_def zero_f64_def one_f64_def powi_neg_nat powi_nat)
  moreover have "0 \<le> (1 :: f64)" by code_simp
  ultimately show "list_all candle_ok [flat_bar 0 1 1]" by (simp add: candle_ok_def flat_bar_def)
qed simp_all

text \<open>
  C30. The value area always ends, contains the point of control and stays inside the
  profile; when it stops it holds the target volume, or both of its neighbours are empty or
  outside. In the second case it can hold less than the 70 percent it stands for: next to
  an empty bin on each side it is never widened at all.
\<close>
theorem value_area:
  assumes "0 \<le> p" and "p < bins" and "bins = int (length volAt)"
  shows "\<exists>l h acc. widen bins volAt target (volAt ! nat p) p p = Some (l, h, acc)
      \<and> 0 \<le> l \<and> l \<le> p \<and> p \<le> h \<and> h < bins
      \<and> (\<not> acc < target \<or> ((0 < l \<longrightarrow> feq (volAt ! nat (l - 1)) 0) \<and> (h + 1 < bins \<longrightarrow> feq (volAt ! nat (h + 1)) 0)))
      \<and> (0 < p \<and> p + 1 < bins \<and> feq (volAt ! nat (p - 1)) 0 \<and> feq (volAt ! nat (p + 1)) 0 \<longrightarrow> l = p \<and> h = p)"
proof -
  obtain l h acc where w: "widen bins volAt target (volAt ! nat p) p p = Some (l, h, acc)"
    "0 \<le> l" "l \<le> p" "p \<le> h" "h < bins"
    "\<not> acc < target \<or> ((0 < l \<longrightarrow> feq (volAt ! nat (l - 1)) 0) \<and> (h + 1 < bins \<longrightarrow> feq (volAt ! nat (h + 1)) 0))"
    using widen_runs [OF assms(1) order_refl assms(2,3)] unfolding widen_stops_def by blast
  have "l = p \<and> h = p" if "0 < p" "p + 1 < bins" "feq (volAt ! nat (p - 1)) 0" "feq (volAt ! nat (p + 1)) 0"
  proof -
    have "widen bins volAt target (volAt ! nat p) p p = Some (p, p, volAt ! nat p)"
      by (subst widen.simps) (use that assms(3) in \<open>simp add: bin_vol_def Let_def\<close>)
    then show ?thesis using w(1) by simp
  qed
  then show ?thesis using w by blast
qed

theorem value_area_witness:
  "\<exists>l h acc. widen 3 [0, 1, 0] (f64_of_int 5) 1 1 1 = Some (l, h, acc) \<and> l = 1 \<and> h = 1"
proof -
  let ?v = "[0, 1, 0] :: f64 list"
  have z: "feq 0 (0 :: f64)" by code_simp
  have v: "?v ! nat 1 = 1" "?v ! nat (1 - 1) = 0" "?v ! nat (1 + 1) = 0" by simp_all
  have "\<exists>l h acc. widen 3 ?v (f64_of_int 5) (?v ! nat 1) 1 1 = Some (l, h, acc) \<and> l = 1 \<and> h = 1"
  proof -
    have b: "(0::int) \<le> 1" "(1::int) < 3" "3 = int (length ?v)" by simp_all
    have e: "(0::int) < 1 \<and> (1::int) + 1 < 3 \<and> feq (?v ! nat (1 - 1)) 0 \<and> feq (?v ! nat (1 + 1)) 0"
      unfolding v using z by simp
    show ?thesis using value_area [OF b, of "f64_of_int 5"] e by blast
  qed
  then show ?thesis unfolding v .
qed

end
