(* ===== verification/Pipeline.thy ===== *)
theory Pipeline
  imports VolumeProfile Protocol
begin

text \<open>
  \<open>ta/ta.go\<close>: the enricher set, the filter by indicator ids, the single-indicator API and
  the run over all timeframes. A Go slice of enrichers that may be nil is an option.

  \<open>multi.Slabs\<close> is a Go map: the association list is one of its iteration orders, and
  \<open>sort.Slice\<close> is the stable sort. Go leaves the order of equal ranks open; every such order
  is the stable one for some iteration order, so statements over all association lists
  cover it.
\<close>

section \<open>Enrichers\<close>

definition minBars :: int where
  "minBars = 50"

datatype enricher =
  RSIEnricher int
| MACDEnricher int int int
| EMAEnricher "int list"
| BollingerEnricher int f64
| ATREnricher int
| SupertrendEnricher int f64
| VWAPEnricher int
| OBVEnricher
| ADXEnricher int
| StochRSIEnricher int int int int
| DivergenceEnricher int
| SupportResistanceEnricher int
| VolumeProfileEnricher int int
| FibLevelsEnricher int
| PriceContextEnricher int

fun Name :: "enricher \<Rightarrow> string" where
  "Name (RSIEnricher _) = ''rsi''"
| "Name (MACDEnricher _ _ _) = ''macd''"
| "Name (EMAEnricher _) = ''ema''"
| "Name (BollingerEnricher _ _) = ''bollinger''"
| "Name (ATREnricher _) = ''atr''"
| "Name (SupertrendEnricher _ _) = ''supertrend''"
| "Name (VWAPEnricher _) = ''vwap''"
| "Name OBVEnricher = ''obv''"
| "Name (ADXEnricher _) = ''adx''"
| "Name (StochRSIEnricher _ _ _ _) = ''stochrsi''"
| "Name (DivergenceEnricher _) = ''divergence''"
| "Name (SupportResistanceEnricher _) = ''sr''"
| "Name (VolumeProfileEnricher _ _) = ''volume_profile''"
| "Name (FibLevelsEnricher _) = ''fib''"
| "Name (PriceContextEnricher _) = ''price_context''"

fun Enrich :: "('p, 'l) talib \<Rightarrow> enricher \<Rightarrow> candle list \<Rightarrow> string \<Rightarrow> annotation list go" where
  "Enrich L (RSIEnricher p) c tf = rsi_enrich L p c tf"
| "Enrich L (MACDEnricher f s g) c tf = macd_enrich L f s g c tf"
| "Enrich L (EMAEnricher ps) c tf = ema_enrich L ps c tf"
| "Enrich L (BollingerEnricher p sd) c tf = bollinger_enrich L p sd c tf"
| "Enrich L (ATREnricher p) c tf = atr_enrich L p c tf"
| "Enrich L (SupertrendEnricher p m) c tf = supertrend_enrich L p m c tf"
| "Enrich L (VWAPEnricher p) c tf = vwap_enrich L p c tf"
| "Enrich L OBVEnricher c tf = obv_enrich L c tf"
| "Enrich L (ADXEnricher p) c tf = adx_enrich L p c tf"
| "Enrich L (StochRSIEnricher r s k d) c tf = stochrsi_enrich L r s k d c tf"
| "Enrich L (DivergenceEnricher p) c tf = divergence_enrich L p c tf"
| "Enrich L (SupportResistanceEnricher lb) c tf = sr_enrich L lb c tf"
| "Enrich L (VolumeProfileEnricher b lb) c tf = profile_enrich b lb c tf"
| "Enrich L (FibLevelsEnricher lb) c tf = fib_enrich lb c tf"
| "Enrich L (PriceContextEnricher lb) c tf = context_enrich lb c tf"

definition DefaultPipeline :: "enricher list" where
  "DefaultPipeline =
     [RSIEnricher 14, MACDEnricher 12 26 9, EMAEnricher [20, 50, 200], BollingerEnricher 20 (fdec 20 1),
      ATREnricher 14, SupertrendEnricher 10 (fdec 30 1), VWAPEnricher 20, OBVEnricher, ADXEnricher 14,
      StochRSIEnricher 14 14 3 3, DivergenceEnricher 14, SupportResistanceEnricher 50,
      VolumeProfileEnricher 24 100, FibLevelsEnricher 200, PriceContextEnricher 200]"

definition IndicatorNames :: "string list" where
  "IndicatorNames = map Name DefaultPipeline"

section \<open>The interface \<open>Enricher\<close>\<close>

text \<open>
  What the runs rely on: an enricher that returns gives at most one reading, labelled with
  the timeframe it was given.
\<close>

definition labelled :: "string \<Rightarrow> annotation \<Rightarrow> bool" where
  "labelled tf a \<longleftrightarrow> (\<exists>nm. an_Indicator a = label nm tf)"

locale enricher_set =
  fixes enrich :: "'e \<Rightarrow> candle list \<Rightarrow> string \<Rightarrow> annotation list go"
  assumes reading: "enrich e c tf = Some as \<Longrightarrow> length as \<le> 1 \<and> list_all (labelled tf) as"
begin

lemma readings:
  "those (map (\<lambda>e. enrich e c tf) es) = Some ass \<Longrightarrow>
   length (concat ass) \<le> length es \<and> list_all (labelled tf) (concat ass)"
proof (induction es arbitrary: ass)
  case (Cons e es)
  then obtain as rest where r: "enrich e c tf = Some as" "those (map (\<lambda>e. enrich e c tf) es) = Some rest" "ass = as # rest"
    by (auto split: option.splits)
  then show ?case using reading [OF r(1)] Cons.IH [OF r(2)] by auto
qed simp

end

lemma labelled_annot [simp]: "labelled tf (annot (label nm tf) v s)"
  by (auto simp: labelled_def annot_def)

lemmas enrich_defs = rsi_enrich_def macd_enrich_def ema_enrich_def bollinger_enrich_def atr_enrich_def
  supertrend_enrich_def vwap_enrich_def obv_enrich_def adx_enrich_def stochrsi_enrich_def divergence_enrich_def
  sr_enrich_def profile_enrich_def fib_enrich_def context_enrich_def

lemma Enrich_reading:
  "Enrich L e c tf = Some as \<Longrightarrow> length as \<le> 1 \<and> list_all (labelled tf) as"
  by (cases e) (auto simp: enrich_defs Let_def bind_eq_Some_conv split: if_splits prod.splits)

interpretation ta: enricher_set "Enrich L" for L :: "('p, 'l) talib"
  by unfold_locales (rule Enrich_reading)

section \<open>One timeframe\<close>

fun run_pipeline :: "('p, 'l) talib \<Rightarrow> enricher list \<Rightarrow> candle list \<Rightarrow> string \<Rightarrow> annotation list go" where
  "run_pipeline L [] c tf = Some []"
| "run_pipeline L (e # es) c tf = do {
     a \<leftarrow> Enrich L e c tf;
     rest \<leftarrow> run_pipeline L es c tf;
     Some (a @ rest) }"

lemma run_pipeline_those:
  "run_pipeline L es c tf = map_option concat (those (map (\<lambda>e. Enrich L e c tf) es))"
proof (induction es)
  case (Cons e es)
  then show ?case
    by (cases "Enrich L e c tf"; cases "those (map (\<lambda>e. Enrich L e c tf) es)") simp_all
qed simp

lemma run_pipeline_readings:
  "run_pipeline L es c tf = Some as \<Longrightarrow> length as \<le> length es \<and> list_all (labelled tf) as"
  by (auto simp: run_pipeline_those dest!: ta.readings)

definition EnrichTimeframe :: "('p, 'l) talib \<Rightarrow> candle list \<Rightarrow> string \<Rightarrow> enricher list option \<Rightarrow> annotation list go" where
  "EnrichTimeframe L candles tf pipeline =
     (if int (length candles) < minBars then Some []
      else run_pipeline L (case pipeline of None \<Rightarrow> DefaultPipeline | Some p \<Rightarrow> p) candles tf)"

text \<open>\<open>var out []Enricher\<close> stays nil when nothing is appended.\<close>

definition filterPipeline :: "unicode \<Rightarrow> enricher list \<Rightarrow> string list \<Rightarrow> enricher list option" where
  "filterPipeline U pipeline only =
     (if only = [] then Some pipeline
      else
        let want = set (map (\<lambda>n. to_lower U (trim_space U n)) only);
            out = filter (\<lambda>e. Name e \<in> want) pipeline
        in if out = [] then None else Some out)"

section \<open>All timeframes\<close>

record timeframe_annotations =
  tf_Timeframe :: string
  tf_Bars :: int
  tf_Annotations :: "annotation list"

fun enrich_slabs :: "('p, 'l) talib \<Rightarrow> enricher list option \<Rightarrow> (string \<times> chart_data option) list
    \<Rightarrow> timeframe_annotations list go" where
  "enrich_slabs L pipeline [] = Some []"
| "enrich_slabs L pipeline ((tf, None) # slabs) = enrich_slabs L pipeline slabs"
| "enrich_slabs L pipeline ((tf, Some slab) # slabs) = do {
     a \<leftarrow> EnrichTimeframe L (cd_Candles slab) tf pipeline;
     rest \<leftarrow> enrich_slabs L pipeline slabs;
     Some (\<lparr>tf_Timeframe = tf, tf_Bars = int (length (cd_Candles slab)), tf_Annotations = a\<rparr> # rest) }"

definition EnrichMulti :: "unicode \<Rightarrow> ('p, 'l) talib \<Rightarrow> multi_chart_data option \<Rightarrow> string list
    \<Rightarrow> timeframe_annotations list go" where
  "EnrichMulti U L multi only =
     (case multi of
        None \<Rightarrow> Some []
      | Some m \<Rightarrow> map_option (sort_key (\<lambda>g. tfRank (tf_Timeframe g)))
          (enrich_slabs L (filterPipeline U DefaultPipeline only) (md_Slabs m)))"

section \<open>One indicator\<close>

record params =
  pr_Period :: int
  pr_Fast :: int
  pr_Slow :: int
  pr_Signal :: int
  pr_StdDev :: f64
  pr_Multiplier :: f64
  pr_Periods :: "int list"
  pr_Lookback :: int

definition pick_int :: "int \<Rightarrow> int \<Rightarrow> int" where
  "pick_int v d = (if 0 < v then v else d)"

definition pick_float :: "f64 \<Rightarrow> f64 \<Rightarrow> f64" where
  "pick_float v d = (if 0 < v then v else d)"

definition unknown_indicator :: "unicode \<Rightarrow> string \<Rightarrow> string" where
  "unknown_indicator U nm = ''ta: unknown indicator '' @ go_quote U nm @ ''; valid: '' @ join '', '' IndicatorNames"

definition enricherFor :: "unicode \<Rightarrow> string \<Rightarrow> params \<Rightarrow> string + enricher" where
  "enricherFor U nm p =
     (if nm = ''rsi'' then Inr (RSIEnricher (pick_int (pr_Period p) 14))
      else if nm = ''macd''
      then Inr (MACDEnricher (pick_int (pr_Fast p) 12) (pick_int (pr_Slow p) 26) (pick_int (pr_Signal p) 9))
      else if nm = ''ema'' then Inr (EMAEnricher (if pr_Periods p = [] then [20, 50, 200] else pr_Periods p))
      else if nm = ''bollinger''
      then Inr (BollingerEnricher (pick_int (pr_Period p) 20) (pick_float (pr_StdDev p) (fdec 20 1)))
      else if nm = ''atr'' then Inr (ATREnricher (pick_int (pr_Period p) 14))
      else if nm = ''supertrend''
      then Inr (SupertrendEnricher (pick_int (pr_Period p) 10) (pick_float (pr_Multiplier p) (fdec 30 1)))
      else if nm = ''vwap'' then Inr (VWAPEnricher (pick_int (pr_Period p) 20))
      else if nm = ''obv'' then Inr OBVEnricher
      else if nm = ''adx'' then Inr (ADXEnricher (pick_int (pr_Period p) 14))
      else if nm = ''stochrsi'' then Inr (StochRSIEnricher (pick_int (pr_Period p) 14) 14 3 3)
      else if nm = ''divergence'' then Inr (DivergenceEnricher (pick_int (pr_Period p) 14))
      else if nm = ''sr'' then Inr (SupportResistanceEnricher (pick_int (pr_Lookback p) 50))
      else if nm = ''volume_profile'' then Inr (VolumeProfileEnricher 24 (pick_int (pr_Lookback p) 100))
      else if nm = ''fib'' then Inr (FibLevelsEnricher (pick_int (pr_Lookback p) 200))
      else if nm = ''price_context'' then Inr (PriceContextEnricher (pick_int (pr_Lookback p) 200))
      else Inl (unknown_indicator U nm))"

definition Compute :: "unicode \<Rightarrow> ('p, 'l) talib \<Rightarrow> string \<Rightarrow> candle list \<Rightarrow> string \<Rightarrow> params
    \<Rightarrow> (string + annotation list) go" where
  "Compute U L nm candles tf p =
     (case enricherFor U (to_lower U (trim_space U nm)) p of
        Inl err \<Rightarrow> Some (Inl err)
      | Inr e \<Rightarrow>
          if int (length candles) < minBars
          then Some (Inl (''ta: need at least '' @ show_int minBars @ '' candles for '' @ go_quote U nm
                 @ '', got '' @ show_int (int (length candles))))
          else map_option Inr (Enrich L e candles tf))"

end
