(* ===== verification/Analysis.thy ===== *)
theory Analysis
  imports Pipeline
begin

text \<open>
  What the runs of the indicators do: when they do not panic, in which order they report, and
  that the levels they report are ordered. The indicator library is a parameter; what is
  asked of it is the predicate \<open>lib_ok\<close>.
\<close>

section \<open>What the library must not do\<close>

text \<open>
  What the sources rely on: the library calls return for positive periods on a series long
  enough for them, and the rows the enrichers index are long enough: three values per band, two
  per supertrend and stochastic reading. Nothing is said of shorter series.
\<close>

definition lib_ok :: "('p, 'l) talib \<Rightarrow> bool" where
  "lib_ok L \<longleftrightarrow>
     (\<forall>x p. 0 < p \<and> p < int (length x) \<longrightarrow> ti_Rsi L x p \<noteq> None)
     \<and> (\<forall>x a b. 0 < a \<and> 0 < b \<and> a + b \<le> int (length x) \<longrightarrow> ti_Macd L x a b \<noteq> None)
     \<and> (\<forall>x a b c. 0 < a \<and> 0 < b \<and> 0 < c \<and> a + b + c \<le> int (length x) \<longrightarrow>
          ti_MacdSignal L x a b c \<noteq> None \<and> ti_MacdBars L x a b c \<noteq> None)
     \<and> (\<forall>x p. 0 < p \<and> p \<le> int (length x) \<longrightarrow> ti_Ema L x p \<noteq> None)
     \<and> (\<forall>x p d. 0 < p \<and> p \<le> int (length x) \<longrightarrow> ti_Bands L x p d \<noteq> None)
     \<and> (\<forall>x p d r. ti_Bands L x p d = Some r \<longrightarrow> (\<forall>t \<in> set r. 3 \<le> length t))
     \<and> (\<forall>x p. 0 < p \<and> p < int (length x) \<longrightarrow> ti_Atr L x p \<noteq> None)
     \<and> (\<forall>x p m. 0 < p \<and> p < int (length x) \<longrightarrow> ti_Supertrend L x p m \<noteq> None)
     \<and> (\<forall>x p m r. ti_Supertrend L x p m = Some r \<longrightarrow> (\<forall>t \<in> set r. 2 \<le> length t))
     \<and> (\<forall>x p. 0 < p \<and> p \<le> int (length x) \<longrightarrow> ti_Vwap L x p \<noteq> None)
     \<and> (\<forall>x. x \<noteq> [] \<longrightarrow> ti_Obv L x \<noteq> None)
     \<and> (\<forall>x p. 0 < p \<and> 2 * p \<le> int (length x) \<longrightarrow> ti_Adx L x p \<noteq> None)
     \<and> (\<forall>x a b c d. 0 < a \<and> 0 < b \<and> 0 < c \<and> 0 < d \<and> a + b + c + d \<le> int (length x) \<longrightarrow>
          ti_StochRsi L x a b c d \<noteq> None)
     \<and> (\<forall>x a b c d r. ti_StochRsi L x a b c d = Some r \<longrightarrow> (\<forall>t \<in> set r. 2 \<le> length t))
     \<and> (\<forall>x p. 0 < p \<and> p < int (length x) \<longrightarrow> ti_Rsi_divergence L x p (ti_Rsi L) \<noteq> None)
     \<and> (\<forall>x n. 0 < n \<and> n \<le> int (length x) \<longrightarrow> ti_RecentHigh L x n \<noteq> None \<and> ti_RecentLow L x n \<noteq> None)
     \<and> (\<forall>x n q. ti_RecentLow L x n = Some q \<longrightarrow> ti_Support L x q \<noteq> None)
     \<and> (\<forall>x n q. ti_RecentHigh L x n = Some q \<longrightarrow> ti_Resistance L x q \<noteq> None)
     \<and> (\<forall>i l. ti_LineCalc L i l \<noteq> None)"

text \<open>The parameters of an enricher fit a series of \<open>n\<close> candles.\<close>

fun enricher_fits :: "enricher \<Rightarrow> int \<Rightarrow> bool" where
  "enricher_fits (RSIEnricher p) n = (0 < p \<and> p < n)"
| "enricher_fits (MACDEnricher f s g) n = (0 < f \<and> 0 < s \<and> 0 < g \<and> f + s + g \<le> n)"
| "enricher_fits (EMAEnricher ps) n = list_all (\<lambda>p. 0 < p) ps"
| "enricher_fits (BollingerEnricher p sd) n = (0 < p \<and> p \<le> n)"
| "enricher_fits (ATREnricher p) n = (0 < p \<and> p < n)"
| "enricher_fits (SupertrendEnricher p m) n = (0 < p \<and> p < n)"
| "enricher_fits (VWAPEnricher p) n = (0 < p \<and> p \<le> n)"
| "enricher_fits OBVEnricher n = True"
| "enricher_fits (ADXEnricher p) n = (0 < p \<and> 2 * p \<le> n)"
| "enricher_fits (StochRSIEnricher r s k d) n = (0 < r \<and> 0 < s \<and> 0 < k \<and> 0 < d \<and> r + s + k + d \<le> n)"
| "enricher_fits (DivergenceEnricher p) n = (0 < p \<and> p < n)"
| "enricher_fits (SupportResistanceEnricher lb) n = (0 < lb)"
| "enricher_fits (VolumeProfileEnricher b lb) n = (0 < b \<and> 0 < lb)"
| "enricher_fits (FibLevelsEnricher lb) n = (0 < lb)"
| "enricher_fits (PriceContextEnricher lb) n = (0 < lb)"

lemma window_runs:
  "0 < lb \<Longrightarrow> \<not> int (length c) < lb \<Longrightarrow>
   \<exists>w. go_from c (int (length c) - lb) = Some w \<and> w \<noteq> [] \<and> int (length w) = lb"
  by (auto simp: go_from_def)

lemma last_runs: "xs \<noteq> [] \<Longrightarrow> go_nth xs (int (length xs) - 1) = Some (last xs)"
  by (rule go_nth_last)

lemma last_close_runs: "c \<noteq> [] \<Longrightarrow> last_close c = Some (c_Close (last c))"
  by (simp add: last_close_def last_runs del: go_nth_inside)

lemma findSwing_runs: "c \<noteq> [] \<Longrightarrow> \<exists>h l. findSwing c = Some (h, l)"
  by (cases c) (auto simp: findSwing_def)

lemma row_runs: "n \<le> length t \<Longrightarrow> 0 \<le> i \<Longrightarrow> i < int n \<Longrightarrow> \<exists>v. go_nth t i = Some v"
  by (simp add: go_nth_def)

lemma ema_vals_runs:
  "\<forall>p. 0 < p \<and> p \<le> int (length cl) \<longrightarrow> ti_Ema L cl p \<noteq> None \<Longrightarrow> list_all (\<lambda>p. 0 < p) ps \<Longrightarrow>
   \<exists>v. ema_vals L cl ps vals = Some v"
proof (induction L cl ps vals rule: ema_vals.induct)
  case (2 L cl p ps vals)
  show ?case
  proof (cases "int (length cl) < p")
    case True
    then show ?thesis using "2.IH"(1) "2.prems" by simp
  next
    case False
    then obtain e where "ti_Ema L cl p = Some e" using "2.prems" by auto
    then show ?thesis using "2.IH"(2) [of e] "2.prems" False by (simp del: fun_upd_apply)
  qed
qed simp

text \<open>The promises, one library function at a time.\<close>

lemma lib_scalar:
  assumes "lib_ok L"
  shows "0 < p \<Longrightarrow> p < int (length x) \<Longrightarrow> \<exists>r. ti_Rsi L x p = Some r"
    and "0 < p \<Longrightarrow> 0 < q \<Longrightarrow> p + q \<le> int (length x) \<Longrightarrow> \<exists>r. ti_Macd L x p q = Some r"
    and "0 < p \<Longrightarrow> 0 < q \<Longrightarrow> 0 < k \<Longrightarrow> p + q + k \<le> int (length x) \<Longrightarrow> \<exists>r. ti_MacdSignal L x p q k = Some r"
    and "0 < p \<Longrightarrow> 0 < q \<Longrightarrow> 0 < k \<Longrightarrow> p + q + k \<le> int (length x) \<Longrightarrow> \<exists>r. ti_MacdBars L x p q k = Some r"
    and "\<forall>p. 0 < p \<and> p \<le> int (length x) \<longrightarrow> ti_Ema L x p \<noteq> None"
    and "0 < p \<Longrightarrow> p < int (length y) \<Longrightarrow> \<exists>r. ti_Atr L y p = Some r"
    and "0 < p \<Longrightarrow> p \<le> int (length y) \<Longrightarrow> \<exists>r. ti_Vwap L y p = Some r"
    and "y \<noteq> [] \<Longrightarrow> \<exists>r. ti_Obv L y = Some r"
    and "0 < p \<Longrightarrow> 2 * p \<le> int (length y) \<Longrightarrow> \<exists>r. ti_Adx L y p = Some r"
    and "0 < p \<Longrightarrow> p < int (length x) \<Longrightarrow> \<exists>r. ti_Rsi_divergence L x p (ti_Rsi L) = Some r"
  using assms by (simp_all add: lib_ok_def)

lemma lib_lines:
  assumes "lib_ok L"
  shows "0 < n \<Longrightarrow> n \<le> int (length x) \<Longrightarrow> \<exists>h l. ti_RecentHigh L x n = Some h \<and> ti_RecentLow L x n = Some l"
    and "ti_RecentLow L x n = Some q \<Longrightarrow> \<exists>r. ti_Support L x q = Some r"
    and "ti_RecentHigh L x n = Some q \<Longrightarrow> \<exists>r. ti_Resistance L x q = Some r"
    and "\<exists>r. ti_LineCalc L i l = Some r"
  using assms by (auto simp: lib_ok_def)

lemma rows_last: "\<forall>t \<in> set r. n \<le> length t \<Longrightarrow> r \<noteq> [] \<longrightarrow> n \<le> length (last r)"
  using last_in_set by blast

lemma lib_calls:
  assumes "lib_ok L"
  shows "0 < p \<Longrightarrow> p \<le> int (length x) \<Longrightarrow> \<exists>r. ti_Bands L x p d = Some r"
    and "0 < p \<Longrightarrow> p < int (length y) \<Longrightarrow> \<exists>r. ti_Supertrend L y p d = Some r"
    and "0 < p \<Longrightarrow> 0 < q \<Longrightarrow> 0 < j \<Longrightarrow> 0 < k \<Longrightarrow> p + q + j + k \<le> int (length x) \<Longrightarrow>
      \<exists>r. ti_StochRsi L x p q j k = Some r"
  using assms by (simp_all add: lib_ok_def)

lemma lib_shapes:
  assumes "lib_ok L"
  shows "\<forall>x p d r. ti_Bands L x p d = Some r \<longrightarrow> (\<forall>t \<in> set r. 3 \<le> length t)"
    and "\<forall>x p m r. ti_Supertrend L x p m = Some r \<longrightarrow> (\<forall>t \<in> set r. 2 \<le> length t)"
    and "\<forall>x a b c d r. ti_StochRsi L x a b c d = Some r \<longrightarrow> (\<forall>t \<in> set r. 2 \<le> length t)"
proof -
  note ok = assms [unfolded lib_ok_def]
  from ok show "\<forall>x p d r. ti_Bands L x p d = Some r \<longrightarrow> (\<forall>t \<in> set r. 3 \<le> length t)" by (elim conjE)
  from ok show "\<forall>x p m r. ti_Supertrend L x p m = Some r \<longrightarrow> (\<forall>t \<in> set r. 2 \<le> length t)" by (elim conjE)
  from ok show "\<forall>x a b c d r. ti_StochRsi L x a b c d = Some r \<longrightarrow> (\<forall>t \<in> set r. 2 \<le> length t)" by (elim conjE)
qed

lemma lib_rows:
  assumes "lib_ok L"
  shows "0 < p \<Longrightarrow> p \<le> int (length x) \<Longrightarrow> \<exists>r. ti_Bands L x p d = Some r \<and> (r \<noteq> [] \<longrightarrow> 3 \<le> length (last r))"
    and "0 < p \<Longrightarrow> p < int (length y) \<Longrightarrow> \<exists>r. ti_Supertrend L y p d = Some r \<and> (r \<noteq> [] \<longrightarrow> 2 \<le> length (last r))"
    and "0 < p \<Longrightarrow> 0 < q \<Longrightarrow> 0 < j \<Longrightarrow> 0 < k \<Longrightarrow> p + q + j + k \<le> int (length x) \<Longrightarrow>
      \<exists>r. ti_StochRsi L x p q j k = Some r \<and> (r \<noteq> [] \<longrightarrow> 2 \<le> length (last r))"
  using lib_calls [OF assms] lib_shapes [OF assms] rows_last by metis+

lemma series_length [simp]:
  "length (closes c) = length c" "length (hlc c) = length c" "length (closeVolume c) = length c"
  "length (volumeClose c) = length c"
  by (simp_all add: closes_def hlc_def closeVolume_def volumeClose_def)

text \<open>Each enricher runs on a series its parameters fit.\<close>

lemma rsi_runs:
  "lib_ok L \<Longrightarrow> enricher_fits (RSIEnricher p) (int (length c)) \<Longrightarrow> \<exists>a. rsi_enrich L p c tf = Some a"
  using lib_scalar(1) [of L p "closes c"] by (auto simp: rsi_enrich_def Let_def)

lemma macd_runs:
  "lib_ok L \<Longrightarrow> enricher_fits (MACDEnricher f k g) (int (length c)) \<Longrightarrow> \<exists>a. macd_enrich L f k g c tf = Some a"
  using lib_scalar(2) [of L f k "closes c"] lib_scalar(3) [of L f k g "closes c"] lib_scalar(4) [of L f k g "closes c"]
  by (auto simp: macd_enrich_def Let_def)

lemma ema_runs:
  assumes "lib_ok L" and "enricher_fits (EMAEnricher ps) (int (length c))" and "c \<noteq> []"
  shows "\<exists>a. ema_enrich L ps c tf = Some a"
proof -
  have "closes c \<noteq> []" using assms(3) by (simp add: closes_def)
  note p = last_runs [OF this]
  obtain v where "ema_vals L (closes c) ps Map.empty = Some v"
    using ema_vals_runs [of "closes c" L ps Map.empty, OF lib_scalar(5) [OF assms(1)]] assms(2) by auto
  with p show ?thesis by (simp add: ema_enrich_def Let_def del: go_nth_inside series_length)
qed

lemma bollinger_runs:
  assumes "lib_ok L" and "enricher_fits (BollingerEnricher p sd) (int (length c))" and "c \<noteq> []"
  shows "\<exists>a. bollinger_enrich L p sd c tf = Some a"
proof -
  have "closes c \<noteq> []" using assms(3) by (simp add: closes_def)
  note price = last_runs [OF this]
  obtain r where r: "ti_Bands L (closes c) p sd = Some r" "r \<noteq> [] \<longrightarrow> 3 \<le> length (last r)"
    using lib_rows(1) [OF assms(1), of p "closes c" sd] assms(2) by auto
  then show ?thesis
    using price row_runs [of 3 "last r" 0] row_runs [of 3 "last r" 1] row_runs [of 3 "last r" 2]
    by (auto simp: bollinger_enrich_def Let_def simp del: go_nth_inside series_length)
qed

lemma atr_runs:
  "lib_ok L \<Longrightarrow> enricher_fits (ATREnricher p) (int (length c)) \<Longrightarrow> c \<noteq> [] \<Longrightarrow> \<exists>a. atr_enrich L p c tf = Some a"
  using lib_scalar(6) [of L p "hlc c"] last_close_runs [of c] by (auto simp: atr_enrich_def Let_def)

lemma supertrend_runs:
  assumes "lib_ok L" and "enricher_fits (SupertrendEnricher p m) (int (length c))"
  shows "\<exists>a. supertrend_enrich L p m c tf = Some a"
proof -
  obtain r where "ti_Supertrend L (hlc c) p m = Some r" "r \<noteq> [] \<longrightarrow> 2 \<le> length (last r)"
    using lib_rows(2) [OF assms(1), of p "hlc c" m] assms(2) by auto
  then show ?thesis
    using row_runs [of 2 "last r" 0] row_runs [of 2 "last r" 1]
    by (auto simp: supertrend_enrich_def Let_def simp del: go_nth_inside)
qed

lemma vwap_runs:
  "lib_ok L \<Longrightarrow> enricher_fits (VWAPEnricher p) (int (length c)) \<Longrightarrow> c \<noteq> [] \<Longrightarrow> \<exists>a. vwap_enrich L p c tf = Some a"
  using lib_scalar(7) [of L p "closeVolume c"] last_close_runs [of c] by (auto simp: vwap_enrich_def Let_def)

lemma obv_runs:
  assumes "lib_ok L" and "c \<noteq> []"
  shows "\<exists>a. obv_enrich L c tf = Some a"
proof -
  have "volumeClose c \<noteq> []" using assms(2) by (simp add: volumeClose_def)
  then obtain r where r: "ti_Obv L (volumeClose c) = Some r" using lib_scalar(8) [OF assms(1)] by blast
  show ?thesis
  proof (cases "length r < 20")
    case False
    then have "go_nth r (int (length r) - 1) = Some (r ! nat (int (length r) - 1))"
      "go_nth r (int (length r) - 10) = Some (r ! nat (int (length r) - 10))"
      by (intro go_nth_inside; linarith)+
    then show ?thesis using r False by (simp add: obv_enrich_def del: go_nth_inside)
  qed (use r in \<open>simp add: obv_enrich_def\<close>)
qed

lemma adx_runs:
  "lib_ok L \<Longrightarrow> enricher_fits (ADXEnricher p) (int (length c)) \<Longrightarrow> \<exists>a. adx_enrich L p c tf = Some a"
  using lib_scalar(9) [of L p "hlc c"] by (auto simp: adx_enrich_def Let_def)

lemma stochrsi_runs:
  assumes "lib_ok L" and "enricher_fits (StochRSIEnricher x y k d) (int (length c))"
  shows "\<exists>a. stochrsi_enrich L x y k d c tf = Some a"
proof -
  obtain r where "ti_StochRsi L (closes c) x y k d = Some r" "r \<noteq> [] \<longrightarrow> 2 \<le> length (last r)"
    using lib_rows(3) [OF assms(1), of x y k d "closes c"] assms(2) by auto
  then show ?thesis
    using row_runs [of 2 "last r" 0] row_runs [of 2 "last r" 1]
    by (auto simp: stochrsi_enrich_def Let_def simp del: go_nth_inside)
qed

lemma divergence_runs:
  "lib_ok L \<Longrightarrow> enricher_fits (DivergenceEnricher p) (int (length c)) \<Longrightarrow> \<exists>a. divergence_enrich L p c tf = Some a"
  using lib_scalar(10) [of L p "closes c"] by (auto simp: divergence_enrich_def Let_def)

lemma sr_runs:
  assumes "lib_ok L" and "0 < lb"
  shows "\<exists>a. sr_enrich L lb c tf = Some a"
proof (cases "int (length c) < lb")
  case False
  then obtain w where w: "go_from c (int (length c) - lb) = Some w" "w \<noteq> []" "int (length w) = lb"
    using window_runs [OF assms(2)] by blast
  then have "closes w \<noteq> []" by (simp add: closes_def)
  note p = last_runs [OF this]
  obtain hi lo where hl: "ti_RecentHigh L (closes w) lb = Some hi" "ti_RecentLow L (closes w) lb = Some lo"
    using lib_lines(1) [OF assms(1), of lb "closes w"] assms(2) w(3) by auto
  obtain sl rl where "ti_Support L (closes w) lo = Some sl" "ti_Resistance L (closes w) hi = Some rl"
    using lib_lines(2) [OF assms(1) hl(2)] lib_lines(3) [OF assms(1) hl(1)] by blast
  moreover obtain a b where "ti_LineCalc L (int (length (closes w)) - 1) sl = Some a"
    "ti_LineCalc L (int (length (closes w)) - 1) rl = Some b" using lib_lines(4) [OF assms(1)] by blast
  ultimately show ?thesis
    using False w(1) p hl by (simp add: sr_enrich_def Let_def del: go_nth_inside go_from_inside series_length)
qed (simp add: sr_enrich_def Let_def)

lemma profile_runs:
  assumes "0 < b" and "0 < lb" and "c \<noteq> []"
  shows "\<exists>a. profile_enrich b lb c tf = Some a"
proof (cases "int (length c) < lb")
  case False
  then obtain w where "go_from c (int (length c) - lb) = Some w" using window_runs [OF assms(2)] by blast
  moreover obtain x y z where "vp_compute b w = Some (x, y, z)" using vp_compute_runs [OF assms(1), of w] by auto
  ultimately show ?thesis
    using False last_close_runs [OF assms(3)] by (simp add: profile_enrich_def Let_def del: go_from_inside)
qed (simp add: profile_enrich_def Let_def)

lemma fib_runs:
  assumes "0 < lb" and "c \<noteq> []"
  shows "\<exists>a. fib_enrich lb c tf = Some a"
proof (cases "int (length c) < lb")
  case False
  then obtain w where w: "go_from c (int (length c) - lb) = Some w" "w \<noteq> []" using window_runs [OF assms(1)] by blast
  moreover obtain h l where "findSwing w = Some (h, l)" using findSwing_runs [OF w(2)] by blast
  ultimately show ?thesis
    using False last_close_runs [OF assms(2)] by (simp add: fib_enrich_def Let_def del: go_from_inside)
qed (simp add: fib_enrich_def Let_def)

lemma context_runs:
  assumes "0 < lb" and "c \<noteq> []"
  shows "\<exists>a. context_enrich lb c tf = Some a"
proof (cases "int (length c) < lb")
  case False
  then obtain w where w: "go_from c (int (length c) - lb) = Some w" "w \<noteq> []" using window_runs [OF assms(1)] by blast
  moreover obtain h l where "findSwing w = Some (h, l)" using findSwing_runs [OF w(2)] by blast
  ultimately show ?thesis
    using False last_close_runs [OF assms(2)] by (simp add: context_enrich_def Let_def del: go_from_inside)
qed (simp add: context_enrich_def Let_def)

lemma Enrich_runs:
  assumes "lib_ok L" and "enricher_fits e (int (length c))" and "c \<noteq> []"
  shows "\<exists>a. Enrich L e c tf = Some a"
  using assms(2)
  by (cases e) (simp_all add: assms rsi_runs macd_runs ema_runs bollinger_runs atr_runs supertrend_runs vwap_runs
      obv_runs adx_runs stochrsi_runs divergence_runs sr_runs profile_runs fib_runs context_runs)

lemma run_pipeline_runs:
  "lib_ok L \<Longrightarrow> list_all (\<lambda>e. enricher_fits e (int (length c))) es \<Longrightarrow> c \<noteq> [] \<Longrightarrow> \<exists>a. run_pipeline L es c tf = Some a"
proof (induction es)
  case (Cons e es)
  then obtain a b where "Enrich L e c tf = Some a" "run_pipeline L es c tf = Some b"
    using Enrich_runs [of L e c tf] by auto
  then show ?case by simp
qed simp

lemma default_fits: "50 \<le> n \<Longrightarrow> list_all (\<lambda>e. enricher_fits e n) DefaultPipeline"
  by (simp add: DefaultPipeline_def)

lemma filter_fits:
  "50 \<le> n \<Longrightarrow> filterPipeline U DefaultPipeline only = Some es \<Longrightarrow> list_all (\<lambda>e. enricher_fits e n) es"
  using default_fits [of n] by (auto simp: filterPipeline_def Let_def list_all_iff split: if_splits)

lemma enricherFor_name: "enricherFor U nm p = Inr e \<Longrightarrow> Name e = nm"
  by (auto simp: enricherFor_def split: if_splits)

lemma enricherFor_known: "(\<exists>e. enricherFor U nm p = Inr e) \<longleftrightarrow> nm \<in> set IndicatorNames"
  by (auto simp: enricherFor_def IndicatorNames_def DefaultPipeline_def)

definition no_params :: params where
  "no_params = \<lparr>pr_Period = 0, pr_Fast = 0, pr_Slow = 0, pr_Signal = 0, pr_StdDev = 0, pr_Multiplier = 0,
     pr_Periods = [], pr_Lookback = 0\<rparr>"

lemma pick_zero: "pick_int 0 d = d" "pick_float 0 x = x"
  by (simp_all add: pick_int_def pick_float_def zero_f64_def less_f64_def)

lemma enricherFor_default: "e \<in> set DefaultPipeline \<Longrightarrow> enricherFor U (Name e) no_params = Inr e"
  by (auto simp: DefaultPipeline_def enricherFor_def no_params_def pick_zero)

lemma names_plain: "e \<in> set DefaultPipeline \<Longrightarrow> to_lower U (trim_space U (Name e)) = Name e"
proof -
  have "list_all (\<lambda>e. ascii (Name e) \<and> trim_both (Name e) = Name e \<and> map lower_c (Name e) = Name e) DefaultPipeline"
    by code_simp
  then show "e \<in> set DefaultPipeline \<Longrightarrow> ?thesis"
    by (auto simp: list_all_iff to_lower_def trim_space_def)
qed

section \<open>Groups\<close>

definition group_of :: "('p, 'l) talib \<Rightarrow> enricher list option \<Rightarrow> string \<times> chart_data \<Rightarrow> timeframe_annotations" where
  "group_of L pl ts = (case ts of (tf, slab) \<Rightarrow>
     \<lparr>tf_Timeframe = tf, tf_Bars = int (length (cd_Candles slab)),
      tf_Annotations = the (EnrichTimeframe L (cd_Candles slab) tf pl)\<rparr>)"

definition present :: "(string \<times> chart_data option) list \<Rightarrow> (string \<times> chart_data) list" where
  "present slabs = List.map_filter (\<lambda>(tf, s). map_option (Pair tf) s) slabs"

lemma present_simps [simp]:
  "present [] = []" "present ((tf, None) # xs) = present xs" "present ((tf, Some s) # xs) = (tf, s) # present xs"
  by (simp_all add: present_def)

lemma enrich_slabs_map:
  "enrich_slabs L pl xs = (if list_all (\<lambda>(tf, s). EnrichTimeframe L (cd_Candles s) tf pl \<noteq> None) (present xs)
     then Some (map (group_of L pl) (present xs)) else None)"
proof (induction L pl xs rule: enrich_slabs.induct)
  case (3 L pl tf slab slabs)
  then show ?case by (cases "EnrichTimeframe L (cd_Candles slab) tf pl") (simp_all add: group_of_def)
qed simp_all

lemma mset_present: "mset xs = mset ys \<Longrightarrow> mset (present xs) = mset (present ys)"
proof -
  have m: "mset (present xs) = sum_mset (image_mset (\<lambda>(tf, s). case s of None \<Rightarrow> {#} | Some d \<Rightarrow> {#(tf, d)#}) (mset xs))" for xs
    by (induction xs) (auto split: option.splits)
  show "mset xs = mset ys \<Longrightarrow> ?thesis" by (simp add: m)
qed

lemma sort_key_unique:
  assumes "mset xs = mset ys" and "distinct (map f xs)"
  shows "sort_key f xs = sort_key f (ys :: 'a list)"
proof -
  have inj: "inj_on f (set xs)" "distinct xs" using assms(2) by (simp_all add: distinct_map)
  have s: "set ys = set xs" "distinct ys" using assms(1) inj(2) mset_eq_setD mset_eq_imp_distinct_iff by metis+
  have "distinct (map f (sort_key f xs))" "distinct (map f (sort_key f ys))"
    using inj s by (simp_all add: distinct_map)
  then show ?thesis
    by (intro map_sorted_distinct_set_unique [of f]) (simp_all add: inj s)
qed

section \<open>Runs that do not panic\<close>

lemma timeframe_total:
  assumes "lib_ok L"
  shows "EnrichTimeframe L c tf (filterPipeline U DefaultPipeline only) \<noteq> None"
proof (cases "int (length c) < minBars")
  case False
  then have n: "50 \<le> int (length c)" "c \<noteq> []" by (auto simp: minBars_def)
  from run_pipeline_runs [OF assms _ n(2)] show ?thesis
    using False default_fits [OF n(1)] filter_fits [OF n(1), of U only]
    by (auto simp: EnrichTimeframe_def split: option.splits)
qed (simp add: EnrichTimeframe_def)

lemma multi_total: "lib_ok L \<Longrightarrow> EnrichMulti U L multi only \<noteq> None"
  using timeframe_total by (fastforce simp: EnrichMulti_def enrich_slabs_map list_all_iff split: option.splits)

lemma timeframe_readings:
  assumes "EnrichTimeframe L c tf (filterPipeline U DefaultPipeline only) = Some as"
  shows "length as \<le> 15 \<and> list_all (labelled tf) as"
proof (cases "int (length c) < minBars")
  case False
  let ?pl = "case filterPipeline U DefaultPipeline only of None \<Rightarrow> DefaultPipeline | Some p \<Rightarrow> p"
  have n: "length DefaultPipeline = 15" by (simp add: DefaultPipeline_def)
  have "length ?pl \<le> 15"
    using n length_filter_le [of _ DefaultPipeline] by (auto simp: filterPipeline_def Let_def)
  moreover have "run_pipeline L ?pl c tf = Some as" using assms False by (simp add: EnrichTimeframe_def)
  ultimately show ?thesis using run_pipeline_readings by fastforce
qed (use assms in \<open>simp add: EnrichTimeframe_def\<close>)

text \<open>The only way a single indicator can panic: parameters too large for the candles.\<close>

definition misfit :: "unicode \<Rightarrow> string \<Rightarrow> params \<Rightarrow> candle list \<Rightarrow> bool" where
  "misfit U nm p c \<longleftrightarrow> 50 \<le> length c \<and>
     (\<exists>e. enricherFor U (to_lower U (trim_space U nm)) p = Inr e \<and> \<not> enricher_fits e (int (length c)))"

lemma compute_total: "lib_ok L \<Longrightarrow> \<not> misfit U nm p c \<Longrightarrow> Compute U L nm c tf p \<noteq> None"
  using Enrich_runs [of L _ c tf] by (fastforce simp: Compute_def minBars_def misfit_def split: sum.splits)

lemma no_params_fit: "\<not> misfit U nm no_params c"
proof -
  have "enricher_fits e (int (length c))" if "enricherFor U s no_params = Inr e" "50 \<le> length c" for e s
    using that by (auto simp: enricherFor_def no_params_def pick_zero split: if_splits)
  then show ?thesis by (auto simp: misfit_def)
qed

section \<open>Levels\<close>

lemma bounded_raise: "bounded x a \<Longrightarrow> a \<le> b \<Longrightarrow> bounded x b"
  using powi_mono [of a b] by (auto simp: bounded_def)

lemma fdec_bounded:
  assumes "0 \<le> n" and "n \<le> 2 * 10 ^ k"
  shows "bounded (fdec n k) 1" "0 \<le> xval (fdec n k)"
proof -
  have "(of_int n :: real) \<le> of_int (2 * 10 ^ k)" using assms(2) by (simp only: of_int_le_iff)
  then have "of_int n / 10 ^ k \<le> (2::real)" by (simp add: field_simps)
  then show "bounded (fdec n k) 1"
    using assms(1) by (intro fl_bounded [OF fdec_oknum fdec_val]) (simp_all add: powi_nat)
  show "0 \<le> xval (fdec n k)" using assms(1) by (simp add: fdec_val fl_nonneg)
qed

lemma fdec_mono: "of_int m / 10 ^ j \<le> (of_int n / 10 ^ k :: real) \<Longrightarrow> xval (fdec m j) \<le> xval (fdec n k)"
  by (simp add: fdec_val fl_mono)

lemma levels:
  assumes h: "bounded high 900" and l: "bounded low 900" and lt: "low < high"
    and f: "bounded f 1" "0 \<le> xval f" and g: "bounded g 1" "xval f \<le> xval g"
  shows "retrace high (high - low) g \<le> retrace high (high - low) f" "retrace high (high - low) f \<le> high"
    and "extend_up high (high - low) f \<le> extend_up high (high - low) g" "high \<le> extend_up high (high - low) f"
proof -
  let ?r = "high - low"
  have "xval low < xval high" using lt bounded_less [OF l h] by simp
  then have r: "bounded ?r 901" "0 \<le> xval ?r"
    using bounded_sub [OF h l] fl_nonneg [of "xval high - xval low"] by simp_all
  have pf: "bounded (?r * f) 902" "xval (?r * f) = fl (xval ?r * xval f)"
    and pg: "bounded (?r * g) 902" "xval (?r * g) = fl (xval ?r * xval g)"
    using bounded_mul [OF r(1) f(1)] bounded_mul [OF r(1) g(1)] by simp_all
  have le: "xval (?r * f) \<le> xval (?r * g)" "0 \<le> xval (?r * f)"
    using r(2) f(2) g(2) by (auto simp: pf(2) pg(2) intro!: fl_mono mult_left_mono fl_nonneg)
  note h' = bounded_raise [OF h, of 902]
  have s: "bounded (high - ?r * f) 903" "bounded (high - ?r * g) 903"
      "xval (high - ?r * f) = fl (xval high - xval (?r * f))" "xval (high - ?r * g) = fl (xval high - xval (?r * g))"
    and a: "bounded (high + ?r * f) 903" "bounded (high + ?r * g) 903"
      "xval (high + ?r * f) = fl (xval high + xval (?r * f))" "xval (high + ?r * g) = fl (xval high + xval (?r * g))"
    using bounded_sub [OF h' pf(1)] bounded_sub [OF h' pg(1)] bounded_add [OF h' pf(1)] bounded_add [OF h' pg(1)]
    by simp_all
  have hv: "fl (xval high) = xval high" using h by (simp add: bounded_def)
  show "retrace high ?r g \<le> retrace high ?r f"
    unfolding retrace_def bounded_le [OF s(2) s(1)] using le s by (auto intro!: fl_mono)
  show "retrace high ?r f \<le> high"
    unfolding retrace_def bounded_le [OF s(1) h]
    using fl_mono [of "xval high - xval (?r * f)" "xval high"] le s hv by simp
  show "extend_up high ?r f \<le> extend_up high ?r g"
    unfolding extend_up_def bounded_le [OF a(1) a(2)] using le a by (auto intro!: fl_mono)
  show "high \<le> extend_up high ?r f"
    unfolding extend_up_def bounded_le [OF h a(1)]
    using fl_mono [of "xval high" "xval high + xval (?r * f)"] le a hv by simp
qed

lemma swing_fold:
  "list_all candle_ok c \<Longrightarrow> bounded hi 900 \<Longrightarrow> bounded lo 900 \<Longrightarrow>
   \<exists>h l. fold swing_step c (hi, lo) = (h, l) \<and> bounded h 900 \<and> bounded l 900
     \<and> xval hi \<le> xval h \<and> xval l \<le> xval lo
     \<and> (\<forall>b \<in> set c. xval (c_High b) \<le> xval h \<and> xval l \<le> xval (c_Low b))"
proof (induction c arbitrary: hi lo)
  case (Cons b c)
  define hi1 where "hi1 = (if hi < c_High b then c_High b else hi)"
  define lo1 where "lo1 = (if c_Low b < lo then c_Low b else lo)"
  have b: "bounded (c_Low b) 900" "bounded (c_High b) 900" using Cons.prems(1) by (auto simp: candle_ok_def)
  have m: "bounded hi1 900" "bounded lo1 900" "xval hi \<le> xval hi1" "xval lo1 \<le> xval lo"
    "xval (c_High b) \<le> xval hi1" "xval lo1 \<le> xval (c_Low b)"
    using b Cons.prems bounded_less [OF b(1) Cons.prems(3)] bounded_less [OF Cons.prems(2) b(2)]
    by (auto simp: hi1_def lo1_def)
  have f: "fold swing_step (b # c) (hi, lo) = fold swing_step c (hi1, lo1)"
    by (simp add: swing_step_def hi1_def lo1_def)
  have c: "list_all candle_ok c" using Cons.prems(1) by simp
  obtain h l where r: "fold swing_step c (hi1, lo1) = (h, l)" "bounded h 900" "bounded l 900"
    "xval hi1 \<le> xval h" "xval l \<le> xval lo1"
    "\<forall>b \<in> set c. xval (c_High b) \<le> xval h \<and> xval l \<le> xval (c_Low b)"
    using Cons.IH [OF c m(1,2)] by blast
  have "xval hi \<le> xval h" "xval l \<le> xval lo" "xval (c_High b) \<le> xval h" "xval l \<le> xval (c_Low b)"
    using r(4,5) m by linarith+
  then show ?case unfolding f using r by (intro exI [of _ h] exI [of _ l]) simp
qed simp

lemma findSwing_bounds:
  assumes "list_all candle_ok c" and "c \<noteq> []"
  shows "\<exists>h l. findSwing c = Some (h, l) \<and> bounded h 900 \<and> bounded l 900
    \<and> (\<forall>b \<in> set c. c_High b \<le> h \<and> l \<le> c_Low b)"
proof -
  obtain c0 cs where c: "c = c0 # cs" using assms(2) by (cases c) auto
  have b: "bounded (c_High c0) 900" "bounded (c_Low c0) 900" using assms(1) by (auto simp: c candle_ok_def)
  obtain h l where r: "fold swing_step c (c_High c0, c_Low c0) = (h, l)" "bounded h 900" "bounded l 900"
    "\<forall>b \<in> set c. xval (c_High b) \<le> xval h \<and> xval l \<le> xval (c_Low b)"
    using swing_fold [OF assms(1) b] by blast
  have "c_High b \<le> h \<and> l \<le> c_Low b" if "b \<in> set c" for b
  proof -
    have "bounded (c_High b) 900" "bounded (c_Low b) 900"
      using assms(1) that by (auto simp: list_all_iff candle_ok_def)
    then show ?thesis using r(2-4) that by (simp add: bounded_le)
  qed
  then show ?thesis using r(1-3) by (auto simp: c findSwing_def)
qed

text \<open>The ladder of levels of a swing, from the deepest retracement to the furthest extension.\<close>

definition fib_ladder :: "f64 \<Rightarrow> f64 \<Rightarrow> f64 list" where
  "fib_ladder high low =
     map (retrace high (high - low)) [fdec 786 3, fdec 618 3, fdec 5 1, fdec 382 3] @ [high]
     @ map (extend_up high (high - low)) [fdec 272 3, fdec 414 3, fdec 618 3, fdec 10 1, fdec 1618 3]"

lemma fib_ladder_mono:
  assumes "bounded high 900" and "bounded low 900" and "low < high"
  shows "successively (\<le>) (fib_ladder high low)"
proof -
  note lv = levels [OF assms]
  have n: "xval (fdec 382 3) \<le> xval (fdec 5 1)" "xval (fdec 5 1) \<le> xval (fdec 618 3)"
    "xval (fdec 618 3) \<le> xval (fdec 786 3)" "xval (fdec 272 3) \<le> xval (fdec 414 3)"
    "xval (fdec 414 3) \<le> xval (fdec 618 3)" "xval (fdec 618 3) \<le> xval (fdec 10 1)"
    "xval (fdec 10 1) \<le> xval (fdec 1618 3)" by (rule fdec_mono; simp)+
  have b: "bounded (fdec 382 3) 1" "bounded (fdec 5 1) 1" "bounded (fdec 618 3) 1" "bounded (fdec 786 3) 1"
    "bounded (fdec 272 3) 1" "bounded (fdec 414 3) 1" "bounded (fdec 10 1) 1" "bounded (fdec 1618 3) 1"
    by (rule fdec_bounded(1); simp)+
  have z: "0 \<le> xval (fdec 382 3)" "0 \<le> xval (fdec 5 1)" "0 \<le> xval (fdec 618 3)" "0 \<le> xval (fdec 786 3)"
    "0 \<le> xval (fdec 272 3)" "0 \<le> xval (fdec 414 3)" "0 \<le> xval (fdec 10 1)"
    by (rule fdec_bounded(2); simp)+
  show ?thesis
    unfolding fib_ladder_def list.map append.simps successively.simps
    using lv(1) [OF b(3) z(3) b(4) n(3)] lv(1) [OF b(2) z(2) b(3) n(2)] lv(1) [OF b(1) z(1) b(2) n(1)]
      lv(2) [OF b(1) z(1) b(2) n(1)] lv(4) [OF b(5) z(5) b(6) n(4)] lv(3) [OF b(5) z(5) b(6) n(4)]
      lv(3) [OF b(6) z(6) b(3) n(5)] lv(3) [OF b(3) z(3) b(7) n(6)] lv(3) [OF b(7) z(7) b(8) n(7)]
    by (intro conjI TrueI)
qed

lemma fib_level_bounded:
  assumes "bounded high 900" and "bounded low 900" and "bounded f 1"
  shows "bounded (retrace high (high - low) f) 903" "bounded (extend_up high (high - low) f) 903"
proof -
  have p: "bounded ((high - low) * f) 902"
    using bounded_mul [of "high - low" 901 f 1] bounded_sub [OF assms(1,2)] assms(3) by simp
  note h = bounded_raise [OF assms(1), of 902]
  show "bounded (retrace high (high - low) f) 903" "bounded (extend_up high (high - low) f) 903"
    using bounded_sub [OF h p] bounded_add [OF h p] by (simp_all add: retrace_def extend_up_def)
qed

lemma bounded_oknum: "bounded x e \<Longrightarrow> oknum x"
  by (simp add: bounded_def okfin_oknum)

lemma fib_pocket:
  assumes o: "oknum p" "oknum high" "oknum r382" "oknum r500" "oknum r618" "oknum r786"
    and m: "r500 \<le> r382" "r382 \<le> high"
  shows "fibState p high low r382 r500 r618 r786
      = ''Deep pullback (golden pocket 0.5-0.618, high-probability bounce zone)''
    \<longleftrightarrow> r618 \<le> p \<and> p < r500"
proof -
  have "xval r500 \<le> xval r382" "xval r382 \<le> xval high" using m o by (simp_all add: fle_val)
  then show ?thesis
    using o by (auto simp: fibState_def fle_val flt_val)
qed

section \<open>Properties\<close>

text \<open>
  C33. No indicator run panics when the library keeps its promises: neither one timeframe
  under the filtered pipeline, nor all timeframes, nor a single indicator with any
  parameters that fit the candles, for any candles and any names; without parameters they
  always fit.
\<close>
theorem pipeline_safe:
  assumes "lib_ok L"
  shows "EnrichTimeframe L c tf (filterPipeline U DefaultPipeline only) \<noteq> None
    \<and> EnrichMulti U L multi only \<noteq> None \<and> Compute U L nm c tf no_params \<noteq> None
    \<and> (\<not> misfit U nm p c \<longrightarrow> Compute U L nm c tf p \<noteq> None)"
proof (intro conjI)
  note t = timeframe_total [OF assms]
  show "EnrichTimeframe L c tf (filterPipeline U DefaultPipeline only) \<noteq> None" by (rule t)
  show "EnrichMulti U L multi only \<noteq> None" by (rule multi_total [OF assms])
  show "Compute U L nm c tf no_params \<noteq> None" by (rule compute_total [OF assms no_params_fit])
  show "\<not> misfit U nm p c \<longrightarrow> Compute U L nm c tf p \<noteq> None" using compute_total [OF assms] by blast
qed

definition flat_lib :: "(f64, f64) talib" where
  "flat_lib = \<lparr>ti_Rsi = \<lambda>x _. Some x, ti_Macd = \<lambda>x _ _. Some x, ti_MacdSignal = \<lambda>x _ _ _. Some x,
     ti_MacdBars = \<lambda>x _ _ _. Some x, ti_Ema = \<lambda>x _. Some x, ti_Bands = \<lambda>x _ _. Some (map (\<lambda>v. [v, v, v]) x),
     ti_Atr = \<lambda>x _. Some (map (\<lambda>r. 1) x), ti_Supertrend = \<lambda>x _ _. Some (map (\<lambda>r. [1, 1]) x),
     ti_Vwap = \<lambda>x _. Some (map (\<lambda>r. 1) x), ti_Obv = \<lambda>x. Some (map (\<lambda>r. 1) x),
     ti_Adx = \<lambda>x _. Some (map (\<lambda>r. 1) x), ti_StochRsi = \<lambda>x _ _ _ _. Some (map (\<lambda>v. [v, v]) x),
     ti_Rsi_divergence = \<lambda>x p f. f x p, ti_RecentHigh = \<lambda>x _. Some (lastOf x),
     ti_RecentLow = \<lambda>x _. Some (lastOf x), ti_Support = \<lambda>x q. Some q, ti_Resistance = \<lambda>x q. Some q,
     ti_LineCalc = \<lambda>i l. Some l\<rparr>"

lemma flat_lib_ok: "lib_ok flat_lib"
  by (auto simp: lib_ok_def flat_lib_def)

theorem pipeline_safe_witness:
  "EnrichTimeframe flat_lib (replicate 60 (flat_bar 0 1 1)) ''D'' (filterPipeline no_tables DefaultPipeline [''rsi'']) \<noteq> None"
  using pipeline_safe [OF flat_lib_ok, of "replicate 60 (flat_bar 0 1 1)" "''D''" no_tables "[''rsi'']"] by blast

text \<open>
  C25. The single-indicator API agrees with the pipeline: with no parameters set, every
  default indicator computes what it contributes to a pipeline run, and panics when that
  does; a name is accepted exactly when it is one of the published indicator names, and fewer
  than fifty candles are refused.
\<close>
theorem compute_agrees:
  assumes "e \<in> set DefaultPipeline" and "nm' = to_lower U (trim_space U nm)"
  shows "(50 \<le> length c \<longrightarrow>
        Compute U L (Name e) c tf no_params = map_option Inr (EnrichTimeframe L c tf (Some [e])))
      \<and> (nm' \<notin> set IndicatorNames \<longrightarrow> Compute U L nm c tf p = Some (Inl (unknown_indicator U nm')))
      \<and> (nm' \<in> set IndicatorNames \<and> length c < 50 \<longrightarrow> (\<exists>msg. Compute U L nm c tf p = Some (Inl msg)))
      \<and> (nm' \<in> set IndicatorNames \<and> 50 \<le> length c \<longrightarrow>
          (\<exists>e'. Name e' = nm' \<and> Compute U L nm c tf p = map_option Inr (Enrich L e' c tf)))"
proof (intro conjI)
  show "50 \<le> length c \<longrightarrow> Compute U L (Name e) c tf no_params = map_option Inr (EnrichTimeframe L c tf (Some [e]))"
    using assms(1) by (cases "Enrich L e c tf")
      (simp_all add: Compute_def EnrichTimeframe_def enricherFor_default names_plain minBars_def)
  have unk: "nm' \<notin> set IndicatorNames \<Longrightarrow> enricherFor U nm' p = Inl (unknown_indicator U nm')"
    by (auto simp: enricherFor_def IndicatorNames_def DefaultPipeline_def)
  have kn: "nm' \<in> set IndicatorNames \<Longrightarrow> \<exists>e. enricherFor U nm' p = Inr e \<and> Name e = nm'"
    using enricherFor_known enricherFor_name by metis
  show "nm' \<notin> set IndicatorNames \<longrightarrow> Compute U L nm c tf p = Some (Inl (unknown_indicator U nm'))"
    using unk by (simp add: Compute_def flip: assms(2))
  show "nm' \<in> set IndicatorNames \<and> length c < 50 \<longrightarrow> (\<exists>msg. Compute U L nm c tf p = Some (Inl msg))"
    using kn by (auto simp: Compute_def minBars_def simp flip: assms(2))
  show "nm' \<in> set IndicatorNames \<and> 50 \<le> length c \<longrightarrow>
      (\<exists>e'. Name e' = nm' \<and> Compute U L nm c tf p = map_option Inr (Enrich L e' c tf))"
  proof
    assume a: "nm' \<in> set IndicatorNames \<and> 50 \<le> length c"
    then obtain x where "enricherFor U nm' p = Inr x" "Name x = nm'" using kn by blast
    then show "\<exists>e'. Name e' = nm' \<and> Compute U L nm c tf p = map_option Inr (Enrich L e' c tf)"
      using a by (intro exI [of _ x]) (simp add: Compute_def minBars_def flip: assms(2))
  qed
qed

theorem compute_agrees_witness:
  "Compute no_tables flat_lib ''adx'' (replicate 60 (flat_bar 0 1 1)) ''D'' no_params
     = map_option Inr (EnrichTimeframe flat_lib (replicate 60 (flat_bar 0 1 1)) ''D'' (Some [ADXEnricher 14]))
   \<and> Compute no_tables flat_lib ''sma'' [] ''D'' no_params
     = Some (Inl (unknown_indicator no_tables ''sma''))"
proof -
  have d: "ADXEnricher 14 \<in> set DefaultPipeline" by (simp add: DefaultPipeline_def)
  have n: "''sma'' = to_lower no_tables (trim_space no_tables ''sma'')" "''sma'' \<notin> set IndicatorNames"
    by code_simp+
  show ?thesis
    using compute_agrees [OF d n(1), of "replicate 60 (flat_bar 0 1 1)" flat_lib "''D''"]
      compute_agrees [OF d n(1), of "[]" flat_lib "''D''" no_params] n(2) by simp
qed



text \<open>
  C24. The run over all timeframes returns one group per fetched timeframe, sorted from the
  shortest to the longest, each with its own candles' annotations, at most one for each of the
  fifteen indicators and labelled with the group's timeframe; when the timeframes have
  distinct ranks the result does not depend on the iteration order of the Go map.
\<close>
theorem multi_sorted:
  assumes "lib_ok L" and "slabs = md_Slabs m" and "pl = filterPipeline U DefaultPipeline only"
  shows "\<exists>gs. EnrichMulti U L (Some m) only = Some gs
    \<and> sorted (map (\<lambda>g. tfRank (tf_Timeframe g)) gs)
    \<and> mset gs = mset (map (group_of L pl) (present slabs))
    \<and> (\<forall>tf d. (tf, d) \<in> set (present slabs) \<longrightarrow>
         EnrichTimeframe L (cd_Candles d) tf pl = Some (tf_Annotations (group_of L pl (tf, d))))
    \<and> (\<forall>g \<in> set gs. length (tf_Annotations g) \<le> 15 \<and> list_all (labelled (tf_Timeframe g)) (tf_Annotations g))
    \<and> (distinct (map (\<lambda>s. tfRank (fst s)) (present slabs)) \<longrightarrow>
        (\<forall>slabs'. mset slabs' = mset slabs \<longrightarrow> EnrichMulti U L (Some (m\<lparr>md_Slabs := slabs'\<rparr>)) only = Some gs))"
proof -
  let ?rank = "\<lambda>g. tfRank (tf_Timeframe g)"
  have t: "EnrichTimeframe L c tf pl \<noteq> None" for c tf
    unfolding assms(3) by (rule timeframe_total [OF assms(1)])
  have r: "EnrichMulti U L (Some (m\<lparr>md_Slabs := s\<rparr>)) only = Some (sort_key ?rank (map (group_of L pl) (present s)))" for s
    using t by (simp add: EnrichMulti_def enrich_slabs_map list_all_iff split_beta flip: assms(3))
  have d: "map ?rank (map (group_of L pl) xs) = map (\<lambda>s. tfRank (fst s)) xs" for xs
    by (simp add: group_of_def split_beta)
  have u: "sort_key ?rank (map (group_of L pl) (present s)) = sort_key ?rank (map (group_of L pl) (present slabs))"
    if "distinct (map (\<lambda>s. tfRank (fst s)) (present slabs))" "mset s = mset slabs" for s
    by (rule sort_key_unique [symmetric])
      (use mset_present [OF that(2)] that(1) in \<open>simp_all only: d mset_map\<close>)
  have a: "EnrichTimeframe L (cd_Candles d) tf pl = Some (tf_Annotations (group_of L pl (tf, d)))" for tf d
    using t [of "cd_Candles d" tf] by (auto simp: group_of_def)
  show ?thesis
  proof (intro exI conjI)
    show "EnrichMulti U L (Some m) only = Some (sort_key ?rank (map (group_of L pl) (present slabs)))"
      using r [of slabs] by (simp add: assms(2))
    show "distinct (map (\<lambda>s. tfRank (fst s)) (present slabs)) \<longrightarrow>
        (\<forall>slabs'. mset slabs' = mset slabs \<longrightarrow> EnrichMulti U L (Some (m\<lparr>md_Slabs := slabs'\<rparr>)) only
           = Some (sort_key ?rank (map (group_of L pl) (present slabs))))"
    proof (intro impI allI)
      fix slabs'
      assume h: "distinct (map (\<lambda>s. tfRank (fst s)) (present slabs))" "mset slabs' = mset slabs"
      show "EnrichMulti U L (Some (m\<lparr>md_Slabs := slabs'\<rparr>)) only
          = Some (sort_key ?rank (map (group_of L pl) (present slabs)))"
        unfolding r u [OF h] ..
    qed
    show "\<forall>tf d. (tf, d) \<in> set (present slabs) \<longrightarrow>
        EnrichTimeframe L (cd_Candles d) tf pl = Some (tf_Annotations (group_of L pl (tf, d)))"
      using a by blast
    show "\<forall>g \<in> set (sort_key ?rank (map (group_of L pl) (present slabs))).
        length (tf_Annotations g) \<le> 15 \<and> list_all (labelled (tf_Timeframe g)) (tf_Annotations g)"
    proof
      fix g
      assume "g \<in> set (sort_key ?rank (map (group_of L pl) (present slabs)))"
      then obtain tf dat where g: "g = group_of L pl (tf, dat)" by auto
      then have "tf_Timeframe g = tf" by (simp add: group_of_def)
      then show "length (tf_Annotations g) \<le> 15 \<and> list_all (labelled (tf_Timeframe g)) (tf_Annotations g)"
        using timeframe_readings a [of dat tf] g unfolding assms(3) by metis
    qed
    show "sorted (map ?rank (sort_key ?rank (map (group_of L pl) (present slabs))))" by (rule sorted_sort_key)
    show "mset (sort_key ?rank (map (group_of L pl) (present slabs))) = mset (map (group_of L pl) (present slabs))"
      by (rule mset_sort)
  qed
qed

definition bare_slab :: "string \<Rightarrow> chart_data" where
  "bare_slab tf = \<lparr>cd_Symbol = ''A'', cd_Resolution = tf, cd_Candles = [], cd_FetchedAt = 0, cd_Cached = False,
     cd_LatencyMs = 0\<rparr>"

theorem multi_sorted_witness:
  "\<exists>gs. EnrichMulti no_tables flat_lib (Some \<lparr>md_Symbol = ''A'',
       md_Slabs = [(''W'', Some (bare_slab ''W'')), (''60'', Some (bare_slab ''60''))], md_Errors = None,
       md_FetchedAt = 0, md_LatencyMs = 0\<rparr>) [] = Some gs
     \<and> sorted (map (\<lambda>g. tfRank (tf_Timeframe g)) gs) \<and> length gs = 2"
proof -
  let ?m = "\<lparr>md_Symbol = ''A'', md_Slabs = [(''W'', Some (bare_slab ''W'')), (''60'', Some (bare_slab ''60''))],
    md_Errors = None, md_FetchedAt = 0, md_LatencyMs = 0\<rparr> :: multi_chart_data"
  obtain gs where g: "EnrichMulti no_tables flat_lib (Some ?m) [] = Some gs"
    "sorted (map (\<lambda>g. tfRank (tf_Timeframe g)) gs)"
    "mset gs = mset (map (group_of flat_lib (filterPipeline no_tables DefaultPipeline [])) (present (md_Slabs ?m)))"
    using multi_sorted [OF flat_lib_ok refl refl, of no_tables ?m "[]"] by blast
  from mset_eq_length [OF g(3)] have "length gs = 2" by simp
  with g(1,2) show ?thesis by blast
qed



end
