(* ===== verification/Search.thy ===== *)
theory Search
  imports Types Json "HOL-Library.List_Lexorder" "HOL-Library.Char_ord"
begin

text \<open>
  \<open>search.go\<close>: the REST symbol search. The HTTP client and server are a parameter: a function
  from the request the code builds to a reply, or to the text of the transport's error. The text
  of a JSON decoding error is a parameter too; which bodies are errors is not.
\<close>

section \<open>Query strings: \<open>net/url\<close>\<close>

definition unreserved :: "char \<Rightarrow> bool" where
  "unreserved c = (let b = byte c in 48 \<le> b \<and> b \<le> 57 \<or> 65 \<le> b \<and> b \<le> 90 \<or> 97 \<le> b \<and> b \<le> 122
     \<or> b = 45 \<or> b = 95 \<or> b = 46 \<or> b = 126)"

definition up_hex :: "int \<Rightarrow> char" where
  "up_hex n = (if n < 10 then char_of (48 + n) else char_of (55 + n))"

definition esc_char :: "char \<Rightarrow> string" where
  "esc_char c = (if unreserved c then [c] else if c = CHR '' '' then ''+''
     else [CHR ''%'', up_hex (byte c div 16), up_hex (byte c mod 16)])"

definition query_escape :: "string \<Rightarrow> string" where
  "query_escape s = concat (map esc_char s)"

text \<open>\<open>url.Values\<close>: \<open>Set\<close> replaces, \<open>Encode\<close> lists the keys in order.\<close>

definition values_set :: "string \<Rightarrow> string \<Rightarrow> (string \<times> string) list \<Rightarrow> (string \<times> string) list" where
  "values_set k v vs = filter (\<lambda>p. fst p \<noteq> k) vs @ [(k, v)]"

definition values_encode :: "(string \<times> string) list \<Rightarrow> string" where
  "values_encode vs = join ''&'' (map (\<lambda>(k, v). query_escape k @ ''='' @ query_escape v) (sort_key fst vs))"

section \<open>The request\<close>

definition searchURL :: string where
  "searchURL = ''https://symbol-search.tradingview.com/symbol_search/''"

record http_request =
  hr_URL :: string
  hr_Headers :: "(string \<times> string) list"
  hr_Timeout :: int

text \<open>The body is the bytes read before its end, or before reading failed.\<close>

record http_reply =
  hp_Status :: int
  hp_Body :: string
  hp_Broken :: bool

definition search_values :: "unicode \<Rightarrow> string \<Rightarrow> search_options \<Rightarrow> (string \<times> string) list" where
  "search_values U query opts =
     (let v = values_set ''hl'' ''1'' (values_set ''text'' query []);
          v = values_set ''lang'' (if so_Lang opts \<noteq> '''' then so_Lang opts else ''en'') v;
          v = (if so_Type opts \<noteq> '''' then values_set ''type'' (so_Type opts) v else v)
      in if so_Exchange opts \<noteq> '''' then values_set ''exchange'' (to_upper U (so_Exchange opts)) v else v)"

text \<open>
  \<open>http.NewRequestWithContext\<close> does not fail here: the method is fixed, the context is set
  and the URL is plain ASCII.
\<close>

definition search_request :: "unicode \<Rightarrow> config \<Rightarrow> string \<Rightarrow> search_options \<Rightarrow> http_request" where
  "search_request U cfg query opts =
     \<lparr>hr_URL = searchURL @ ''?'' @ values_encode (search_values U query opts),
      hr_Headers = [(''Origin'', ''https://www.tradingview.com''), (''Referer'', ''https://www.tradingview.com/''),
        (''User-Agent'', cfg_UserAgent cfg)],
      hr_Timeout = cfg_SearchTimeout cfg\<rparr>"

section \<open>The response\<close>

record raw_symbol_match =
  rm_Symbol :: string
  rm_Description :: string
  rm_Type :: string
  rm_Exchange :: string
  rm_Prefix :: string
  rm_Currency :: string
  rm_SourceID :: string
  rm_TypeSpecs :: "string list"

definition zero_match :: raw_symbol_match where
  "zero_match = \<lparr>rm_Symbol = '''', rm_Description = '''', rm_Type = '''', rm_Exchange = '''', rm_Prefix = '''',
     rm_Currency = '''', rm_SourceID = '''', rm_TypeSpecs = []\<rparr>"

text \<open>
  \<open>encoding/json\<close> matches keys to the struct tags ignoring case; the runes outside ASCII
  that fold into it are the long s and the Kelvin sign.
\<close>

fun fold_key :: "string \<Rightarrow> string" where
  "fold_key [] = []"
| "fold_key (c # s) =
     (if byte c = 197 \<and> map byte (take 1 s) = [191] then CHR ''S'' # fold_key (drop 1 s)
      else if byte c = 226 \<and> map byte (take 2 s) = [132, 170] then CHR ''K'' # fold_key (drop 2 s)
      else upper_c c # fold_key s)"

text \<open>
  A string or null into a string (null leaves it as it is); an array of them into the array
  behind a slice, whose stale elements a null leaves visible.
\<close>

fun decode_str :: "string \<Rightarrow> jtree \<Rightarrow> string option" where
  "decode_str old JNull = Some old"
| "decode_str old (JStr s) = Some s"
| "decode_str old _ = None"

fun decode_strs :: "string list \<Rightarrow> jtree list \<Rightarrow> string list option" where
  "decode_strs back [] = Some []"
| "decode_strs back (t # ts) = do {
     v \<leftarrow> decode_str (case back of [] \<Rightarrow> '''' | b # _ \<Rightarrow> b) t;
     vs \<leftarrow> decode_strs (tl back) ts;
     Some (v # vs) }"

definition decode_slice :: "string list \<Rightarrow> jtree \<Rightarrow> (string list \<times> string list) option" where
  "decode_slice back t = (case t of
       JNull \<Rightarrow> Some ([], [])
     | JArr ts \<Rightarrow> map_option (\<lambda>vs. (vs, if vs = [] then [] else vs @ drop (length vs) back)) (decode_strs back ts)
     | _ \<Rightarrow> None)"

definition decode_field :: "string \<times> jtree \<Rightarrow> raw_symbol_match \<times> string list \<Rightarrow> (raw_symbol_match \<times> string list) option" where
  "decode_field kt st = (case kt of (k, t) \<Rightarrow> case st of (r, back) \<Rightarrow>
     let f = fold_key k in
     if f = ''SYMBOL'' then map_option (\<lambda>v. (r\<lparr>rm_Symbol := v\<rparr>, back)) (decode_str (rm_Symbol r) t)
     else if f = ''DESCRIPTION'' then map_option (\<lambda>v. (r\<lparr>rm_Description := v\<rparr>, back)) (decode_str (rm_Description r) t)
     else if f = ''TYPE'' then map_option (\<lambda>v. (r\<lparr>rm_Type := v\<rparr>, back)) (decode_str (rm_Type r) t)
     else if f = ''EXCHANGE'' then map_option (\<lambda>v. (r\<lparr>rm_Exchange := v\<rparr>, back)) (decode_str (rm_Exchange r) t)
     else if f = ''PREFIX'' then map_option (\<lambda>v. (r\<lparr>rm_Prefix := v\<rparr>, back)) (decode_str (rm_Prefix r) t)
     else if f = ''CURRENCY_CODE'' then map_option (\<lambda>v. (r\<lparr>rm_Currency := v\<rparr>, back)) (decode_str (rm_Currency r) t)
     else if f = ''SOURCE_ID'' then map_option (\<lambda>v. (r\<lparr>rm_SourceID := v\<rparr>, back)) (decode_str (rm_SourceID r) t)
     else if f = ''TYPESPECS'' then map_option (\<lambda>(vs, b). (r\<lparr>rm_TypeSpecs := vs\<rparr>, b)) (decode_slice back t)
     else Some (r, back))"

fun decode_fields :: "(string \<times> jtree) list \<Rightarrow> raw_symbol_match \<times> string list \<Rightarrow> raw_symbol_match option" where
  "decode_fields [] st = Some (fst st)"
| "decode_fields (m # ms) st = do { st' \<leftarrow> decode_field m st; decode_fields ms st' }"

fun decode_match :: "jtree \<Rightarrow> raw_symbol_match option" where
  "decode_match JNull = Some zero_match"
| "decode_match (JObj ms) = decode_fields ms (zero_match, [])"
| "decode_match _ = None"

text \<open>
  \<open>json.NewDecoder(resp.Body).Decode(&raw)\<close>: the first value of the body, whatever follows;
  a bare null at the very end needs the end of the body to be read.
\<close>

definition decode_raw :: "http_reply \<Rightarrow> raw_symbol_match list option" where
  "decode_raw resp = (case pval 0 (hp_Body resp) of
       Some (JNull, rest) \<Rightarrow> if rest = '''' \<and> hp_Broken resp then None else Some []
     | Some (JArr ts, _) \<Rightarrow> those (map decode_match ts)
     | _ \<Rightarrow> None)"

definition stripEm :: "string \<Rightarrow> string" where
  "stripEm s = replace_all ''</em>'' '''' (replace_all ''<em>'' '''' s)"

definition to_match :: "raw_symbol_match \<Rightarrow> symbol_match" where
  "to_match r =
     \<lparr>sm_Symbol = stripEm (rm_Symbol r), sm_Description = stripEm (rm_Description r), sm_Type = rm_Type r,
      sm_Exchange = rm_Exchange r, sm_Prefix = rm_Prefix r, sm_Currency = rm_Currency r,
      sm_SourceID = rm_SourceID r, sm_TypeSpecs = rm_TypeSpecs r\<rparr>"

definition match_key :: "symbol_match \<Rightarrow> string" where
  "match_key m = Full m @ ''|'' @ sm_Type m"

text \<open>The loop over the raw matches: \<open>seen\<close> and \<open>out\<close> grow, the limit breaks.\<close>

fun collect_matches :: "int \<Rightarrow> raw_symbol_match list \<Rightarrow> string set \<Rightarrow> symbol_match list \<Rightarrow> symbol_match list" where
  "collect_matches limit [] seen out = out"
| "collect_matches limit (r # rs) seen out =
     (let m = to_match r; key = match_key m in
      if key \<in> seen then collect_matches limit rs seen out
      else
        let seen = insert key seen; out = out @ [m] in
        if 0 < limit \<and> limit \<le> int (length out) then out
        else collect_matches limit rs seen out)"

definition SearchSymbols :: "unicode \<Rightarrow> (http_request \<Rightarrow> string + http_reply) \<Rightarrow> (http_reply \<Rightarrow> string)
    \<Rightarrow> config \<Rightarrow> string \<Rightarrow> search_options \<Rightarrow> tv_error + symbol_match list" where
  "SearchSymbols U http jerr cfg query opts =
     (let query = trim_space U query in
      if query = '''' then Inl (newErr CodeInvalidBars ''search query is empty'' None)
      else case http (search_request U cfg query opts) of
          Inl err \<Rightarrow> Inl (newErr CodeUpstreamHTTP ''search request'' (Some err))
        | Inr resp \<Rightarrow>
            if hp_Status resp \<noteq> 200
            then Inl (newErr CodeUpstreamHTTP
              (''search HTTP '' @ show_int (hp_Status resp) @ '': '' @ take 512 (hp_Body resp)) None)
            else case decode_raw resp of
                None \<Rightarrow> Inl (newErr CodeUpstreamHTTP ''decode search response'' (Some (jerr resp)))
              | Some raw \<Rightarrow> Inr (collect_matches (so_Limit opts) raw {} []))"

section \<open>Deduplication\<close>

text \<open>The reference: the first element of each key, cut at the limit.\<close>

fun first_by :: "('a \<Rightarrow> 'b) \<Rightarrow> 'a list \<Rightarrow> 'a list" where
  "first_by k [] = []"
| "first_by k (x # xs) = x # filter (\<lambda>y. k y \<noteq> k x) (first_by k xs)"

definition cut :: "int \<Rightarrow> 'a list \<Rightarrow> 'a list" where
  "cut limit xs = (if 0 < limit then take (nat limit) xs else xs)"

lemma first_by_distinct: "distinct (map k (first_by k xs))"
  by (induction xs) (auto simp: distinct_map inj_on_def)

lemma first_by_keys: "k ` set (first_by k xs) = k ` set xs"
proof (induction xs)
  case (Cons x xs)
  have "k ` set (first_by k (x # xs)) = insert (k x) (k ` set (first_by k xs) - {k x})" by auto
  then show ?case unfolding Cons.IH by auto
qed simp

lemma first_by_subset: "set (first_by k xs) \<subseteq> set xs"
  by (induction xs) auto

lemma collect_unlimited:
  "limit \<le> 0 \<Longrightarrow> collect_matches limit rs seen out
     = out @ filter (\<lambda>m. match_key m \<notin> seen) (first_by match_key (map to_match rs))"
  by (induction rs arbitrary: seen out) (auto simp: Let_def conj_commute intro!: filter_cong)

lemma collect_limited:
  "int (length out) < limit \<Longrightarrow> collect_matches limit rs seen out
     = out @ take (nat limit - length out) (filter (\<lambda>m. match_key m \<notin> seen) (first_by match_key (map to_match rs)))"
proof (induction rs arbitrary: seen out)
  case (Cons r rs)
  let ?m = "to_match r"
  let ?F = "\<lambda>seen. filter (\<lambda>m. match_key m \<notin> seen) (first_by match_key (map to_match rs))"
  have f: "filter (\<lambda>m. match_key m \<notin> seen) (first_by match_key (map to_match (r # rs)))
      = (if match_key ?m \<in> seen then ?F seen else ?m # ?F (insert (match_key ?m) seen))"
    by (auto simp: conj_commute intro!: filter_cong)
  show ?case
  proof (cases "match_key ?m \<in> seen")
    case True
    then show ?thesis unfolding f using Cons by simp
  next
    case False
    have s: "nat limit - length out = Suc (nat limit - Suc (length out))" using Cons.prems by linarith
    show ?thesis
      unfolding f using False Cons.IH [of "out @ [?m]" "insert (match_key ?m) seen"] Cons.prems
      by (simp add: s Let_def)
  qed
qed simp

lemma collect_matches_eq: "collect_matches limit rs {} [] = cut limit (first_by match_key (map to_match rs))"
  using collect_unlimited [of limit rs "{}" "[]"] collect_limited [of "[]" limit rs "{}"]
  by (cases "0 < limit") (simp_all add: cut_def)

section \<open>Reading a query string back\<close>

text \<open>\<open>url.ParseQuery\<close>, which the server side of the request stands for.\<close>

fun query_unescape :: "string \<Rightarrow> string option" where
  "query_unescape [] = Some []"
| "query_unescape (c # s) =
     (if c = CHR ''%'' then (case s of
          h # l # r \<Rightarrow> (case (hex_val h, hex_val l) of
              (Some a, Some b) \<Rightarrow> map_option (Cons (char_of (16 * a + b))) (query_unescape r)
            | _ \<Rightarrow> None)
        | _ \<Rightarrow> None)
      else map_option (Cons (if c = CHR ''+'' then CHR '' '' else c)) (query_unescape s))"

definition parse_pair :: "string \<Rightarrow> (string \<times> string) option" where
  "parse_pair s = do {
     k \<leftarrow> query_unescape (takeWhile (\<lambda>c. c \<noteq> CHR ''='') s);
     v \<leftarrow> query_unescape (drop 1 (dropWhile (\<lambda>c. c \<noteq> CHR ''='') s));
     Some (k, v) }"

definition parse_query :: "string \<Rightarrow> (string \<times> string) list option" where
  "parse_query s = those (map parse_pair (split_on (CHR ''&'') s))"

lemma hex_up: "0 \<le> n \<Longrightarrow> n < 16 \<Longrightarrow> hex_val (up_hex n) = Some n"
  by (auto simp: hex_val_def up_hex_def byte_char_of Let_def)

lemma up_hex_byte: "0 \<le> n \<Longrightarrow> n < 16 \<Longrightarrow> byte (up_hex n) \<noteq> 38 \<and> byte (up_hex n) \<noteq> 61"
  by (auto simp: up_hex_def byte_char_of)

lemma unescape_char: "query_unescape (esc_char c @ s) = map_option (Cons c) (query_unescape s)"
proof (cases "unreserved c \<or> c = CHR '' ''")
  case True
  then have "c \<noteq> CHR ''%''" "c \<noteq> CHR ''+''" by (auto simp: unreserved_def byte_def)
  then show ?thesis using True by (auto simp: esc_char_def unreserved_def byte_def)
next
  case False
  have "byte c div 16 < 16" "0 \<le> byte c div 16" "0 \<le> byte c mod 16" "byte c mod 16 < 16"
    using byte_less [of c] byte_nonneg [of c] by auto
  moreover have "char_of (16 * (byte c div 16) + byte c mod 16) = c"
    by (simp add: byte_def)
  ultimately show ?thesis using False by (simp add: esc_char_def hex_up)
qed

lemma unescape_escape [simp]: "query_unescape (query_escape s) = Some s"
  by (induction s) (simp_all add: query_escape_def unescape_char)

lemma esc_char_plain: "x \<in> set (esc_char c) \<Longrightarrow> byte x \<noteq> 38 \<and> byte x \<noteq> 61"
proof -
  assume x: "x \<in> set (esc_char c)"
  have r: "byte c div 16 < 16" "0 \<le> byte c div 16" "0 \<le> byte c mod 16" "byte c mod 16 < 16"
    using byte_less [of c] byte_nonneg [of c] by auto
  have b: "byte (CHR ''+'') = 43" "byte (CHR ''%'') = 37" by (simp_all add: byte_def)
  consider "unreserved c" "x = c" | "x = CHR ''+''" | "x = CHR ''%''" | "x = up_hex (byte c div 16)"
    | "x = up_hex (byte c mod 16)"
    using x by (auto simp: esc_char_def split: if_splits)
  then show ?thesis
    using up_hex_byte [OF r(2,1)] up_hex_byte [OF r(3,4)] b by cases (auto simp: unreserved_def Let_def)
qed

lemma escape_plain: "CHR ''&'' \<notin> set (query_escape s)" "CHR ''='' \<notin> set (query_escape s)"
proof -
  have "byte (CHR ''&'') = 38" "byte (CHR ''='') = 61" by (simp_all add: byte_def)
  then show "CHR ''&'' \<notin> set (query_escape s)" "CHR ''='' \<notin> set (query_escape s)"
    using esc_char_plain [of "CHR ''&''"] esc_char_plain [of "CHR ''=''"] by (auto simp: query_escape_def)
qed

lemma parse_pair_enc: "parse_pair (query_escape k @ ''='' @ query_escape v) = Some (k, v)"
proof -
  have "\<forall>c \<in> set (query_escape k). c \<noteq> CHR ''=''" using escape_plain(2) by blast
  then show ?thesis by (simp add: parse_pair_def)
qed

lemma split_on_nosep: "d \<notin> set w \<Longrightarrow> split_on d w = [w]"
  by (induction w) auto

lemma split_on_append: "d \<notin> set w \<Longrightarrow> split_on d (w @ d # s) = w # split_on d s"
  by (induction w) auto

lemma split_on_join:
  "ws \<noteq> [] \<Longrightarrow> \<forall>w \<in> set ws. d \<notin> set w \<Longrightarrow> split_on d (join [d] ws) = ws"
  by (induction "[d]" ws rule: join.induct) (simp_all add: split_on_nosep split_on_append)

lemma parse_encode: "vs \<noteq> [] \<Longrightarrow> parse_query (values_encode vs) = Some (sort_key fst vs)"
proof -
  assume "vs \<noteq> []"
  then have "split_on (CHR ''&'') (values_encode vs)
      = map (\<lambda>(k, v). query_escape k @ ''='' @ query_escape v) (sort_key fst vs)"
    unfolding values_encode_def
    by (intro split_on_join) (auto simp: escape_plain simp flip: set_empty)
  moreover have "those (map (\<lambda>kv. Some kv) xs) = Some xs" for xs :: "(string \<times> string) list"
    by (induction xs) simp_all
  ultimately show ?thesis
    by (simp add: parse_query_def comp_def case_prod_beta parse_pair_enc [simplified])
qed

section \<open>Properties\<close>

text \<open>
  C14. A search that succeeds returns the server's matches, cleaned of the emphasis tags, each
  market (full symbol and type) once and in the server's order, cut at the limit; without a
  limit no market is lost. Every failure has the code for a failed search, except an empty
  query, which is refused without a request.
\<close>
theorem search_results:
  shows "case SearchSymbols U http jerr cfg query opts of
      Inl e \<Rightarrow> (if trim_space U query = '''' then e_Code e = CodeInvalidBars else e_Code e = CodeUpstreamHTTP)
    | Inr ms \<Rightarrow> (\<exists>resp raw. http (search_request U cfg (trim_space U query) opts) = Inr resp
        \<and> hp_Status resp = 200 \<and> decode_raw resp = Some raw
        \<and> ms = cut (so_Limit opts) (first_by match_key (map to_match raw))
        \<and> distinct (map match_key ms)
        \<and> (so_Limit opts \<le> 0 \<longrightarrow> match_key ` set ms = (match_key \<circ> to_match) ` set raw))"
proof (cases "SearchSymbols U http jerr cfg query opts")
  case (Inl e)
  then show ?thesis by (auto simp: SearchSymbols_def Let_def split: sum.splits if_splits option.splits)
next
  case (Inr ms)
  then obtain resp raw where r: "http (search_request U cfg (trim_space U query) opts) = Inr resp"
    "hp_Status resp = 200" "decode_raw resp = Some raw" "ms = collect_matches (so_Limit opts) raw {} []"
    by (auto simp: SearchSymbols_def Let_def split: sum.splits if_splits option.splits)
  let ?f = "first_by match_key (map to_match raw)"
  have ms: "ms = cut (so_Limit opts) ?f" by (simp add: r(4) collect_matches_eq)
  have "distinct (map match_key ms)"
    using first_by_distinct [of match_key] by (simp add: ms cut_def flip: take_map)
  moreover have "so_Limit opts \<le> 0 \<longrightarrow> match_key ` set ms = (match_key \<circ> to_match) ` set raw"
    using first_by_keys [of match_key "map to_match raw"] by (simp add: ms cut_def image_comp)
  ultimately show ?thesis using Inr r ms by auto
qed

text \<open>
  C38. The query, the language, the type and the exchange reach the server unchanged, whatever
  bytes they hold: reading the query string of the request back gives exactly the parameters
  that were set, in the order of their names.
\<close>
theorem search_query_roundtrip:
  "\<exists>qs. hr_URL (search_request U cfg query opts) = searchURL @ ''?'' @ qs
    \<and> parse_query qs = Some
        ((if so_Exchange opts \<noteq> '''' then [(''exchange'', to_upper U (so_Exchange opts))] else [])
         @ [(''hl'', ''1''), (''lang'', if so_Lang opts \<noteq> '''' then so_Lang opts else ''en''), (''text'', query)]
         @ (if so_Type opts \<noteq> '''' then [(''type'', so_Type opts)] else []))"
proof -
  have ne: "search_values U query opts \<noteq> []" by (simp add: search_values_def values_set_def Let_def)
  have "sort_key fst (search_values U query opts) =
      (if so_Exchange opts \<noteq> '''' then [(''exchange'', to_upper U (so_Exchange opts))] else [])
         @ [(''hl'', ''1''), (''lang'', if so_Lang opts \<noteq> '''' then so_Lang opts else ''en''), (''text'', query)]
         @ (if so_Type opts \<noteq> '''' then [(''type'', so_Type opts)] else [])"
    by (simp add: search_values_def values_set_def Let_def)
  with parse_encode [OF ne] show ?thesis by (simp add: search_request_def)
qed

definition two_hits :: http_reply where
  \<open>two_hits = \<lparr>hp_Status = 200, hp_Body =
     ''[{"symbol":"<em>BTC</em>USD","type":"spot","prefix":"X"},{"symbol":"BTCUSD","type":"spot","prefix":"X"},null]'',
     hp_Broken = False\<rparr>\<close>

theorem search_results_witness:
  "\<exists>ms. SearchSymbols no_tables (\<lambda>_. Inr two_hits) (\<lambda>_. ''eof'') DefaultConfig ''btc'' \<lparr>so_Type = '''',
      so_Exchange = '''', so_Lang = '''', so_Limit = 0\<rparr> = Inr ms
    \<and> distinct (map match_key ms) \<and> map match_key ms = [''X:BTCUSD|spot'', ''|'']"
proof -
  let ?o = "\<lparr>so_Type = '''', so_Exchange = '''', so_Lang = '''', so_Limit = 0\<rparr>"
  let ?s = "SearchSymbols no_tables (\<lambda>_. Inr two_hits) (\<lambda>_. ''eof'') DefaultConfig ''btc'' ?o"
  have "map_sum (\<lambda>e. e) (map match_key) ?s = Inr [''X:BTCUSD|spot'', ''|'']"
    by code_simp
  then obtain ms where m: "?s = Inr ms" "map match_key ms = [''X:BTCUSD|spot'', ''|'']"
    by (cases ?s) simp_all
  have "distinct (map match_key ms)"
    using search_results [where U = no_tables and http = "\<lambda>_. Inr two_hits" and jerr = "\<lambda>_. ''eof''" and cfg = DefaultConfig
        and query = "''btc''" and opts = ?o]
    unfolding m(1) sum.case by (elim exE conjE)
  with m show ?thesis by (intro exI conjI)
qed

end
