(* ===== verification/Mcp.thy ===== *)
theory Mcp
  imports Client Analysis Search
begin

text \<open>
  \<open>mcp/\<close>: the client's methods as agent tools. A handler returns Go's pair: a value or nil,
  an error or nil. Of the package \<open>mcptool\<close> the handlers use the error type, here
  \<open>ToolErr\<close>, and \<open>PageOf\<close>, a parameter. The registration of the handlers, their JSON schemas
  and the decoding of their inputs are \<open>mcptool\<close>'s.
\<close>

section \<open>\<open>helpers.go\<close>\<close>

text \<open>An error of another package carries the first \<open>*Error\<close> of its chain, if any.\<close>

datatype any_error = ToolErr string string | TvErr tv_error | OtherErr string "tv_error option"

definition wrapErr :: "any_error option \<Rightarrow> string \<Rightarrow> any_error option" where
  "wrapErr err op =
     (case err of
        None \<Rightarrow> None
      | Some (TvErr e) \<Rightarrow> Some (ToolErr (e_Code e) (op @ '': '' @ e_Message e))
      | Some (OtherErr s (Some e)) \<Rightarrow> Some (ToolErr (e_Code e) (op @ '': '' @ e_Message e))
      | Some x \<Rightarrow> Some x)"

definition defaultInt :: "int \<Rightarrow> int \<Rightarrow> int" where
  "defaultInt v fallback = (if v \<le> 0 then fallback else v)"

type_synonym 'o reply = "('o option \<times> any_error option) outcome"

section \<open>\<open>fetch.go\<close>\<close>

record fetch_candles_input =
  fc_Symbol :: string
  fc_Resolution :: string
  fc_Bars :: int

record fetch_multi_input =
  fm_Symbol :: string
  fm_Resolutions :: "string list"
  fm_Bars :: int

definition fetchCandles :: "unicode \<Rightarrow> client \<Rightarrow> fetch_env \<Rightarrow> fetch_candles_input
    \<Rightarrow> chart_data reply \<times> client" where
  "fetchCandles U cl env inp =
     (case Fetch U cl env (fc_Symbol inp) (fc_Resolution inp) (defaultInt (fc_Bars inp) 300) of
        (Waiting, cl') \<Rightarrow> (Waiting, cl')
      | (Panicked, cl') \<Rightarrow> (Panicked, cl')
      | (Done (Inl err), cl') \<Rightarrow> (Done (None, wrapErr (Some (TvErr err)) ''fetch_candles''), cl')
      | (Done (Inr dat), cl') \<Rightarrow> (Done (Some dat, None), cl'))"

text \<open>The jobs, the clock and the elapsed time are those of \<open>FetchMulti\<close>.\<close>

record multi_io =
  mi_jobs :: "job list"
  mi_now :: int
  mi_since :: int

definition fetchMulti :: "unicode \<Rightarrow> client \<Rightarrow> multi_io \<Rightarrow> fetch_multi_input \<Rightarrow> multi_chart_data reply" where
  "fetchMulti U cl io inp =
     (case FetchMulti U cl (fm_Symbol inp) (fm_Resolutions inp) (defaultInt (fm_Bars inp) 200)
             (mi_jobs io) (mi_now io) (mi_since io) of
        Waiting \<Rightarrow> Waiting
      | Panicked \<Rightarrow> Panicked
      | Done (Inl err) \<Rightarrow> Done (None, wrapErr (Some (TvErr err)) ''fetch_multi'')
      | Done (Inr dat) \<Rightarrow> Done (Some dat, None))"

section \<open>\<open>search.go\<close>\<close>

record search_symbols_input =
  si_Query :: string
  si_Type :: string
  si_Exchange :: string
  si_Limit :: int

definition searchSymbols :: "unicode \<Rightarrow> (http_request \<Rightarrow> string + http_reply) \<Rightarrow> (http_reply \<Rightarrow> string)
    \<Rightarrow> (symbol_match list \<Rightarrow> string \<Rightarrow> int \<Rightarrow> 'page) \<Rightarrow> client \<Rightarrow> search_symbols_input \<Rightarrow> 'page reply" where
  "searchSymbols U http jerr page cl inp =
     (case SearchSymbols U http jerr (cl_cfg cl) (si_Query inp)
             \<lparr>so_Type = si_Type inp, so_Exchange = si_Exchange inp, so_Lang = '''',
              so_Limit = defaultInt (si_Limit inp) 10\<rparr> of
        Inl err \<Rightarrow> Done (None, wrapErr (Some (TvErr err)) ''search_symbols'')
      | Inr matches \<Rightarrow> Done (Some (page matches '''' (defaultInt (si_Limit inp) 10)), None))"

section \<open>\<open>analyze.go\<close>\<close>

record analyze_input =
  ai_Symbol :: string
  ai_Resolutions :: "string list"
  ai_Bars :: int
  ai_Indicators :: "string list"

record indicator_input =
  ii_Symbol :: string
  ii_Resolution :: string
  ii_Indicator :: string
  ii_Bars :: int
  ii_Params :: params

record analyze_output =
  ao_Symbol :: string
  ao_Timeframes :: "timeframe_annotations list"

record indicator_output =
  io_Symbol :: string
  io_Resolution :: string
  io_Indicator :: string
  io_Annotations :: "annotation list"

definition analyze :: "unicode \<Rightarrow> ('p, 'l) talib \<Rightarrow> client \<Rightarrow> multi_io \<Rightarrow> analyze_input \<Rightarrow> analyze_output reply" where
  "analyze U L cl io inp =
     (case FetchMulti U cl (ai_Symbol inp) (ai_Resolutions inp) (defaultInt (ai_Bars inp) 300)
             (mi_jobs io) (mi_now io) (mi_since io) of
        Waiting \<Rightarrow> Waiting
      | Panicked \<Rightarrow> Panicked
      | Done (Inl err) \<Rightarrow> Done (None, wrapErr (Some (TvErr err)) ''analyze'')
      | Done (Inr multi) \<Rightarrow>
          (case EnrichMulti U L (Some multi) (ai_Indicators inp) of
             None \<Rightarrow> Panicked
           | Some tfs \<Rightarrow> Done (Some \<lparr>ao_Symbol = ai_Symbol inp, ao_Timeframes = tfs\<rparr>, None)))"

definition indicator :: "unicode \<Rightarrow> ('p, 'l) talib \<Rightarrow> client \<Rightarrow> fetch_env \<Rightarrow> indicator_input
    \<Rightarrow> indicator_output reply \<times> client" where
  "indicator U L cl env inp =
     (case Fetch U cl env (ii_Symbol inp) (ii_Resolution inp) (defaultInt (ii_Bars inp) 300) of
        (Waiting, cl') \<Rightarrow> (Waiting, cl')
      | (Panicked, cl') \<Rightarrow> (Panicked, cl')
      | (Done (Inl err), cl') \<Rightarrow> (Done (None, wrapErr (Some (TvErr err)) ''indicator''), cl')
      | (Done (Inr dat), cl') \<Rightarrow>
          (case Compute U L (ii_Indicator inp) (cd_Candles dat) (ii_Resolution inp) (ii_Params inp) of
             None \<Rightarrow> (Panicked, cl')
           | Some (Inl err) \<Rightarrow> (Done (None, Some (ToolErr ''invalid_input'' err)), cl')
           | Some (Inr anns) \<Rightarrow> (Done (Some \<lparr>io_Symbol = ii_Symbol inp, io_Resolution = ii_Resolution inp,
                 io_Indicator = ii_Indicator inp, io_Annotations = anns\<rparr>, None), cl')))"

section \<open>\<open>mcp.go\<close> and \<open>excluded.go\<close>\<close>

text \<open>The tools, by name and the client method each stands for.\<close>

record tool =
  tl_Name :: string
  tl_Description :: string
  tl_Method :: string

definition fetchTools :: "tool list" where
  "fetchTools =
     [\<lparr>tl_Name = ''tradingview_fetch_candles'', tl_Description =
         ''Fetch OHLCV candles for one symbol/resolution. The last bar is the currently-forming (unclosed) candle.'',
       tl_Method = ''Fetch''\<rparr>,
      \<lparr>tl_Name = ''tradingview_fetch_multi'', tl_Description =
         ''Fetch OHLCV for one symbol across several resolutions in parallel. Prefer over repeated fetch_candles calls.'',
       tl_Method = ''FetchMulti''\<rparr>]"

definition searchTools :: "tool list" where
  "searchTools =
     [\<lparr>tl_Name = ''tradingview_search_symbols'', tl_Description =
         ''Autocomplete-style search (max ~50 hits). Use returned prefix:symbol (e.g. BINANCE:BTCUSDT) with fetch_candles.'',
       tl_Method = ''SearchSymbols''\<rparr>]"

definition analyzeTools :: "tool list" where
  "analyzeTools =
     [\<lparr>tl_Name = ''tradingview_analyze'', tl_Description =
         ''Multi-timeframe technical analysis: fetches candles and returns RSI/MACD/EMA/etc readings per timeframe.'',
       tl_Method = ''''\<rparr>,
      \<lparr>tl_Name = ''tradingview_indicator'', tl_Description =
         ''Compute one indicator with custom parameters on a single timeframe and return its reading + state.'',
       tl_Method = ''''\<rparr>]"

definition Platform :: string where
  "Platform = ''tradingview''"

definition Tools :: "tool list" where
  "Tools = fetchTools @ searchTools @ analyzeTools"

definition Excluded :: "(string \<times> string) list" where
  "Excluded = [(''Close'', ''lifecycle owned by the host process; not an agent action'')]"

text \<open>
  Every exported method of the client is wrapped by one tool or excluded, and the names are
  distinct and carry the platform.
\<close>

lemma tools_cover:
  "{''Close'', ''Fetch'', ''FetchMulti'', ''SearchSymbols''} = set (map tl_Method Tools) - {''''} \<union> set (map fst Excluded)"
  "distinct (map tl_Name Tools)" "\<forall>t \<in> set Tools. has_prefix (tl_Name t) (Platform @ ''_'')"
  by (auto simp: Tools_def fetchTools_def searchTools_def analyzeTools_def Excluded_def Platform_def has_prefix_def)

section \<open>Properties\<close>

text \<open>A well-formed reply: a value or an error, and every error a tool error with a documented code.\<close>

definition reply_ok :: "'o reply \<Rightarrow> bool" where
  "reply_ok r = (case r of
       Done (v, None) \<Rightarrow> v \<noteq> None
     | Done (v, Some (ToolErr code msg)) \<Rightarrow> v = None \<and> (code \<in> client_codes \<or> code = ''invalid_input'')
     | Done (v, Some _) \<Rightarrow> False
     | _ \<Rightarrow> True)"

lemma reply_ok_simps [simp]:
  "reply_ok Waiting" "reply_ok Panicked" "reply_ok (Done (v, None)) \<longleftrightarrow> v \<noteq> None"
  "reply_ok (Done (v, Some (ToolErr code msg))) \<longleftrightarrow> v = None \<and> (code \<in> client_codes \<or> code = ''invalid_input'')"
  by (simp_all add: reply_ok_def)

lemma wrap_client [simp]: "wrapErr (Some (TvErr e)) op = Some (ToolErr (e_Code e) (op @ '': '' @ e_Message e))"
  by (simp add: wrapErr_def)

lemma search_codes: "SearchSymbols U http jerr cfg query opts = Inl e \<Longrightarrow> e_Code e \<in> client_codes"
  by (auto simp: SearchSymbols_def Let_def client_codes_def network_codes_def split: if_splits sum.splits option.splits)



text \<open>
  C15. An indicator reading is computed from the market that was asked for: when the
  library keeps its promises the tool panics only where the fetch does or for parameters that do
  not fit the candles, and what it returns
  is the reading of the named indicator on at least fifty candles of the normalised symbol
  and resolution; an unknown indicator or too few candles are invalid input.
\<close>
theorem indicator_reads_request:
  assumes "client_inv cl" and "lib_ok L"
    and "fetched = fst (Fetch U cl env (ii_Symbol inp) (ii_Resolution inp) (defaultInt (ii_Bars inp) 300))"
    and "nm = to_lower U (trim_space U (ii_Indicator inp))"
  shows "case fst (indicator U L cl env inp) of
      Waiting \<Rightarrow> fetched = Waiting
    | Panicked \<Rightarrow> fetched = Panicked
        \<or> (\<exists>d. fetched = Done (Inr d) \<and> misfit U (ii_Indicator inp) (ii_Params inp) (cd_Candles d))
    | Done (Some out, _) \<Rightarrow> (\<exists>d e. fetched = Done (Inr d) \<and> cd_Symbol d = NormalizeSymbol U (ii_Symbol inp)
        \<and> NormalizeResolution U (ii_Resolution inp) = Some (cd_Resolution d) \<and> 50 \<le> length (cd_Candles d)
        \<and> enricherFor U nm (ii_Params inp) = Inr e \<and> Name e = nm
        \<and> Enrich L e (cd_Candles d) (ii_Resolution inp) = Some (io_Annotations out))
    | Done (None, _) \<Rightarrow> (\<exists>e. fetched = Done (Inl e)) \<or> (\<exists>d. fetched = Done (Inr d)
        \<and> (nm \<notin> set IndicatorNames \<or> length (cd_Candles d) < 50))"
proof -
  obtain r cl' where F: "Fetch U cl env (ii_Symbol inp) (ii_Resolution inp) (defaultInt (ii_Bars inp) 300) = (r, cl')"
    by (metis surj_pair)
  then have r: "fetched = r" by (simp add: assms(3))
  show ?thesis
  proof (cases "\<exists>d. r = Done (Inr d)")
    case False
    then consider "r = Waiting" | "r = Panicked" | e where "r = Done (Inl e)"
      by (metis outcome.exhaust sum.exhaust)
    then show ?thesis by cases (simp_all add: indicator_def F r)
  next
    case True
    then obtain d where d: "r = Done (Inr d)" by blast
    obtain n where req: "request U (ii_Symbol inp) (ii_Resolution inp) (defaultInt (ii_Bars inp) 300)
        = Some (cd_Symbol d, cd_Resolution d, n)"
      using Fetch_sound(2) [OF assms(1), of U env "ii_Symbol inp" "ii_Resolution inp" "defaultInt (ii_Bars inp) 300" d] F d
      by auto
    then have m: "cd_Symbol d = NormalizeSymbol U (ii_Symbol inp)"
      "NormalizeResolution U (ii_Resolution inp) = Some (cd_Resolution d)"
      by (auto simp: request_def split: if_splits)
    show ?thesis
    proof (cases "Compute U L (ii_Indicator inp) (cd_Candles d) (ii_Resolution inp) (ii_Params inp)")
      case None
      then have "misfit U (ii_Indicator inp) (ii_Params inp) (cd_Candles d)" using compute_total [OF assms(2)] by blast
      then show ?thesis using None by (simp add: indicator_def F r d)
    next
      case c: (Some res)
      show ?thesis
      proof (cases res)
        case (Inl msg)
        have "nm \<notin> set IndicatorNames \<or> length (cd_Candles d) < 50"
          using c Inl enricherFor_known [of U nm "ii_Params inp"]
          by (auto simp: Compute_def minBars_def simp flip: assms(4) split: sum.splits if_splits)
        then show ?thesis using c Inl by (simp add: indicator_def F r d)
      next
        case (Inr anns)
        then obtain e where "enricherFor U nm (ii_Params inp) = Inr e" "50 \<le> length (cd_Candles d)"
          "Enrich L e (cd_Candles d) (ii_Resolution inp) = Some anns"
          using c by (auto simp: Compute_def minBars_def simp flip: assms(4) split: sum.splits if_splits)
        then show ?thesis using c Inr m enricherFor_name by (simp add: indicator_def F r d)
      qed
    qed
  qed
qed

theorem indicator_reads_request_witness:
  "case fst (indicator no_tables flat_lib sample_client sample_env \<lparr>ii_Symbol = ''btc '', ii_Resolution = ''5m'',
       ii_Indicator = ''rsi'', ii_Bars = 300, ii_Params = no_params\<rparr>) of
     Done (None, _) \<Rightarrow> True | _ \<Rightarrow> False"
proof -
  let ?i = "\<lparr>ii_Symbol = ''btc '', ii_Resolution = ''5m'', ii_Indicator = ''rsi'', ii_Bars = 300, ii_Params = no_params\<rparr>"
  have inv: "client_inv sample_client" using client_inv_new by (simp add: sample_client_def)
  have r: "request no_tables ''btc '' ''5m'' 0 = Some (''BTC'', ''5'', 300)"
    "request no_tables ''btc '' ''5m'' 300 = Some (''BTC'', ''5'', 300)" by code_simp+
  have live: "\<not> cl_closed sample_client" by (simp add: sample_client_def New_def Let_def)
  have "Done (Inr sample_answer) = fst (Fetch no_tables sample_client sample_env (ii_Symbol ?i) (ii_Resolution ?i)
      (defaultInt (ii_Bars ?i) 300))"
    using sample_Fetch Fetch_request(1) [OF r(1) live] Fetch_request(1) [OF r(2) live] by (simp add: defaultInt_def)
  from indicator_reads_request [OF inv flat_lib_ok this refl] show ?thesis
    by (auto simp: sample_answer_def no_params_fit split: outcome.splits prod.splits option.splits)
qed

end
