(* ===== verification/Cmd.thy ===== *)
theory Cmd
  imports Mcp
begin

text \<open>
  \<open>cmd/tradingview-fetch\<close> and \<open>cmd/tradingview-mcp\<close>: the command line, the configuration file
  with its environment overrides, and the bridge from an MCP call to a tool. Flag parsing, the
  encoding of the results as JSON and the MCP server are libraries'; the result of a run is the
  value that is printed, or the message of the failed exit.
\<close>

section \<open>\<open>tradingview-fetch\<close>\<close>

record flags =
  fl_symbol :: string
  fl_resolution :: string
  fl_resolutions :: string
  fl_bars :: int
  fl_search :: string
  fl_type :: string
  fl_exchange :: string
  fl_limit :: int

definition default_flags :: flags where
  "default_flags = \<lparr>fl_symbol = '''', fl_resolution = '''', fl_resolutions = '''', fl_bars = 300, fl_search = '''',
     fl_type = '''', fl_exchange = '''', fl_limit = 25\<rparr>"

definition splitCSV :: "unicode \<Rightarrow> string \<Rightarrow> string list" where
  "splitCSV U s = filter (\<lambda>p. p \<noteq> '''') (map (trim_space U) (split_on (CHR '','') s))"

datatype cli_output = Matches "symbol_match list" | Multi multi_chart_data | Chart chart_data | Fail string

definition fail :: "string \<Rightarrow> string \<Rightarrow> cli_output" where
  "fail what msg = Fail (''tradingview-fetch: '' @ what @ msg)"

text \<open>The body of \<open>main\<close> after flag parsing; the client is a new one with the default configuration.\<close>

definition fetch_main :: "unicode \<Rightarrow> (http_request \<Rightarrow> string + http_reply) \<Rightarrow> (http_reply \<Rightarrow> string)
    \<Rightarrow> fetch_env \<Rightarrow> multi_io \<Rightarrow> flags \<Rightarrow> cli_output outcome" where
  "fetch_main U http jerr env io flg =
     (let client = New zero_config in
      if fl_search flg \<noteq> ''''
      then (case SearchSymbols U http jerr (cl_cfg client) (fl_search flg)
                 \<lparr>so_Type = fl_type flg, so_Exchange = fl_exchange flg, so_Lang = '''', so_Limit = fl_limit flg\<rparr> of
              Inl err \<Rightarrow> Done (fail ''search: '' (error_string (Some err)))
            | Inr matches \<Rightarrow> Done (Matches matches))
      else if fl_symbol flg = '''' then Done (fail ''must provide -symbol (or -search)'' '''')
      else if fl_resolutions flg \<noteq> ''''
      then (case FetchMulti U client (fl_symbol flg) (splitCSV U (fl_resolutions flg)) (fl_bars flg)
                 (mi_jobs io) (mi_now io) (mi_since io) of
              Waiting \<Rightarrow> Waiting
            | Panicked \<Rightarrow> Panicked
            | Done (Inl err) \<Rightarrow> Done (fail ''fetch_multi: '' (error_string (Some err)))
            | Done (Inr out) \<Rightarrow> Done (Multi out))
      else if fl_resolution flg = '''' then Done (fail ''must provide -resolution or -resolutions'' '''')
      else (case fst (Fetch U client env (fl_symbol flg) (fl_resolution flg) (fl_bars flg)) of
              Waiting \<Rightarrow> Waiting
            | Panicked \<Rightarrow> Panicked
            | Done (Inl err) \<Rightarrow> Done (fail ''fetch: '' (error_string (Some err)))
            | Done (Inr out) \<Rightarrow> Done (Chart out)))"

section \<open>\<open>tradingview-mcp\<close>: the configuration\<close>

record config_file =
  cf_Host :: string
  cf_AuthToken :: string
  cf_PoolSize :: int
  cf_EnableCache :: bool

definition zero_file :: config_file where
  "zero_file = \<lparr>cf_Host = '''', cf_AuthToken = '''', cf_PoolSize = 0, cf_EnableCache = False\<rparr>"

text \<open>Reading the file: it is missing, another error, or its bytes.\<close>

datatype file_read = NotExist | ReadError string | FileData string

text \<open>\<open>strconv.ParseBool\<close>.\<close>

definition parse_bool :: "string \<Rightarrow> bool option" where
  "parse_bool s =
     (if s \<in> {''1'', ''t'', ''T'', ''TRUE'', ''true'', ''True''} then Some True
      else if s \<in> {''0'', ''f'', ''F'', ''FALSE'', ''false'', ''False''} then Some False
      else None)"

text \<open>\<open>json.Unmarshal\<close> into the struct: null leaves a field; an int must be written as one.\<close>

fun decode_int :: "int \<Rightarrow> jtree \<Rightarrow> int option" where
  "decode_int old JNull = Some old"
| "decode_int old (JNum l) = atoi l"
| "decode_int old _ = None"

fun decode_bool :: "bool \<Rightarrow> jtree \<Rightarrow> bool option" where
  "decode_bool old JNull = Some old"
| "decode_bool old (JBool b) = Some b"
| "decode_bool old _ = None"

definition config_field :: "string \<times> jtree \<Rightarrow> config_file \<Rightarrow> config_file option" where
  "config_field kt c = (case kt of (k, t) \<Rightarrow>
     let f = fold_key k in
     if f = ''HOST'' then map_option (\<lambda>v. c\<lparr>cf_Host := v\<rparr>) (decode_str (cf_Host c) t)
     else if f = ''AUTH_TOKEN'' then map_option (\<lambda>v. c\<lparr>cf_AuthToken := v\<rparr>) (decode_str (cf_AuthToken c) t)
     else if f = ''POOL_SIZE'' then map_option (\<lambda>v. c\<lparr>cf_PoolSize := v\<rparr>) (decode_int (cf_PoolSize c) t)
     else if f = ''ENABLE_CACHE'' then map_option (\<lambda>v. c\<lparr>cf_EnableCache := v\<rparr>) (decode_bool (cf_EnableCache c) t)
     else Some c)"

fun config_fields :: "(string \<times> jtree) list \<Rightarrow> config_file \<Rightarrow> config_file option" where
  "config_fields [] c = Some c"
| "config_fields (m # ms) c = do { c' \<leftarrow> config_field m c; config_fields ms c' }"

definition parse_config :: "string \<Rightarrow> config_file option" where
  "parse_config s = (case json_parse s of
       Some JNull \<Rightarrow> Some zero_file
     | Some (JObj ms) \<Rightarrow> config_fields ms zero_file
     | _ \<Rightarrow> None)"

text \<open>An unset variable reads as the empty string.\<close>

definition override :: "(string \<Rightarrow> string) \<Rightarrow> config_file \<Rightarrow> config_file" where
  "override getenv c0 =
     (let v = getenv ''TRADINGVIEW_HOST'';
          c1 = (if v \<noteq> '''' then c0\<lparr>cf_Host := v\<rparr> else c0);
          v = getenv ''TRADINGVIEW_AUTH_TOKEN'';
          c2 = (if v \<noteq> '''' then c1\<lparr>cf_AuthToken := v\<rparr> else c1);
          v = getenv ''TRADINGVIEW_POOL_SIZE'';
          c3 = (if v \<noteq> '''' then (case atoi v of Some n \<Rightarrow> if 0 < n then c2\<lparr>cf_PoolSize := n\<rparr> else c2 | None \<Rightarrow> c2)
                else c2);
          v = getenv ''TRADINGVIEW_ENABLE_CACHE''
      in if v \<noteq> '''' then (case parse_bool v of Some b \<Rightarrow> c3\<lparr>cf_EnableCache := b\<rparr> | None \<Rightarrow> c3) else c3)"

text \<open>
  \<open>filepath.Clean\<close> and \<open>filepath.Join\<close> on a system whose separator is the slash: empty and dot
  elements go, a double dot takes the element before it, or stays in front of a relative path.
\<close>

fun clean_elems :: "bool \<Rightarrow> string list \<Rightarrow> string list \<Rightarrow> string list" where
  "clean_elems rooted [] acc = rev acc"
| "clean_elems rooted (e # es) acc =
     (if e = '''' \<or> e = ''.'' then clean_elems rooted es acc
      else if e = ''..'' then
        (case acc of
           [] \<Rightarrow> clean_elems rooted es (if rooted then [] else [e])
         | a # as \<Rightarrow> clean_elems rooted es (if a = ''..'' then e # acc else as))
      else clean_elems rooted es (e # acc))"

definition path_clean :: "string \<Rightarrow> string" where
  "path_clean s =
     (let rooted = has_prefix s ''/'';
          out = (if rooted then ''/'' else '''') @ join ''/'' (clean_elems rooted (split_on (CHR ''/'') s) [])
      in if out = '''' then ''.'' else out)"

definition path_join :: "string list \<Rightarrow> string" where
  "path_join es = (let es = filter (\<lambda>e. e \<noteq> '''') es in if es = [] then '''' else path_clean (join ''/'' es))"

text \<open>The home directory is empty when the system knows none.\<close>

definition defaultConfigPath :: "string \<Rightarrow> string" where
  "defaultConfigPath home = path_join [home, ''.tradingview-mcp'', ''config.json'']"

definition loadConfig :: "(string \<Rightarrow> file_read) \<Rightarrow> string \<Rightarrow> (string \<Rightarrow> string) \<Rightarrow> (string \<Rightarrow> string)
    \<Rightarrow> string + config" where
  "loadConfig read_file home jerr getenv =
     (case (case read_file (defaultConfigPath home) of
              NotExist \<Rightarrow> Inr zero_file
            | ReadError e \<Rightarrow> Inl (''read config: '' @ e)
            | FileData s \<Rightarrow> (case parse_config s of None \<Rightarrow> Inl (''parse config: '' @ jerr s) | Some c \<Rightarrow> Inr c)) of
        Inl e \<Rightarrow> Inl e
      | Inr c0 \<Rightarrow>
          (let c = override getenv c0 in
           Inr (zero_config\<lparr>cfg_Host := cf_Host c, cfg_AuthToken := cf_AuthToken c,
             cfg_PoolSize := cf_PoolSize c, cfg_EnableCache := cf_EnableCache c\<rparr>)))"

section \<open>\<open>tradingview-mcp\<close>: calling a tool\<close>

text \<open>
  What \<open>run\<close> registers for each tool: the arguments are encoded, the tool is invoked, the
  value is encoded; every failure is a tool result, not a protocol error.
\<close>

datatype tool_result = ResultText string | ResultError string

definition call_tool :: "('a \<Rightarrow> string + string) \<Rightarrow> (string \<Rightarrow> string + 'v) \<Rightarrow> ('v \<Rightarrow> string + string) \<Rightarrow> 'a \<Rightarrow> tool_result" where
  "call_tool encode_args invoke encode_value args =
     (case encode_args args of
        Inl e \<Rightarrow> ResultError e
      | Inr raw \<Rightarrow>
          (case invoke raw of
             Inl e \<Rightarrow> ResultError e
           | Inr v \<Rightarrow> (case encode_value v of Inl e \<Rightarrow> ResultError e | Inr out \<Rightarrow> ResultText out)))"

section \<open>\<open>tradingview-mcp\<close>: the server\<close>

text \<open>
  The server of the MCP library is the list of the tools added to it, each with the tool its
  handler captures. The JSON schema of a tool and \<open>Invoke\<close> are \<open>mcptool\<close>'s: \<open>schema\<close> gives the
  encoded schema or the encoder's error. \<open>serve\<close> is \<open>ServeStdio\<close>: its error, if any, and the
  client as the calls leave it.
\<close>

record served_tool =
  sv_Name :: string
  sv_Description :: string
  sv_Schema :: string
  sv_Tool :: tool

fun add_tools :: "(tool \<Rightarrow> string + string) \<Rightarrow> tool list \<Rightarrow> served_tool list \<Rightarrow> string + served_tool list" where
  "add_tools schema [] s = Inr s"
| "add_tools schema (t # ts) s =
     (case schema t of
        Inl e \<Rightarrow> Inl (''marshal schema for '' @ tl_Name t @ '': '' @ e)
      | Inr raw \<Rightarrow> add_tools schema ts
          (s @ [\<lparr>sv_Name = tl_Name t, sv_Description = tl_Description t, sv_Schema = raw, sv_Tool = t\<rparr>]))"

text \<open>\<open>run\<close>: its error, and the client after the deferred \<open>Close\<close>, if one was made.\<close>

definition run_server :: "(string \<Rightarrow> file_read) \<Rightarrow> string \<Rightarrow> (string \<Rightarrow> string) \<Rightarrow> (string \<Rightarrow> string)
    \<Rightarrow> (tool \<Rightarrow> string + string) \<Rightarrow> (client \<Rightarrow> served_tool list \<Rightarrow> string option \<times> client)
    \<Rightarrow> string option \<times> client option" where
  "run_server read_file home jerr getenv schema serve =
     (case loadConfig read_file home jerr getenv of
        Inl e \<Rightarrow> (Some e, None)
      | Inr cfg \<Rightarrow>
          (let client = New cfg in
           case add_tools schema Tools [] of
             Inl e \<Rightarrow> (Some e, Some (snd (Close client)))
           | Inr tools \<Rightarrow> (case serve client tools of (err, client') \<Rightarrow> (err, Some (snd (Close client'))))))"

text \<open>What the handler of a served tool does with the arguments of a call.\<close>

definition handle :: "('a \<Rightarrow> string + string) \<Rightarrow> (tool \<Rightarrow> string \<Rightarrow> string + 'v) \<Rightarrow> ('v \<Rightarrow> string + string)
    \<Rightarrow> served_tool \<Rightarrow> 'a \<Rightarrow> tool_result" where
  "handle encode_args invoke encode_value t args = call_tool encode_args (invoke (sv_Tool t)) encode_value args"

datatype exit = ExitOk | ExitFail string

definition mcp_main :: "string option \<times> client option \<Rightarrow> exit" where
  "mcp_main r = (case fst r of None \<Rightarrow> ExitOk | Some err \<Rightarrow> ExitFail (''tradingview-mcp: '' @ err))"

text \<open>
  The server gets every tool, in order, under its own name and with its own handler, or none
  is served and the error names the first tool without a schema. The client is closed at the end.
\<close>

definition served :: "(tool \<Rightarrow> string + string) \<Rightarrow> tool \<Rightarrow> served_tool" where
  "served schema t = \<lparr>sv_Name = tl_Name t, sv_Description = tl_Description t,
     sv_Schema = (case schema t of Inl e \<Rightarrow> e | Inr raw \<Rightarrow> raw), sv_Tool = t\<rparr>"

lemma add_tools_spec:
  "add_tools schema ts s = (case List.find (\<lambda>t. isl (schema t)) ts of
     None \<Rightarrow> Inr (s @ map (served schema) ts)
   | Some t \<Rightarrow> Inl (''marshal schema for '' @ tl_Name t @ '': '' @ projl (schema t)))"
  by (induction schema ts s rule: add_tools.induct) (auto simp: served_def split: sum.split option.split)

lemma Close_closed: "cl_closed (snd (Close cl))"
  by (simp add: Close_def pool_shut_def split: prod.split)

lemma run_server_spec:
  assumes "\<And>t. t \<in> set Tools \<Longrightarrow> \<exists>raw. schema t = Inr raw"
  shows "run_server read_file home jerr getenv schema serve = (case loadConfig read_file home jerr getenv of
      Inl e \<Rightarrow> (Some e, None)
    | Inr cfg \<Rightarrow> (fst (serve (New cfg) (map (served schema) Tools)),
        Some (snd (Close (snd (serve (New cfg) (map (served schema) Tools)))))))"
    and "distinct (map sv_Name (map (served schema) Tools))"
proof -
  have "List.find (\<lambda>t. isl (schema t)) Tools = None" using assms by (fastforce simp: find_None_iff)
  then show "run_server read_file home jerr getenv schema serve = (case loadConfig read_file home jerr getenv of
      Inl e \<Rightarrow> (Some e, None)
    | Inr cfg \<Rightarrow> (fst (serve (New cfg) (map (served schema) Tools)),
        Some (snd (Close (snd (serve (New cfg) (map (served schema) Tools)))))))"
    by (simp add: run_server_def add_tools_spec Let_def split: sum.split prod.split)
  show "distinct (map sv_Name (map (served schema) Tools))"
    using tools_cover(2) by (simp add: comp_def served_def)
qed

text \<open>The list of resolutions on the command line: trimmed, none empty.\<close>

lemma splitCSV_nonempty: "p \<in> set (splitCSV U s) \<Longrightarrow> p \<noteq> [] \<and> (\<exists>q. p = trim_space U q)"
  by (auto simp: splitCSV_def)

section \<open>Properties\<close>

lemma override_fields:
  "cf_Host (override getenv c) = (if getenv ''TRADINGVIEW_HOST'' \<noteq> '''' then getenv ''TRADINGVIEW_HOST'' else cf_Host c)"
  "cf_AuthToken (override getenv c) =
     (if getenv ''TRADINGVIEW_AUTH_TOKEN'' \<noteq> '''' then getenv ''TRADINGVIEW_AUTH_TOKEN'' else cf_AuthToken c)"
  "cf_PoolSize (override getenv c) = (case atoi (getenv ''TRADINGVIEW_POOL_SIZE'') of
     Some n \<Rightarrow> if 0 < n then n else cf_PoolSize c | None \<Rightarrow> cf_PoolSize c)"
  "cf_EnableCache (override getenv c) = (case parse_bool (getenv ''TRADINGVIEW_ENABLE_CACHE'') of
     Some b \<Rightarrow> b | None \<Rightarrow> cf_EnableCache c)"
proof -
  have blank: "atoi '''' = None" "parse_bool '''' = None" by (simp_all add: atoi_def parse_bool_def)
  show "cf_Host (override getenv c) = (if getenv ''TRADINGVIEW_HOST'' \<noteq> '''' then getenv ''TRADINGVIEW_HOST'' else cf_Host c)"
    "cf_AuthToken (override getenv c) =
     (if getenv ''TRADINGVIEW_AUTH_TOKEN'' \<noteq> '''' then getenv ''TRADINGVIEW_AUTH_TOKEN'' else cf_AuthToken c)"
    by (simp_all add: override_def Let_def split: option.split)
  show "cf_PoolSize (override getenv c) = (case atoi (getenv ''TRADINGVIEW_POOL_SIZE'') of
     Some n \<Rightarrow> if 0 < n then n else cf_PoolSize c | None \<Rightarrow> cf_PoolSize c)"
    by (cases "getenv ''TRADINGVIEW_POOL_SIZE'' = ''''") (simp_all add: override_def Let_def blank split: option.split)
  show "cf_EnableCache (override getenv c) = (case parse_bool (getenv ''TRADINGVIEW_ENABLE_CACHE'') of
     Some b \<Rightarrow> b | None \<Rightarrow> cf_EnableCache c)"
    by (cases "getenv ''TRADINGVIEW_ENABLE_CACHE'' = ''''") (simp_all add: override_def Let_def blank split: option.split)
qed

text \<open>The first of some settings that is set, the specification of the precedence.\<close>

definition first_set :: "('a \<Rightarrow> bool) \<Rightarrow> 'a list \<Rightarrow> 'a \<Rightarrow> 'a" where
  "first_set ok vs d = (case List.find ok vs of Some v \<Rightarrow> v | None \<Rightarrow> d)"

lemma first_set_simps [simp]:
  "first_set ok [] d = d" "first_set ok (v # vs) d = (if ok v then v else first_set ok vs d)"
  by (simp_all add: first_set_def)

lemma withDefaults_loaded:
  "withDefaults (zero_config\<lparr>cfg_Host := h, cfg_AuthToken := t, cfg_PoolSize := n, cfg_EnableCache := b\<rparr>)
   = DefaultConfig\<lparr>cfg_Host := first_set (\<lambda>s. s \<noteq> '''') [h] (cfg_Host DefaultConfig),
       cfg_AuthToken := first_set (\<lambda>s. s \<noteq> '''') [t] (cfg_AuthToken DefaultConfig),
       cfg_PoolSize := first_set (\<lambda>k. 0 < k) [n] (cfg_PoolSize DefaultConfig), cfg_EnableCache := b\<rparr>"
  by (rule config.equality) (simp_all add: withDefaults_fields zero_config_def)

text \<open>
  C26. The server's configuration: a loaded configuration takes each setting from the
  environment if it is set there (for the pool size: to a positive number, for the cache: to a
  boolean), else from the file, else from the client's defaults, which also fill every other
  setting. Loading fails exactly when the file cannot be read or is not valid; a missing file is
  an empty one.
\<close>
theorem config_precedence:
  assumes "file = read_file (defaultConfigPath home)"
  shows "case loadConfig read_file home jerr getenv of
     Inl e \<Rightarrow> (\<exists>m. file = ReadError m) \<or> (\<exists>s. file = FileData s \<and> parse_config s = None)
   | Inr cfg \<Rightarrow> (\<exists>c0. (file = NotExist \<and> c0 = zero_file \<or> (\<exists>s. file = FileData s \<and> parse_config s = Some c0))
      \<and> withDefaults cfg = DefaultConfig\<lparr>
          cfg_Host := first_set (\<lambda>s. s \<noteq> '''') [getenv ''TRADINGVIEW_HOST'', cf_Host c0] (cfg_Host DefaultConfig),
          cfg_AuthToken := first_set (\<lambda>s. s \<noteq> '''') [getenv ''TRADINGVIEW_AUTH_TOKEN'', cf_AuthToken c0]
            (cfg_AuthToken DefaultConfig),
          cfg_PoolSize := first_set (\<lambda>k. 0 < k)
            [case atoi (getenv ''TRADINGVIEW_POOL_SIZE'') of Some n \<Rightarrow> n | None \<Rightarrow> 0, cf_PoolSize c0]
            (cfg_PoolSize DefaultConfig),
          cfg_EnableCache := (case parse_bool (getenv ''TRADINGVIEW_ENABLE_CACHE'') of
             Some b \<Rightarrow> b | None \<Rightarrow> cf_EnableCache c0)\<rparr>)"
proof (cases "loadConfig read_file home jerr getenv")
  case (Inl e)
  then show ?thesis by (auto simp: loadConfig_def Let_def assms [symmetric] split: file_read.splits option.splits)
next
  case (Inr cfg)
  then obtain c0 where c0: "file = NotExist \<and> c0 = zero_file \<or> (\<exists>s. file = FileData s \<and> parse_config s = Some c0)"
    and cfg: "cfg = zero_config\<lparr>cfg_Host := cf_Host (override getenv c0), cfg_AuthToken := cf_AuthToken (override getenv c0),
        cfg_PoolSize := cf_PoolSize (override getenv c0), cfg_EnableCache := cf_EnableCache (override getenv c0)\<rparr>"
    by (auto simp: loadConfig_def Let_def assms [symmetric] split: file_read.splits option.splits)
  show ?thesis
    unfolding Inr sum.case
    by (intro exI [of _ c0] conjI c0)
      (simp only: cfg withDefaults_loaded, simp add: override_fields split: option.split)
qed

theorem config_precedence_witness:
  "\<exists>cfg. loadConfig (\<lambda>p. if p = ''/root/.tradingview-mcp/config.json''
        then FileData (map (\<lambda>c. if c = CHR ''`'' then dquote else c) ''{`host`:`prodata`,`pool_size`:4}'') else NotExist)
      ''/root/'' (\<lambda>_. '''') (\<lambda>v. if v = ''TRADINGVIEW_HOST'' then ''h'' else '''') = Inr cfg
    \<and> cfg_Host (withDefaults cfg) = ''h'' \<and> cfg_PoolSize (withDefaults cfg) = 4"
proof -
  define s where "s = map (\<lambda>c. if c = CHR ''`'' then dquote else c) ''{`host`:`prodata`,`pool_size`:4}''"
  define env where "env = (\<lambda>v. if v = ''TRADINGVIEW_HOST'' then ''h'' else '''')"
  have p: "parse_config s = Some (zero_file\<lparr>cf_Host := ''prodata'', cf_PoolSize := 4\<rparr>)" unfolding s_def by code_simp
  define rd where "rd = (\<lambda>p. if p = ''/root/.tradingview-mcp/config.json'' then FileData s else NotExist)"
  have "defaultConfigPath ''/root/'' = ''/root/.tradingview-mcp/config.json''" by code_simp
  then have f: "FileData s = rd (defaultConfigPath ''/root/'')" by (simp add: rd_def)
  obtain cfg where l: "loadConfig rd ''/root/'' (\<lambda>_. []) env = Inr cfg"
    unfolding loadConfig_def f [symmetric] by (simp add: p Let_def)
  have e: "env ''TRADINGVIEW_HOST'' = ''h''" "env ''TRADINGVIEW_POOL_SIZE'' = ''''" by (simp_all add: env_def)
  have b: "atoi '''' = None" by (simp add: atoi_def)
  have "cfg_Host (withDefaults cfg) = ''h'' \<and> cfg_PoolSize (withDefaults cfg) = 4"
    using config_precedence [of "FileData s" rd "''/root/''" env "\<lambda>_. []", OF f]
    by (auto simp: l p e b)
  with l show ?thesis unfolding s_def env_def rd_def by blast
qed

end
