(* ===== verification/Stream.thy ===== *)
theory Stream
  imports Conn
begin

text \<open>
  \<open>stream.go\<close>: subscriptions that stay connected and hand every candle update to a callback.

  The callback is a function on a state of its own, so that what it has been given, and in
  which order, is a value of the model. The inputs of a subscription are a list of sessions,
  one for each turn of the reconnect loop; the inputs of a session are those of a dial and a
  list of \<open>beat\<close>s, one for each turn of the read loop. A finished list means the goroutine is
  still waiting for its next input.
\<close>

section \<open>One session\<close>

record beat =
  bt_ctx :: "string option"
  bt_now :: int
  bt_read :: "int \<Rightarrow> string + string"

record session =
  ss_ctx :: "string option"
  ss_dial :: "nat \<Rightarrow> attempt"
  ss_chart :: "int \<times> int"
  ss_series :: "int \<times> int"
  ss_write :: writer
  ss_beats :: "beat list"

definition frame_candles :: "string \<Rightarrow> candle list" where
  "frame_candles frame =
     (case unmarshal_map frame of
        None \<Rightarrow> []
      | Some env \<Rightarrow>
          let mtd = (case as_str (lookup_any env ''m'') of Some m \<Rightarrow> m | None \<Rightarrow> []) in
          if mtd \<noteq> ''du'' \<and> mtd \<noteq> ''timescale_update'' then []
          else
            let params = (case as_arr (lookup_any env ''p'') of Some p \<Rightarrow> p | None \<Rightarrow> []) in
            if length params < 2 then []
            else
              let payload = (case as_map (params ! 1) of Some p \<Rightarrow> p | None \<Rightarrow> []) in
              parseCandles payload)"

text \<open>The loop that calls a callback that may be nil.\<close>

definition deliver :: "(candle \<Rightarrow> 's \<Rightarrow> 's) option \<Rightarrow> candle list \<Rightarrow> 's \<Rightarrow> 's" where
  "deliver onCandle cs s = (case onCandle of None \<Rightarrow> s | Some f \<Rightarrow> fold f cs s)"

fun read_frames :: "(candle \<Rightarrow> 's \<Rightarrow> 's) option \<Rightarrow> string list \<Rightarrow> 's \<Rightarrow> 's" where
  "read_frames onCandle [] s = s"
| "read_frames onCandle (f # fs) s = read_frames onCandle fs (deliver onCandle (frame_candles f) s)"

fun stream_loop :: "writer \<Rightarrow> (candle \<Rightarrow> 's \<Rightarrow> 's) option \<Rightarrow> beat list \<Rightarrow> conn \<Rightarrow> 's
    \<Rightarrow> string outcome \<times> conn \<times> 's" where
  "stream_loop w onCandle [] c s = (Waiting, c, s)"
| "stream_loop w onCandle (b # bs) c s =
     (case bt_ctx b of
        Some e \<Rightarrow> (Done e, c, s)
      | None \<Rightarrow>
        (case bt_read b (bt_now b + 60 * second) of
           Inl e \<Rightarrow> (Done e, c, s)
         | Inr raw \<Rightarrow>
           (case heartbeatPong raw of
              Some pong \<Rightarrow>
                (case ws_write w c pong of
                   (Some e, c') \<Rightarrow> (Done e, c', s)
                 | (None, c') \<Rightarrow> stream_loop w onCandle bs c' s)
            | None \<Rightarrow>
                (case decodeFrames raw of
                   None \<Rightarrow> (Panicked, c, s)
                 | Some frames \<Rightarrow> stream_loop w onCandle bs c (read_frames onCandle frames s)))))"

text \<open>
  The three requests that open the series. Every return of \<open>stream\<close> carries an error; the
  deferred close runs on all of them and on a panic.
\<close>

definition open_series :: "config \<Rightarrow> session \<Rightarrow> string \<Rightarrow> string \<Rightarrow> conn \<Rightarrow> string option \<times> conn" where
  "open_series cfg ss symbol resolution c =
     (let chartID = fst (genSessionID ''cs'' (fst (ss_chart ss)) (snd (ss_chart ss)));
          seriesID = fst (genSessionID ''sds'' (fst (ss_series ss)) (snd (ss_series ss))) in
      case send (ss_write ss) c (msg_create chartID) of
        (Some e, c1) \<Rightarrow> (Some e, c1)
      | (None, c1) \<Rightarrow>
          (case send (ss_write ss) c1 (msg_resolve chartID symbol) of
             (Some e, c2) \<Rightarrow> (Some e, c2)
           | (None, c2) \<Rightarrow>
               send (ss_write ss) c2 (msg_series chartID seriesID resolution (cfg_CandleHistory cfg))))"

definition stream_conn :: "config \<Rightarrow> session \<Rightarrow> string \<Rightarrow> string \<Rightarrow> (candle \<Rightarrow> 's \<Rightarrow> 's) option \<Rightarrow> conn \<Rightarrow> 's
    \<Rightarrow> string outcome \<times> conn \<times> 's" where
  "stream_conn cfg ss symbol resolution onCandle c s =
     (case open_series cfg ss symbol resolution c of
        (Some e, c') \<Rightarrow> (Done e, c', s)
      | (None, c') \<Rightarrow> stream_loop (ss_write ss) onCandle (ss_beats ss) c' s)"

definition stream :: "config \<Rightarrow> session \<Rightarrow> string \<Rightarrow> string \<Rightarrow> (candle \<Rightarrow> 's \<Rightarrow> 's) option \<Rightarrow> 's
    \<Rightarrow> string outcome \<times> conn option \<times> 's" where
  "stream cfg ss symbol resolution onCandle s =
     (case fst (dial cfg (ss_dial ss)) of
        (_, Some err) \<Rightarrow> (Done (error_string (Some err)), None, s)
      | (None, None) \<Rightarrow> (Panicked, None, s)
      | (Some c, None) \<Rightarrow>
          (case stream_conn cfg ss symbol resolution onCandle c s of
             (Waiting, c', s') \<Rightarrow> (Waiting, Some c', s')
           | (r, c', s') \<Rightarrow> (r, close (Some c'), s')))"

section \<open>Subscriptions\<close>

text \<open>
  The goroutine of a subscription. After an error it waits three seconds or for the
  cancellation; which of the two shows only in what the next turn finds.
\<close>

fun subscription :: "config \<Rightarrow> string \<Rightarrow> string \<Rightarrow> (candle \<Rightarrow> 's \<Rightarrow> 's) option \<Rightarrow> session list \<Rightarrow> 's
    \<Rightarrow> unit outcome \<times> conn option list \<times> 's" where
  "subscription cfg symbol resolution onCandle [] s = (Waiting, [], s)"
| "subscription cfg symbol resolution onCandle (ss # rest) s =
     (if ss_ctx ss \<noteq> None then (Done (), [], s)
      else case stream cfg ss symbol resolution onCandle s of
          (Waiting, c, s') \<Rightarrow> (Waiting, [c], s')
        | (Panicked, c, s') \<Rightarrow> (Panicked, [c], s')
        | (Done err, c, s') \<Rightarrow>
            (let (r, cs, s'') = subscription cfg symbol resolution onCandle rest s' in (r, c # cs, s'')))"

text \<open>The streamer: its configuration, whether its context is cancelled, and the running goroutines.\<close>

record streamer =
  sr_cfg :: config
  sr_cancelled :: bool
  sr_running :: nat

definition NewStreamer :: "config \<Rightarrow> streamer" where
  "NewStreamer cfg = \<lparr>sr_cfg = withDefaults cfg, sr_cancelled = False, sr_running = 0\<rparr>"

text \<open>\<open>Subscribe\<close>: an error, or the goroutine to start with its symbol and resolution.\<close>

definition Subscribe :: "unicode \<Rightarrow> streamer \<Rightarrow> string \<Rightarrow> string \<Rightarrow> tv_error + (streamer \<times> string \<times> string)" where
  "Subscribe U sr symbol resolution =
     (let sy = NormalizeSymbol U symbol in
      if sy = '''' then Inl (newErr CodeSymbolUnknown ''symbol is empty'' None)
      else case NormalizeResolution U resolution of
          None \<Rightarrow> Inl (newErr CodeInvalidResolution (''unknown resolution: '' @ resolution) None)
        | Some res \<Rightarrow> Inr (sr\<lparr>sr_running := sr_running sr + 1\<rparr>, sy, res))"

text \<open>The deferred \<open>wg.Done\<close>, and \<open>Close\<close>: cancelled, and \<open>None\<close> while \<open>Wait\<close> still waits.\<close>

definition goroutine_done :: "streamer \<Rightarrow> streamer" where
  "goroutine_done sr = sr\<lparr>sr_running := sr_running sr - 1\<rparr>"

definition Close_cancel :: "streamer \<Rightarrow> streamer" where
  "Close_cancel sr = sr\<lparr>sr_cancelled := True\<rparr>"

definition Close_wait :: "streamer \<Rightarrow> streamer option" where
  "Close_wait sr = (if sr_running sr = 0 then Some sr else None)"

section \<open>What the callback has been given\<close>

definition beat_raw :: "beat \<Rightarrow> string + string" where
  "beat_raw b = bt_read b (bt_now b + 60 * second)"

definition live :: "beat \<Rightarrow> bool" where
  "live b \<longleftrightarrow> bt_ctx b = None \<and>
     (\<exists>raw. beat_raw b = Inr raw \<and> (heartbeatPong raw \<noteq> None \<or> decodeFrames raw \<noteq> None))"

definition ends :: "beat \<Rightarrow> bool" where
  "ends b \<longleftrightarrow> bt_ctx b \<noteq> None \<or> (\<exists>e. beat_raw b = Inl e)"

definition beat_candles :: "beat \<Rightarrow> candle list" where
  "beat_candles b = (case beat_raw b of
       Inl _ \<Rightarrow> []
     | Inr raw \<Rightarrow> if heartbeatPong raw \<noteq> None then []
                else concat (map frame_candles (the (decodeFrames raw))))"

lemma deliver_append: "deliver cb (xs @ ys) s = deliver cb ys (deliver cb xs s)"
  by (simp add: deliver_def split: option.split)

lemma deliver_Nil [simp]: "deliver cb [] s = s"
  by (simp add: deliver_def split: option.split)

lemma read_frames_deliver: "read_frames cb fs s = deliver cb (concat (map frame_candles fs)) s"
  by (induction fs arbitrary: s) (simp_all add: deliver_append)

lemma stream_loop_live:
  assumes "\<forall>n. w n = None"
  shows "list_all live bs \<Longrightarrow> \<exists>c'. stream_loop w cb (bs @ rest) c s
     = stream_loop w cb rest c' (deliver cb (concat (map beat_candles bs)) s)"
proof (induction bs arbitrary: c s)
  case (Cons b bs)
  then obtain raw where b: "bt_ctx b = None" "beat_raw b = Inr raw"
    "heartbeatPong raw \<noteq> None \<or> decodeFrames raw \<noteq> None"
    by (auto simp: live_def)
  have "\<exists>c1. stream_loop w cb (b # bs @ rest) c s = stream_loop w cb (bs @ rest) c1 (deliver cb (beat_candles b) s)"
    using b assms by (auto simp: beat_raw_def beat_candles_def ws_write_def read_frames_deliver split: option.splits)
  then show ?case using Cons.IH Cons.prems by (auto simp: deliver_append)
qed auto

lemma stream_loop_stops: "ends b \<Longrightarrow> \<exists>e. stream_loop w cb (b # bs) c s = (Done e, c, s)"
  by (auto simp: ends_def beat_raw_def split: option.split)

lemma open_series_ok: "\<forall>n. ss_write ss n = None \<Longrightarrow> \<exists>c'. open_series cfg ss sy res c = (None, c')"
  by (auto simp: open_series_def send_def ws_write_def Let_def)

text \<open>
  A session that ends by itself: no connection, or the beats \<open>bs\<close> on one and then a lost
  connection or a cancelled context.
\<close>

definition drops_after :: "config \<Rightarrow> session \<Rightarrow> beat list \<Rightarrow> bool" where
  "drops_after cfg ss bs \<longleftrightarrow> ss_ctx ss = None \<and>
     (bs = [] \<and> snd (fst (dial cfg (ss_dial ss))) \<noteq> None
      \<or> (\<exists>c b rest. fst (dial cfg (ss_dial ss)) = (Some c, None) \<and> (\<forall>n. ss_write ss n = None)
           \<and> ss_beats ss = bs @ b # rest \<and> list_all live bs \<and> ends b))"

definition shut :: "conn option \<Rightarrow> bool" where
  "shut c = (case c of None \<Rightarrow> True | Some x \<Rightarrow> cn_closed x)"

lemma stream_drops:
  assumes "drops_after cfg ss bs"
  shows "\<exists>e c. stream cfg ss sy res cb s = (Done e, c, deliver cb (concat (map beat_candles bs)) s) \<and> shut c"
  using assms unfolding drops_after_def
proof (elim conjE disjE exE)
  assume "bs = []" "snd (fst (dial cfg (ss_dial ss))) \<noteq> None"
  then show ?thesis by (auto simp: stream_def shut_def split: prod.split option.split)
next
  fix c b rest
  assume d: "fst (dial cfg (ss_dial ss)) = (Some c, None)" "\<forall>n. ss_write ss n = None"
    "ss_beats ss = bs @ b # rest" "list_all live bs" "ends b"
  obtain c1 where o: "open_series cfg ss sy res c = (None, c1)" using open_series_ok [OF d(2)] by blast
  obtain c2 where l: "stream_loop (ss_write ss) cb (bs @ b # rest) c1 s
      = stream_loop (ss_write ss) cb (b # rest) c2 (deliver cb (concat (map beat_candles bs)) s)"
    using stream_loop_live [OF d(2,4), of cb "b # rest" c1 s] by blast
  obtain e where "stream_loop (ss_write ss) cb (b # rest) c2 (deliver cb (concat (map beat_candles bs)) s)
      = (Done e, c2, deliver cb (concat (map beat_candles bs)) s)"
    using stream_loop_stops [OF d(5), of "ss_write ss" cb rest c2] by blast
  then show ?thesis by (simp add: stream_def d(1,3) stream_conn_def o l close_def shut_def)
qed

section \<open>Properties\<close>


definition one_session :: session where
  "one_session = \<lparr>ss_ctx = None, ss_dial = (\<lambda>_. good_attempt), ss_chart = (7, 0), ss_series = (8, 1),
     ss_write = (\<lambda>_. None),
     ss_beats = [\<lparr>bt_ctx = None, bt_now = 0, bt_read = (\<lambda>_. Inr (frame_of stale_frame))\<rparr>,
       \<lparr>bt_ctx = None, bt_now = 0, bt_read = (\<lambda>_. Inl ''EOF'')\<rparr>]\<rparr>"


section \<open>Subscriptions and \<open>Close\<close>, interleaved\<close>

text \<open>
  The goroutines of a streamer, each at one point of its loop: before the test of the context,
  in a session, in the pause after an error, or ended. A step is one goroutine's, a \<open>Subscribe\<close>, or
  one of the two halves of a \<open>Close\<close>. \<open>hb_calls\<close> logs the callbacks, \<open>hb_returned\<close> says that a
  \<open>Close\<close> has returned.
\<close>

datatype sub_pc = Turning | InSession | Pausing | Ended

record hub =
  hb_sr :: streamer
  hb_subs :: "sub_pc list"
  hb_calls :: "(nat \<times> candle) list"
  hb_returned :: bool

definition set_sub :: "nat \<Rightarrow> sub_pc \<Rightarrow> hub \<Rightarrow> hub" where
  "set_sub i q h = h\<lparr>hb_subs := (hb_subs h)[i := q]\<rparr>"

definition hub_init :: "config \<Rightarrow> hub" where
  "hub_init cfg = \<lparr>hb_sr = NewStreamer cfg, hb_subs = [], hb_calls = [], hb_returned = False\<rparr>"

text \<open>The goroutine's loop: its next point, given whether the context is cancelled.\<close>

definition after_turn :: "bool \<Rightarrow> sub_pc" where
  "after_turn is_off = (if is_off then Ended else InSession)"

definition after_session :: "bool \<Rightarrow> string option \<Rightarrow> sub_pc" where
  "after_session is_off err = (if err \<noteq> None \<and> \<not> is_off then Pausing else Turning)"

text \<open>The steps of the goroutines alone, without their callbacks.\<close>

inductive sub_step :: "hub \<Rightarrow> hub \<Rightarrow> bool" where
  go: "i < length (hb_subs h) \<Longrightarrow> hb_subs h ! i = Turning \<Longrightarrow> \<not> sr_cancelled (hb_sr h) \<Longrightarrow>
     sub_step h (set_sub i (after_turn False) h)"
| stop: "i < length (hb_subs h) \<Longrightarrow> hb_subs h ! i = Turning \<Longrightarrow> sr_cancelled (hb_sr h) \<Longrightarrow>
     sub_step h (set_sub i (after_turn True) (h\<lparr>hb_sr := goroutine_done (hb_sr h)\<rparr>))"
| leave: "i < length (hb_subs h) \<Longrightarrow> hb_subs h ! i = InSession \<Longrightarrow>
     sub_step h (set_sub i (after_session (sr_cancelled (hb_sr h)) err) h)"
| resume: "i < length (hb_subs h) \<Longrightarrow> hb_subs h ! i = Pausing \<Longrightarrow> sub_step h (set_sub i Turning h)"

inductive hub_step :: "unicode \<Rightarrow> hub \<Rightarrow> hub \<Rightarrow> bool" for U :: unicode where
  sub: "sub_step h h' \<Longrightarrow> hub_step U h h'"
| call: "i < length (hb_subs h) \<Longrightarrow> hb_subs h ! i = InSession \<Longrightarrow>
     hub_step U h (h\<lparr>hb_calls := hb_calls h @ [(i, c)]\<rparr>)"
| subscribe: "Subscribe U (hb_sr h) symbol resolution = Inr (sr, sy, res) \<Longrightarrow>
     hub_step U h (h\<lparr>hb_sr := sr, hb_subs := hb_subs h @ [Turning]\<rparr>)"
| cancel: "hub_step U h (h\<lparr>hb_sr := Close_cancel (hb_sr h)\<rparr>)"
| returns: "sr_cancelled (hb_sr h) \<Longrightarrow> Close_wait (hb_sr h) = Some sr \<Longrightarrow>
     hub_step U h (h\<lparr>hb_sr := sr, hb_returned := True\<rparr>)"

inductive hub_reachable :: "unicode \<Rightarrow> hub \<Rightarrow> bool" for U :: unicode where
  init: "hub_reachable U (hub_init cfg)"
| step: "hub_reachable U h \<Longrightarrow> hub_step U h h' \<Longrightarrow> hub_reachable U h'"

definition live_subs :: "hub \<Rightarrow> nat" where
  "live_subs h = length (filter (\<lambda>q. q \<noteq> Ended) (hb_subs h))"

definition hub_inv :: "hub \<Rightarrow> bool" where
  "hub_inv h \<longleftrightarrow> sr_running (hb_sr h) = live_subs h
     \<and> (hb_returned h \<longrightarrow> sr_cancelled (hb_sr h) \<and> set (hb_subs h) \<subseteq> {Turning, Ended})"

text \<open>How many more steps a goroutine makes once the context is cancelled.\<close>

definition steps_left :: "sub_pc \<Rightarrow> nat" where
  "steps_left q = (case q of Ended \<Rightarrow> 0 | Turning \<Rightarrow> 1 | InSession \<Rightarrow> 2 | Pausing \<Rightarrow> 2)"

definition hub_left :: "hub \<Rightarrow> nat" where
  "hub_left h = sum_list (map steps_left (hb_subs h))"

lemma sum_upd:
  fixes f :: "'a \<Rightarrow> nat"
  assumes "i < length xs"
  shows "sum_list (map f (xs[i := q])) + f (xs ! i) = sum_list (map f xs) + f q"
  using assms
proof (induction xs arbitrary: i)
  case (Cons x xs)
  then show ?case
  proof (cases i)
    case (Suc n)
    then show ?thesis using Cons.IH [of n] Cons.prems by simp
  qed simp
qed simp

lemma filter_sum: "length (filter P xs) = sum_list (map (\<lambda>q. if P q then 1 else 0) xs)"
  by (induction xs) auto

lemma live_set_sub:
  assumes "i < length (hb_subs h)" and "hb_subs h ! i \<noteq> Ended"
  shows "Suc (live_subs (set_sub i q h)) = live_subs h + (if q = Ended then 0 else 1)"
  using sum_upd [OF assms(1), of "\<lambda>q. if q \<noteq> Ended then 1 else 0" q] assms(2)
  by (simp add: live_subs_def set_sub_def filter_sum)

lemma hub_fields [simp]:
  "hb_sr (set_sub i q h) = hb_sr h" "hb_returned (set_sub i q h) = hb_returned h"
  "hb_calls (set_sub i q h) = hb_calls h" "hb_subs (set_sub i q h) = (hb_subs h)[i := q]"
  "live_subs (set_sub i q (h\<lparr>hb_sr := sr\<rparr>)) = live_subs (set_sub i q h)"
  by (simp_all add: set_sub_def live_subs_def)

lemma sub_step_inv: "sub_step h h' \<Longrightarrow> hub_inv h \<Longrightarrow> hub_inv h'"
proof (induction rule: sub_step.induct)
  case (go i h)
  then show ?case using live_set_sub [of i h InSession] nth_mem [of i "hb_subs h"]
    by (auto simp: hub_inv_def after_turn_def)
next
  case (stop i h)
  then show ?case using live_set_sub [of i h Ended] set_update_subset_insert [of "hb_subs h" i Ended]
    by (auto simp: hub_inv_def after_turn_def goroutine_done_def)
next
  case (leave i h err)
  then show ?case
    using live_set_sub [of i h "after_session (sr_cancelled (hb_sr h)) err"] nth_mem [of i "hb_subs h"]
    by (auto simp: hub_inv_def after_session_def)
next
  case (resume i h)
  then show ?case using live_set_sub [of i h Turning] nth_mem [of i "hb_subs h"] by (auto simp: hub_inv_def)
qed

lemma hub_step_inv: "hub_step U h h' \<Longrightarrow> hub_inv h \<Longrightarrow> hub_inv h'"
proof (induction rule: hub_step.induct)
  case (sub h h')
  then show ?case using sub_step_inv by blast
next
  case (subscribe h symbol resolution sr sy res)
  then show ?case by (auto simp: hub_inv_def live_subs_def Subscribe_def Let_def split: if_splits option.splits)
next
  case (returns h sr)
  then have "live_subs h = 0" "sr = hb_sr h" by (auto simp: hub_inv_def Close_wait_def split: if_splits)
  then show ?case using returns by (auto simp: hub_inv_def live_subs_def filter_empty_conv)
qed (auto simp: hub_inv_def live_subs_def Close_cancel_def)

lemma hub_reachable_inv: "hub_reachable U h \<Longrightarrow> hub_inv h"
proof (induction rule: hub_reachable.induct)
  case (init cfg)
  then show ?case by (simp add: hub_init_def hub_inv_def NewStreamer_def live_subs_def)
next
  case (step h h')
  then show ?case using hub_step_inv by blast
qed

lemma sub_step_left: "sub_step h h' \<Longrightarrow> sr_cancelled (hb_sr h) \<Longrightarrow> Suc (hub_left h') = hub_left h \<and> sr_cancelled (hb_sr h')"
proof (induction rule: sub_step.induct)
  case (stop i h)
  then show ?case using sum_upd [of i "hb_subs h" steps_left Ended]
    by (simp add: hub_left_def steps_left_def after_turn_def set_sub_def goroutine_done_def)
next
  case (leave i h err)
  then show ?case using sum_upd [of i "hb_subs h" steps_left Turning]
    by (simp add: hub_left_def steps_left_def after_session_def)
next
  case (resume i h)
  then show ?case using sum_upd [of i "hb_subs h" steps_left Turning] by (simp add: hub_left_def steps_left_def)
qed simp

lemma sub_step_enabled:
  assumes "sr_cancelled (hb_sr h)" and "live_subs h \<noteq> 0"
  shows "\<exists>h'. sub_step h h'"
proof -
  from assms(2) obtain i where i: "i < length (hb_subs h)" "hb_subs h ! i \<noteq> Ended"
    by (auto simp: live_subs_def filter_empty_conv in_set_conv_nth)
  then consider "hb_subs h ! i = Turning" | "hb_subs h ! i = InSession" | "hb_subs h ! i = Pausing"
    by (cases "hb_subs h ! i") auto
  then show ?thesis
    by cases (use i assms(1) sub_step.intros in blast)+
qed

lemma sub_steps_left:
  "(sub_step ^^ n) h h' \<Longrightarrow> sr_cancelled (hb_sr h) \<Longrightarrow> n + hub_left h' = hub_left h \<and> sr_cancelled (hb_sr h')"
proof (induction n arbitrary: h')
  case (Suc n)
  then obtain h1 where "(sub_step ^^ n) h h1" "sub_step h1 h'" by auto
  then show ?case using Suc.IH [of h1] Suc.prems sub_step_left [of h1 h'] by simp
qed simp

lemma hub_left_bound: "hub_left h \<le> 2 * live_subs h"
proof -
  have "sum_list (map steps_left xs) \<le> 2 * length (filter (\<lambda>q. q \<noteq> Ended) xs)" for xs
    by (induction xs) (auto simp: steps_left_def split: sub_pc.split)
  then show ?thesis by (simp add: hub_left_def live_subs_def)
qed

lemma sub_steps_finish:
  "hub_inv h \<Longrightarrow> sr_cancelled (hb_sr h) \<Longrightarrow> \<exists>h'. sub_step\<^sup>*\<^sup>* h h' \<and> Close_wait (hb_sr h') \<noteq> None"
proof (induction "hub_left h" arbitrary: h rule: less_induct)
  case less
  show ?case
  proof (cases "live_subs h = 0")
    case True
    then show ?thesis using less.prems by (intro exI [of _ h]) (simp add: hub_inv_def Close_wait_def)
  next
    case False
    then obtain h1 where h1: "sub_step h h1" using sub_step_enabled less.prems(2) by blast
    note l = sub_step_left [OF h1 less.prems(2)]
    have "hub_left h1 < hub_left h" "hub_inv h1" "sr_cancelled (hb_sr h1)"
      using l sub_step_inv [OF h1 less.prems(1)] by linarith+
    from less.hyps [OF this] h1 show ?thesis by (meson converse_rtranclp_into_rtranclp)
  qed
qed

lemma sub_step_same: "sub_step h h' \<Longrightarrow> hb_calls h' = hb_calls h \<and> hb_returned h' = hb_returned h"
  by (induction rule: sub_step.induct) simp_all

lemma hub_step_returned: "hub_step U h h' \<Longrightarrow> hb_returned h \<Longrightarrow> hb_returned h'"
  by (induction rule: hub_step.induct) (auto dest: sub_step_same)

lemma hub_step_calls: "hub_step U h h' \<Longrightarrow> InSession \<notin> set (hb_subs h) \<Longrightarrow> hb_calls h' = hb_calls h"
proof (induction rule: hub_step.induct)
  case (call i h c)
  then show ?case using nth_mem [of i "hb_subs h"] by simp
qed (auto dest: sub_step_same)

text \<open>
  C10. After \<open>Close\<close> has returned, a streamer is silent: no callback is ever called again, whatever
  else happens, later calls of \<open>Subscribe\<close> included, and no goroutine is or comes into a session.
\<close>
theorem close_silences:
  assumes "hub_reachable U h" and "hb_returned h" and "(hub_step U)\<^sup>*\<^sup>* h h'"
  shows "hb_calls h' = hb_calls h \<and> hb_returned h' \<and> InSession \<notin> set (hb_subs h')"
  using assms(3)
proof (induction rule: rtranclp_induct)
  case base
  then show ?case using hub_reachable_inv [OF assms(1)] assms(2) by (auto simp: hub_inv_def)
next
  case (step h1 h2)
  have "hub_reachable U h1"
    using step.hyps(1) by (induction rule: rtranclp_induct) (auto intro: assms(1) hub_reachable.step)
  then have inv: "hub_inv h2" using hub_reachable_inv hub_reachable.step step.hyps(2) by blast
  have ret: "hb_returned h2" using hub_step_returned step by blast
  have "hb_calls h2 = hb_calls h1" using hub_step_calls [OF step.hyps(2)] step.IH by blast
  then show ?case using step.IH ret inv by (auto simp: hub_inv_def)
qed


definition closing_hub :: hub where
  "closing_hub = \<lparr>hb_sr = Close_cancel ((NewStreamer DefaultConfig)\<lparr>sr_running := 1\<rparr>), hb_subs = [Turning],
     hb_calls = [], hb_returned = False\<rparr>"

lemma closing_hub_reachable: "hub_reachable no_tables closing_hub"
proof -
  have "NormalizeSymbol no_tables ''btc'' = ''BTC''" "NormalizeResolution no_tables ''5m'' = Some ''5''" by code_simp+
  then have "Subscribe no_tables (NewStreamer DefaultConfig) ''btc'' ''5m''
      = Inr ((NewStreamer DefaultConfig)\<lparr>sr_running := 1\<rparr>, ''BTC'', ''5'')"
    by (simp add: Subscribe_def NewStreamer_def)
  then have "hub_step no_tables (hub_init DefaultConfig)
      ((hub_init DefaultConfig)\<lparr>hb_sr := (NewStreamer DefaultConfig)\<lparr>sr_running := 1\<rparr>, hb_subs := [] @ [Turning]\<rparr>)"
    using hub_step.subscribe [of no_tables "hub_init DefaultConfig" "''btc''" "''5m''"] by (simp add: hub_init_def)
  from hub_reachable.step [OF hub_reachable.step [OF hub_reachable.init this] hub_step.cancel]
  show ?thesis by (simp add: closing_hub_def hub_init_def)
qed

theorem close_silences_witness:
  "\<exists>h. hub_reachable no_tables h \<and> hb_returned h \<and> InSession \<notin> set (hb_subs h)"
proof -
  let ?h1 = "set_sub 0 Ended (closing_hub\<lparr>hb_sr := goroutine_done (hb_sr closing_hub)\<rparr>)"
  let ?h2 = "?h1\<lparr>hb_sr := hb_sr ?h1, hb_returned := True\<rparr>"
  have "sub_step closing_hub ?h1"
    using sub_step.stop [of 0 closing_hub] by (simp add: closing_hub_def Close_cancel_def after_turn_def)
  then have "hub_reachable no_tables ?h1" using hub_reachable.step closing_hub_reachable hub_step.sub by blast
  moreover have "hub_step no_tables ?h1 ?h2"
    by (rule hub_step.returns) (simp_all add: closing_hub_def Close_cancel_def goroutine_done_def Close_wait_def)
  ultimately have r: "hub_reachable no_tables ?h2" by (rule hub_reachable.step)
  have "hb_returned ?h2" by simp
  from close_silences [OF r this rtranclp.rtrancl_refl] r show ?thesis by blast
qed


end
