(* ===== verification/Concurrent.thy ===== *)
theory Concurrent
  imports Client
begin

text \<open>
  Many goroutines on one client. \<open>Client\<close> runs a call against the state it finds; here the
  calls of all goroutines interleave at every point where they touch shared state: the
  closed flag, the cache under its mutex, the semaphore, the pool under its mutex, the end of
  a series fetch. A \<open>world\<close> is the pool system of \<open>Pool\<close>, the connections by identity, the cache,
  the closed flag, and how far the call of each goroutine has come.

  \<^item> Every step of the client is a step of the pool or leaves it alone, so the invariants of
    \<open>Pool\<close> hold for the client (\<open>world_reachable\<close>).
  \<^item> \<open>world_inv\<close>: the cache and every answer are sound in every interleaving, and connections
    in the pool or in use are open.
  \<^item> A sequential \<open>Fetch\<close> of \<open>Client\<close> is a run of one goroutine (\<open>Fetch_runs\<close>).
\<close>

section \<open>The world\<close>

text \<open>
  \<open>Checked\<close>: the arguments are accepted. \<open>Fetching\<close>: in \<open>fetchOnce\<close>, up to the result of
  \<open>acquire\<close> and \<open>fetchSeries\<close>; the program counter of the pool says where. \<open>Fetched\<close>: the result of
  \<open>fetchOnce\<close> is known, the slot is being given back.
\<close>

datatype call =
  Resting
| Checked string string int
| Fetching string string int
| Fetched string string int "tv_error + candle list"
| Returned "tv_error + chart_data"

record world =
  wd_sys :: sys
  wd_store :: "nat \<Rightarrow> conn"
  wd_cache :: "lru_cache option"
  wd_closed :: bool
  wd_call :: "nat \<Rightarrow> call"
  wd_args :: "nat \<Rightarrow> string \<times> string \<times> int"

definition set_call :: "nat \<Rightarrow> call \<Rightarrow> world \<Rightarrow> world" where
  "set_call t q w = w\<lparr>wd_call := (wd_call w)(t := q)\<rparr>"

definition set_conn :: "nat \<Rightarrow> conn \<Rightarrow> world \<Rightarrow> world" where
  "set_conn c x w = w\<lparr>wd_store := (wd_store w)(c := x)\<rparr>"

text \<open>A world seen as the client of \<open>Client\<close>: connections by value.\<close>

definition map_pool :: "('a \<Rightarrow> 'b) \<Rightarrow> 'a pool \<Rightarrow> 'b pool" where
  "map_pool f p = \<lparr>pl_free = map (\<lambda>(c, since). (f c, since)) (pl_free p), pl_closed = pl_closed p\<rparr>"

definition client_of :: "config \<Rightarrow> world \<Rightarrow> client" where
  "client_of cfg w = \<lparr>cl_cfg = cfg, cl_pool = map_pool (wd_store w) (sy_pool (wd_sys w)),
     cl_cache = wd_cache w, cl_httpTimeout = cfg_SearchTimeout cfg + 5 * second, cl_closed = wd_closed w\<rparr>"

definition world_init :: "config \<Rightarrow> world" where
  "world_init cfg = \<lparr>wd_sys = sys_init, wd_store = (\<lambda>_. fresh_conn), wd_cache = cl_cache (New cfg),
     wd_closed = False, wd_call = (\<lambda>_. Resting), wd_args = (\<lambda>_. ('''', '''', 0))\<rparr>"

text \<open>\<open>Fetch\<close> up to the first look at the cache: an error, or the normalised request.\<close>

definition fetch_start :: "unicode \<Rightarrow> bool \<Rightarrow> string \<Rightarrow> string \<Rightarrow> int \<Rightarrow> tv_error + (string \<times> string \<times> int)" where
  "fetch_start U isclosed symbol resolution bars0 =
     (if isclosed then Inl (newErr CodeClosed ''client closed'' None)
      else
        let sy = NormalizeSymbol U symbol in
        if sy = '''' then Inl (newErr CodeSymbolUnknown ''symbol is empty'' None)
        else (case NormalizeResolution U resolution of
            None \<Rightarrow> Inl (newErr CodeInvalidResolution (''unknown resolution: '' @ resolution) None)
          | Some res \<Rightarrow>
              let bars = (if bars0 \<le> 0 then defaultBars else bars0) in
              if maxBars < bars
              then Inl (newErr CodeInvalidBars ''bars exceeds max (5000)'' None)
              else Inr (sy, res, bars)))"

definition started :: "tv_error + (string \<times> string \<times> int) \<Rightarrow> call" where
  "started r = (case r of Inl e \<Rightarrow> Returned (Inl e) | Inr (sy, res, n) \<Rightarrow> Checked sy res n)"

text \<open>\<open>Fetch\<close> after the look at the cache.\<close>

definition looked :: "string \<Rightarrow> string \<Rightarrow> int \<Rightarrow> chart_data option \<Rightarrow> call" where
  "looked sy res n hit = (case hit of Some d \<Rightarrow> Returned (Inr d) | None \<Rightarrow> Fetching sy res n)"

text \<open>\<open>acquire\<close> once it has a slot: the pool is closed, or the call goes on.\<close>

definition taken_call :: "string \<Rightarrow> string \<Rightarrow> int \<Rightarrow> nat taken \<Rightarrow> call" where
  "taken_call sy res n r = (case r of
       PoolClosed \<Rightarrow> Fetched sy res n (Inl (newErr CodeClosed ''pool closed'' None))
     | _ \<Rightarrow> Fetching sy res n)"

definition healthy :: "tv_error + candle list \<Rightarrow> bool" where
  "healthy r = (case r of Inl _ \<Rightarrow> False | Inr _ \<Rightarrow> True)"

definition chart_of :: "string \<Rightarrow> string \<Rightarrow> candle list \<Rightarrow> int \<Rightarrow> int \<Rightarrow> chart_data" where
  "chart_of sy res candles fetched since = \<lparr>cd_Symbol = sy, cd_Resolution = res, cd_Candles = candles,
     cd_FetchedAt = fetched, cd_Cached = False, cd_LatencyMs = to_milliseconds since\<rparr>"

abbreviation pc_of :: "world \<Rightarrow> nat \<Rightarrow> nat pc" where
  "pc_of w t \<equiv> sy_pc (wd_sys w) t"

definition at_rest :: "call \<Rightarrow> bool" where
  "at_rest q = (case q of Resting \<Rightarrow> True | Returned _ \<Rightarrow> True | _ \<Rightarrow> False)"

definition close_stored :: "nat \<Rightarrow> world \<Rightarrow> world" where
  "close_stored c w = set_conn c (the (close (Some (wd_store w c)))) w"

text \<open>
  The steps. Clock readings, the context and what the network answers are free in every
  step. \<open>fetchSeries\<close> is one step, at its end: until then the connection is the goroutine's own.
\<close>

inductive client_step :: "unicode \<Rightarrow> config \<Rightarrow> world \<Rightarrow> world \<Rightarrow> bool" for U :: unicode and cfg :: config where
  call: "at_rest (wd_call w t) \<Longrightarrow>
     client_step U cfg w (set_call t (started (fetch_start U (wd_closed w) symbol resolution bars))
       (w\<lparr>wd_args := (wd_args w)(t := (symbol, resolution, bars))\<rparr>))"
| lookup: "wd_call w t = Checked sy res n \<Longrightarrow>
     cache_lookup (client_of cfg w) (makeCacheKey sy res n) now = (hit, cl') \<Longrightarrow>
     client_step U cfg w (set_call t (looked sy res n hit) (w\<lparr>wd_cache := cl_cache cl'\<rparr>))"
| cancelled: "wd_call w t = Fetching sy res n \<Longrightarrow> pc_of w t = Idle \<Longrightarrow>
     client_step U cfg w (set_call t (Fetched sy res n
       (Inl (newErr CodeUpstreamTimeout ''pool acquire canceled'' (Some e)))) w)"
| slot: "wd_call w t = Fetching sy res n \<Longrightarrow> pc_of w t = Idle \<Longrightarrow>
     int (sy_held (wd_sys w)) < cfg_PoolSize cfg \<Longrightarrow>
     client_step U cfg w (w\<lparr>wd_sys := set_pc t HasSlot ((wd_sys w)\<lparr>sy_held := Suc (sy_held (wd_sys w))\<rparr>)\<rparr>)"
| take: "wd_call w t = Fetching sy res n \<Longrightarrow> pc_of w t = HasSlot \<Longrightarrow>
     pool_take (sy_pool (wd_sys w)) = (r, p) \<Longrightarrow>
     client_step U cfg w (set_call t (taken_call sy res n r)
       (w\<lparr>wd_sys := set_pc t (after_take r) ((wd_sys w)\<lparr>sy_pool := p\<rparr>)\<rparr>))"
| dial_ok: "wd_call w t = Fetching sy res n \<Longrightarrow> pc_of w t = Dialing \<Longrightarrow>
     fst (dial cfg as) = (Some x, None) \<Longrightarrow>
     client_step U cfg w (set_conn (sy_next (wd_sys w)) x (w\<lparr>wd_sys := set_pc t (Using (sy_next (wd_sys w)))
       ((wd_sys w)\<lparr>sy_open := insert (sy_next (wd_sys w)) (sy_open (wd_sys w)),
          sy_next := Suc (sy_next (wd_sys w))\<rparr>)\<rparr>))"
| dial_fails: "wd_call w t = Fetching sy res n \<Longrightarrow> pc_of w t = Dialing \<Longrightarrow>
     fst (dial cfg as) = (None, Some e) \<Longrightarrow>
     client_step U cfg w (set_call t (Fetched sy res n (Inl e)) (w\<lparr>wd_sys := set_pc t Leaving (wd_sys w)\<rparr>))"
| fetch: "wd_call w t = Fetching sy res n \<Longrightarrow> pc_of w t = Using c \<Longrightarrow>
     fetchSeries cfg io sy res n (wd_store w c) = (Done r, x) \<Longrightarrow>
     client_step U cfg w (set_call t (Fetched sy res n r) (set_conn c x w))"
| give: "wd_call w t = Fetched sy res n r \<Longrightarrow> pc_of w t = Using c \<Longrightarrow>
     pool_give (sy_pool (wd_sys w)) (Some c) (healthy r) now = (closing, p) \<Longrightarrow>
     client_step U cfg w (w\<lparr>wd_sys := set_pc t (after_give closing) ((wd_sys w)\<lparr>sy_pool := p\<rparr>)\<rparr>)"
| close_used: "pc_of w t = Closing c \<Longrightarrow>
     client_step U cfg w ((close_stored c w)\<lparr>wd_sys := set_pc t Leaving (close_conn c (wd_sys w))\<rparr>)"
| release: "pc_of w t = Leaving \<Longrightarrow>
     client_step U cfg w (w\<lparr>wd_sys := set_pc t Idle ((wd_sys w)\<lparr>sy_held := sy_held (wd_sys w) - 1\<rparr>)\<rparr>)"
| fail: "wd_call w t = Fetched sy res n (Inl e) \<Longrightarrow> pc_of w t = Idle \<Longrightarrow>
     client_step U cfg w (set_call t (Returned (Inl e)) w)"
| answer: "wd_call w t = Fetched sy res n (Inr candles) \<Longrightarrow> pc_of w t = Idle \<Longrightarrow>
     client_step U cfg w (set_call t (Returned (Inr (chart_of sy res candles fetched since)))
       (w\<lparr>wd_cache := cl_cache (cache_store (client_of cfg w) (makeCacheKey sy res n) res
            (chart_of sy res candles fetched since) now)\<rparr>))"
| mark_closed: "client_step U cfg w (w\<lparr>wd_closed := True\<rparr>)"
| shut: "wd_closed w \<Longrightarrow> pool_shut (sy_pool (wd_sys w)) = (dropped, stopping, p) \<Longrightarrow>
     client_step U cfg w (w\<lparr>wd_sys := (wd_sys w)\<lparr>sy_pool := p, sy_drain := sy_drain (wd_sys w) @ dropped,
       sy_stops := sy_stops (wd_sys w) + (if stopping then 1 else 0)\<rparr>\<rparr>)"
| reap: "pool_reap (cfg_IdleConnTimeout cfg) (sy_pool (wd_sys w)) now = (dropped, p) \<Longrightarrow>
     client_step U cfg w (w\<lparr>wd_sys := (wd_sys w)\<lparr>sy_pool := p, sy_drain := sy_drain (wd_sys w) @ dropped\<rparr>\<rparr>)"
| drain: "sy_drain (wd_sys w) = c # cs \<Longrightarrow>
     client_step U cfg w ((close_stored c w)\<lparr>wd_sys := close_conn c ((wd_sys w)\<lparr>sy_drain := cs\<rparr>)\<rparr>)"

inductive client_reachable :: "unicode \<Rightarrow> config \<Rightarrow> world \<Rightarrow> bool" for U :: unicode and cfg :: config where
  init: "cfg = withDefaults cfg0 \<Longrightarrow> client_reachable U cfg (world_init cfg0)"
| step: "client_reachable U cfg w \<Longrightarrow> client_step U cfg w w' \<Longrightarrow> client_reachable U cfg w'"

inductive_cases client_stepE: "client_step U cfg w w'"

declare set_call_def [go_defs] set_conn_def [go_defs] close_stored_def [go_defs] close_def [go_defs]

section \<open>The pool\<close>

lemma world_fields [simp]:
  "wd_sys (set_call t q w) = wd_sys w" "wd_sys (set_conn c x w) = wd_sys w" "wd_sys (close_stored c w) = wd_sys w"
  "wd_store (set_call t q w) = wd_store w" "wd_store (set_conn c x w) = (wd_store w)(c := x)"
  "wd_store (close_stored c w) = (wd_store w)(c := (wd_store w c)\<lparr>cn_closed := True\<rparr>)"
  "wd_cache (set_call t q w) = wd_cache w" "wd_cache (set_conn c x w) = wd_cache w"
  "wd_cache (close_stored c w) = wd_cache w" "wd_closed (set_call t q w) = wd_closed w"
  "wd_closed (set_conn c x w) = wd_closed w" "wd_closed (close_stored c w) = wd_closed w"
  "wd_call (set_call t q w) = (wd_call w)(t := q)" "wd_call (set_conn c x w) = wd_call w"
  "wd_call (close_stored c w) = wd_call w" "wd_args (set_call t q w) = wd_args w"
  "wd_args (set_conn c x w) = wd_args w" "wd_args (close_stored c w) = wd_args w"
  by (simp_all add: go_defs)

lemma client_step_pool:
  "client_step U cfg w w' \<Longrightarrow> wd_sys w' = wd_sys w \<or> pool_step cfg (wd_sys w) (wd_sys w')"
proof (induction rule: client_step.induct)
  case (slot w t sy res n)
  then show ?case using pool_step.acquire [of "wd_sys w" t cfg] by simp
next
  case (release w t)
  then show ?case using pool_step.release [of "wd_sys w" t cfg] by simp
next
  case (shut w dropped stopping p)
  then show ?case using pool_step.shut [of "wd_sys w" dropped stopping p cfg] by simp
qed (auto intro: pool_step.intros)

lemma client_reachable_pool: "client_reachable U cfg w \<Longrightarrow> reachable cfg (wd_sys w)"
proof (induction rule: client_reachable.induct)
  case (init cfg0)
  then show ?case by (simp add: world_init_def reachable.init)
next
  case (step w w')
  then show ?case using client_step_pool [OF step.hyps(2)] reachable.step by metis
qed

section \<open>What a call knows\<close>

lemma fetch_start_request:
  "fetch_start U isclosed symbol resolution bars = Inr (sy, res, n) \<longleftrightarrow>
     \<not> isclosed \<and> request U symbol resolution bars = Some (sy, res, n)"
  "fetch_start U isclosed symbol resolution bars = Inl e \<Longrightarrow> e_Code e \<in> client_codes"
  by (auto simp: fetch_start_def request_def Let_def defaultBars_def maxBars_def client_codes_def network_codes_def
      split: option.splits if_splits)

definition answers :: "unicode \<Rightarrow> string \<times> string \<times> int \<Rightarrow> tv_error + chart_data \<Rightarrow> bool" where
  "answers U args r = (case args of (symbol, resolution, bars) \<Rightarrow>
     (case r of
        Inl e \<Rightarrow> e_Code e \<in> client_codes
      | Inr d \<Rightarrow> \<exists>n. request U symbol resolution bars = Some (cd_Symbol d, cd_Resolution d, n) \<and> cd_Candles d \<noteq> []))"

text \<open>The state of a call fits its arguments and the goroutine's place in the pool.\<close>

definition call_ok :: "unicode \<Rightarrow> string \<times> string \<times> int \<Rightarrow> nat pc \<Rightarrow> call \<Rightarrow> bool" where
  "call_ok U args pc q = (case args of (symbol, resolution, bars) \<Rightarrow>
     (case q of
        Resting \<Rightarrow> pc = Idle
      | Checked sy res n \<Rightarrow> pc = Idle \<and> request U symbol resolution bars = Some (sy, res, n)
      | Fetching sy res n \<Rightarrow> request U symbol resolution bars = Some (sy, res, n)
          \<and> (pc \<in> {Idle, HasSlot, Dialing} \<or> (\<exists>c. pc = Using c))
      | Fetched sy res n r \<Rightarrow> request U symbol resolution bars = Some (sy, res, n)
          \<and> (case r of Inl e \<Rightarrow> e_Code e \<in> network_codes | Inr candles \<Rightarrow> candles \<noteq> [])
          \<and> pc \<notin> {HasSlot, Dialing}
      | Returned r \<Rightarrow> pc = Idle \<and> answers U args r))"

definition store_ok :: "world \<Rightarrow> bool" where
  "store_ok w \<longleftrightarrow> (\<forall>c \<in> sy_open (wd_sys w). \<not> cn_closed (wd_store w c))
     \<and> (\<forall>c \<in> set (sy_shut (wd_sys w)). cn_closed (wd_store w c))"

definition world_inv :: "unicode \<Rightarrow> config \<Rightarrow> world \<Rightarrow> bool" where
  "world_inv U cfg w \<longleftrightarrow> client_inv (client_of cfg w) \<and> store_ok w
     \<and> (\<forall>t. call_ok U (wd_args w t) (pc_of w t) (wd_call w t))"

lemma request_res: "request U symbol resolution bars = Some (sy, res, n) \<Longrightarrow> res \<in> set wire_forms"
  using normalize_range by (auto simp: request_def split: if_splits)

lemma client_of_fields [simp]:
  "cl_cfg (client_of cfg w) = cfg" "cl_cache (client_of cfg w) = wd_cache w" "cl_closed (client_of cfg w) = wd_closed w"
  "cl_pool (client_of cfg w) = map_pool (wd_store w) (sy_pool (wd_sys w))"
  by (simp_all add: client_of_def)

lemma client_inv_of:
  "client_inv (client_of cfg w) \<longleftrightarrow> config_ok cfg \<and> (\<forall>c. wd_cache w = Some c \<longrightarrow> cache_inv c
     \<and> lc_max c = cfg_CacheSize cfg \<and> (\<forall>k d x. cache_view c k = Some (d, x) \<longrightarrow> keyed k d))"
  by (simp add: client_inv_def)

lemma client_inv_cache: "client_inv cl \<Longrightarrow> cl_cfg cl = cfg \<Longrightarrow> wd_cache w = cl_cache cl \<Longrightarrow> client_inv (client_of cfg w)"
  unfolding client_inv_def by simp

lemma client_inv_same: "wd_cache w' = wd_cache w \<Longrightarrow> client_inv (client_of cfg w) \<Longrightarrow> client_inv (client_of cfg w')"
  by (simp add: client_inv_of)

lemma store_cfg [simp]: "cl_cfg (cache_store cl key res d now) = cl_cfg cl"
  by (simp add: cache_store_def split: option.split)

lemma client_step_cache:
  assumes "client_step U cfg w w'" and "world_inv U cfg w"
  shows "client_inv (client_of cfg w')"
  using assms
proof (induction rule: client_step.induct)
  case (lookup w t sy res n now hit cl')
  have "client_inv (client_of cfg w)" using lookup.prems by (simp add: world_inv_def)
  from cache_lookup_inv(1,3) [OF this, of "makeCacheKey sy res n" now] lookup.hyps(2)
  show ?case by (intro client_inv_cache [of cl']) simp_all
next
  case (answer w t sy res n candles fetched since now)
  have i: "client_inv (client_of cfg w)" using answer.prems by (simp add: world_inv_def)
  have "call_ok U (wd_args w t) (pc_of w t) (Fetched sy res n (Inr candles))"
    using answer by (metis world_inv_def)
  then have "keyed (makeCacheKey sy res n) (chart_of sy res candles fetched since)"
    using request_res by (auto simp: call_ok_def keyed_def chart_of_def split: prod.splits)
  from cache_store_inv [OF i this]
  show ?case by (rule client_inv_cache) simp_all
qed (auto simp: world_inv_def client_inv_of)

lemma dial_conn:
  "fst (dial cfg as) = (Some x, e) \<Longrightarrow> x = fresh_conn\<lparr>cn_sent :=
     [encodeFrame \<lparr>tm_Method = ''set_auth_token'', tm_Params = [PStr (cfg_AuthToken cfg)]\<rparr>]\<rparr>"
proof -
  have once: "y = fresh_conn\<lparr>cn_sent := [encodeFrame \<lparr>tm_Method = ''set_auth_token'', tm_Params = [PStr (cfg_AuthToken cfg)]\<rparr>]\<rparr>"
    if "fst (fst (dialOnce cfg a)) = Some y" for a y
    using that by (auto simp: dialOnce_def authenticate_def send_def ws_write_def fresh_conn_def
        split: option.splits sum.splits prod.splits if_splits)
  assume d: "fst (dial cfg as) = (Some x, e)"
  then obtain k where "dial_wins cfg as 0 k" using dial_from_loses [of cfg as 0 None] by (auto simp: dial_def)
  from dial_from_wins [OF this, of None] d show ?thesis using once [of "as k" x] by (simp add: dial_def)
qed

lemma dial_open: "fst (dial cfg as) = (Some x, e) \<Longrightarrow> \<not> cn_closed x"
  using dial_conn by (fastforce simp: fresh_conn_def)

lemma fetch_loop_open: "cn_closed (snd (fetch_loop w dl ts c)) = cn_closed c"
  by (induction ts arbitrary: c) (auto simp: fetch_loop_turn wrote_def split: turn.split option.split)

lemma fetchSeries_open: "cn_closed (snd (fetchSeries cfg io sy res bars c)) = cn_closed c"
  by (auto simp: fetchSeries_def fetch_body_def send_def ws_write_def Let_def fetch_loop_open
      case_prod_unfold split: option.split outcome.split)

lemma sys_fields [simp]:
  "sy_open (set_pc t q s) = sy_open s" "sy_shut (set_pc t q s) = sy_shut s" "sy_next (set_pc t q s) = sy_next s"
  "sy_pool (set_pc t q s) = sy_pool s" "sy_held (set_pc t q s) = sy_held s" "sy_drain (set_pc t q s) = sy_drain s"
  "sy_pc (set_pc t q s) = (sy_pc s)(t := q)"
  "sy_open (close_conn c s) = sy_open s - {c}" "sy_shut (close_conn c s) = sy_shut s @ [c]"
  "sy_pool (close_conn c s) = sy_pool s" "sy_held (close_conn c s) = sy_held s"
  "sy_pc (close_conn c s) = sy_pc s" "sy_next (close_conn c s) = sy_next s" "sy_drain (close_conn c s) = sy_drain s"
  by (simp_all add: set_pc_def close_conn_def)

lemma client_step_store:
  assumes "client_step U cfg w w'" and "conns_inv (wd_sys w)" and "store_ok w"
  shows "store_ok w'"
  using assms
proof (induction rule: client_step.induct)
  case (dial_ok w t sy res n as x)
  then have "sy_next (wd_sys w) \<notin> set (sy_shut (wd_sys w))" by (auto simp: conns_inv_def owned_def)
  then show ?case using dial_ok dial_open by (auto simp: store_ok_def)
next
  case (fetch w t sy res n c io r x)
  then show ?case using fetchSeries_open [of cfg io sy res n "wd_store w c"] by (simp add: store_ok_def)
qed (auto simp: store_ok_def)

lemma client_step_calls:
  assumes "client_step U cfg w w'" and "world_inv U cfg w"
  shows "call_ok U (wd_args w' u) (pc_of w' u) (wd_call w' u)"
proof -
  have ok: "call_ok U (wd_args w t) (pc_of w t) (wd_call w t)" for t using assms(2) by (simp add: world_inv_def)
  note simps = call_ok_def answers_def
  from assms(1) show ?thesis
  proof (cases rule: client_step.cases)
    case (call t symbol resolution bars)
    then show ?thesis
      using ok [of u] fetch_start_request [of U "wd_closed w" symbol resolution bars]
      by (auto simp: simps started_def at_rest_def split: sum.splits call.splits)
  next
    case (lookup t sy res n now hit cl')
    have "keyed (makeCacheKey sy res n) d" if "hit = Some d" for d
      using cache_lookup_inv(2) [of "client_of cfg w" "makeCacheKey sy res n" now d "cd_Cached d"] lookup that assms(2)
      by (simp add: world_inv_def)
    then have "hit = Some d \<Longrightarrow> res \<in> set wire_forms \<Longrightarrow> cd_Symbol d = sy \<and> cd_Resolution d = res \<and> cd_Candles d \<noteq> []" for d
      using makeCacheKey_inj unfolding keyed_def by metis
    then show ?thesis
      using ok [of u] lookup request_res by (auto simp: simps looked_def split: option.splits prod.splits)
  next
    case (take t sy res n r p)
    then show ?thesis using ok [of u]
      by (auto simp: simps taken_call_def after_take_def network_codes_def split: taken.splits)
  next
    case (dial_fails t sy res n as e)
    then show ?thesis using ok [of u] dial_from_code [of cfg as 0 None e]
      by (auto simp: simps dial_def network_codes_def dial_codes_def)
  next
    case (fetch t sy res n c io r x)
    then show ?thesis using ok [of u] fetchSeries_ok [of cfg io sy res n "wd_store w c"]
      by (auto simp: simps fetch_result_ok_def fetch_codes_def network_codes_def split: sum.splits)
  next
    case (give t sy res n r c now closing p)
    then show ?thesis using ok [of u] by (auto simp: simps after_give_def split: option.splits)
  next
    case (close_used t c)
    then show ?thesis using ok [of u] by (auto simp: simps split: call.splits)
  next
    case (release t)
    then show ?thesis using ok [of u] by (auto simp: simps split: call.splits)
  next
    case (fail t sy res n e)
    then show ?thesis using ok [of u] by (auto simp: simps client_codes_def split: call.splits)
  next
    case (answer t sy res n candles fetched since now)
    then show ?thesis using ok [of u] by (auto simp: simps chart_of_def split: call.splits)
  qed (use ok [of u] in \<open>auto simp: simps network_codes_def\<close>)
qed

lemma client_reachable_cfg: "client_reachable U cfg w \<Longrightarrow> config_ok cfg"
  by (induction rule: client_reachable.induct) (auto simp: withDefaults_config_ok)

lemma client_reachable_sys:
  assumes "client_reachable U cfg w"
  shows "conns_inv (wd_sys w)" and "closed_inv (wd_sys w)"
proof -
  have "0 \<le> cfg_PoolSize cfg" using client_reachable_cfg [OF assms] by (simp add: config_ok_def)
  from reachable_inv [OF client_reachable_pool [OF assms] this]
  show "conns_inv (wd_sys w)" "closed_inv (wd_sys w)" by auto
qed

lemma world_inv_init:
  assumes "cfg = withDefaults cfg0"
  shows "world_inv U cfg (world_init cfg0)"
proof -
  have "client_inv (New cfg0)" by (rule client_inv_new)
  then have "client_inv (client_of cfg (world_init cfg0))"
    by (rule client_inv_cache) (simp_all add: assms world_init_def New_def Let_def)
  then show ?thesis
    by (simp add: world_inv_def world_init_def store_ok_def sys_init_def call_ok_def)
qed

lemma client_reachable_inv: "client_reachable U cfg w \<Longrightarrow> world_inv U cfg w"
proof (induction rule: client_reachable.induct)
  case (init cfg0)
  then show ?case by (rule world_inv_init)
next
  case (step w w')
  then show ?case
    using client_step_cache client_step_calls client_step_store client_reachable_sys(1) [OF step.hyps(1)]
    unfolding world_inv_def by metis
qed

section \<open>What is on a connection\<close>

text \<open>
  A clean connection carries its authentication and finished chart sessions, one after the
  other. \<open>lent\<close>: the call has not used its connection yet, or used it with success.
\<close>

definition finished_session :: "string list \<Rightarrow> bool" where
  "finished_session fs \<longleftrightarrow> (\<exists>ch se sy res n. session_frames ch se sy res n {p. \<exists>raw. heartbeatPong raw = Some p} fs)"

definition clean_conn :: "conn \<Rightarrow> bool" where
  "clean_conn x \<longleftrightarrow> (\<exists>token ss. cn_sent x = encodeFrame \<lparr>tm_Method = ''set_auth_token'', tm_Params = [PStr token]\<rparr> # concat ss
     \<and> list_all finished_session ss)"

definition lent :: "call \<Rightarrow> bool" where
  "lent q = (case q of Fetching sy res n \<Rightarrow> True | Fetched sy res n r \<Rightarrow> healthy r | _ \<Rightarrow> False)"

definition traffic_ok :: "world \<Rightarrow> bool" where
  "traffic_ok w \<longleftrightarrow> (\<forall>c \<in> fst ` set (pl_free (sy_pool (wd_sys w))). clean_conn (wd_store w c))
     \<and> (\<forall>t c. pc_of w t = Using c \<and> lent (wd_call w t) \<longrightarrow> clean_conn (wd_store w c))"

lemma clean_closed [simp]: "clean_conn (x\<lparr>cn_closed := b\<rparr>) = clean_conn x"
  by (simp add: clean_conn_def)

lemma clean_dialed: "fst (dial cfg as) = (Some x, None) \<Longrightarrow> clean_conn x"
  using dial_conn [of cfg as x None] unfolding clean_conn_def by (intro exI [of _ "cfg_AuthToken cfg"] exI [of _ "[]"]) simp

lemma clean_fetched:
  assumes "clean_conn x" and "fetchSeries cfg io sy res n x = (Done r, x')" and "healthy r"
  shows "clean_conn x'"
proof -
  have w: "fi_write io (length (cn_sent x)) = None"
    using fetchSeries_refused [of io x] assms(2,3) by (cases "fi_write io (length (cn_sent x))") (auto simp: healthy_def)
  obtain ch se fs where fs: "cn_sent x' = cn_sent x @ fs" "session_frames ch se sy res n (pongs_of (fi_ticks io)) fs"
    using fetchSeries_session [OF w _ refl refl, of cfg sy res n] assms(2) by auto
  have "session_frames ch se sy res n {p. \<exists>raw. heartbeatPong raw = Some p} fs"
    by (rule session_frames_mono [OF fs(2)]) (auto simp: pongs_of_def)
  then have "finished_session fs" unfolding finished_session_def by blast
  moreover obtain token ss where "cn_sent x = encodeFrame \<lparr>tm_Method = ''set_auth_token'', tm_Params = [PStr token]\<rparr> # concat ss"
    "list_all finished_session ss"
    using assms(1) unfolding clean_conn_def by blast
  ultimately show ?thesis
    unfolding clean_conn_def fs(1) by (intro exI [of _ token] exI [of _ "ss @ [fs]"]) auto
qed

lemma traffic_fetch:
  assumes "conns_inv (wd_sys w)" and "traffic_ok w" and "pc_of w t = Using c" and "lent (wd_call w t)"
    and "lent q \<Longrightarrow> clean_conn x"
  shows "traffic_ok (set_call t q (set_conn c x w))"
proof -
  have own: "owns (pc_of w t) = Some c" using assms(3) by simp
  note lease = lease_owner [OF assms(1) own]
  have other: "u = t" if "pc_of w u = Using c" for u using lease(4) [of u] that by simp
  show ?thesis
    unfolding traffic_ok_def
  proof (intro conjI ballI allI impI)
    fix c' assume "c' \<in> fst ` set (pl_free (sy_pool (wd_sys (set_call t q (set_conn c x w)))))"
    then have "c' \<noteq> c" "clean_conn (wd_store w c')" using lease(1) assms(2) by (auto simp: traffic_ok_def)
    then show "clean_conn (wd_store (set_call t q (set_conn c x w)) c')" by simp
  next
    fix u c' assume h: "pc_of (set_call t q (set_conn c x w)) u = Using c' \<and> lent (wd_call (set_call t q (set_conn c x w)) u)"
    show "clean_conn (wd_store (set_call t q (set_conn c x w)) c')"
    proof (cases "u = t")
      case True
      then show ?thesis using h assms(3,5) by simp
    next
      case False
      then have "c' \<noteq> c" "pc_of w u = Using c'" "lent (wd_call w u)" using h other by auto
      then show ?thesis using assms(2) by (auto simp: traffic_ok_def)
    qed
  qed
qed

lemma traffic_give:
  assumes "traffic_ok w" and "wd_call w t = Fetched sy res n r" and "pc_of w t = Using c"
    and "pool_give (sy_pool (wd_sys w)) (Some c) (healthy r) now = (closing, p)"
  shows "traffic_ok (w\<lparr>wd_sys := set_pc t (after_give closing) ((wd_sys w)\<lparr>sy_pool := p\<rparr>)\<rparr>)"
proof -
  have "healthy r \<Longrightarrow> lent (wd_call w t)" using assms(2) by (simp add: lent_def)
  then have clean: "healthy r \<Longrightarrow> clean_conn (wd_store w c)" using assms(1,3) unfolding traffic_ok_def by blast
  have give: "fst ` set (pl_free p) \<subseteq> (if healthy r then insert c else id) (fst ` set (pl_free (sy_pool (wd_sys w))))"
    "after_give closing \<noteq> Using c'" for c'
    using assms(4) by (auto simp: pool_give_def Let_def after_give_def split: if_splits option.split)
  have "clean_conn (wd_store w c')" if "c' \<in> fst ` set (pl_free p)" for c'
  proof -
    have "c' \<in> fst ` set (pl_free (sy_pool (wd_sys w))) \<or> (healthy r \<and> c' = c)"
      using that give(1) by (auto split: if_splits)
    then show ?thesis using clean assms(1) unfolding traffic_ok_def by blast
  qed
  then show ?thesis using assms(1) give(2) by (simp add: traffic_ok_def)
qed

lemma traffic_less:
  assumes "traffic_ok w" and "set (pl_free (sy_pool (wd_sys w'))) \<subseteq> set (pl_free (sy_pool (wd_sys w)))"
    and "\<And>c. clean_conn (wd_store w c) \<Longrightarrow> clean_conn (wd_store w' c)"
    and "\<And>t c. pc_of w' t = Using c \<Longrightarrow> lent (wd_call w' t) \<Longrightarrow> pc_of w t = Using c \<and> lent (wd_call w t)"
  shows "traffic_ok w'"
  using assms unfolding traffic_ok_def by fastforce

lemma client_step_traffic:
  assumes "client_step U cfg w w'" and "world_inv U cfg w" and "conns_inv (wd_sys w)" and "traffic_ok w"
  shows "traffic_ok w'"
proof -
  have ok: "call_ok U (wd_args w t) (pc_of w t) (wd_call w t)" for t using assms(2) by (simp add: world_inv_def)
  note less = traffic_less [OF assms(4)]
  from assms(1) show ?thesis
  proof (cases rule: client_step.cases)
    case (call t symbol resolution bars)
    then show ?thesis using ok [of t] by (intro less) (auto simp: call_ok_def at_rest_def split: call.splits if_splits)
  next
    case (lookup t sy res n now hit cl')
    then show ?thesis using ok [of t] by (intro less) (auto simp: call_ok_def split: if_splits)
  next
    case (take t sy res n r p)
    have "set (pl_free p) \<subseteq> set (pl_free (sy_pool (wd_sys w)))"
      "r = Reuse c \<Longrightarrow> c \<in> fst ` set (pl_free (sy_pool (wd_sys w)))" for c
      using take(4) by (auto simp: pool_take_def Let_def split: if_splits dest: in_set_takeD)
    then show ?thesis using assms(4) take(1)
      by (cases r) (auto simp: traffic_ok_def after_take_def taken_call_def lent_def)
  next
    case (dial_ok t sy res n as x)
    have "sy_next (wd_sys w) \<notin> sy_open (wd_sys w)" using assms(3) by (auto simp: conns_inv_def owned_def)
    then show ?thesis
      using dial_ok assms(3,4) lease_owner(3) [OF assms(3)] clean_dialed [OF dial_ok(4)]
      by (auto simp: traffic_ok_def conns_inv_def owned_def)
  next
    case (fetch t sy res n c io r x)
    then have l: "lent (wd_call w t)" by (simp add: lent_def)
    then have "clean_conn (wd_store w c)" using assms(4) fetch(3) unfolding traffic_ok_def by blast
    from clean_fetched [OF this fetch(4)] traffic_fetch [OF assms(3,4) fetch(3) l, of "Fetched sy res n r" x] fetch(1)
    show ?thesis by (simp add: lent_def)
  next
    case (give t sy res n r c now closing p)
    then show ?thesis using traffic_give [OF assms(4)] by simp
  next
    case (shut dropped stopping p)
    then show ?thesis by (intro less) (auto simp: pool_shut_def split: if_splits)
  next
    case (reap now dropped p)
    then show ?thesis by (intro less) (auto simp: pool_reap_def reap_split)
  qed (intro less; auto simp: lent_def split: if_splits)+
qed

lemma client_reachable_traffic: "client_reachable U cfg w \<Longrightarrow> traffic_ok w"
proof (induction rule: client_reachable.induct)
  case (init cfg0)
  then show ?case by (simp add: traffic_ok_def world_init_def sys_init_def newConnPool_def)
next
  case (step w w')
  show ?case
    by (rule client_step_traffic [OF step.hyps(2) client_reachable_inv [OF step.hyps(1)]
        client_reachable_sys(1) [OF step.hyps(1)] step.IH])
qed

section \<open>A call as a run of one goroutine\<close>

abbreviation client_run :: "unicode \<Rightarrow> config \<Rightarrow> world \<Rightarrow> world \<Rightarrow> bool" where
  "client_run U cfg \<equiv> (client_step U cfg)\<^sup>*\<^sup>*"

lemma client_run_reachable: "client_run U cfg w w' \<Longrightarrow> client_reachable U cfg w \<Longrightarrow> client_reachable U cfg w'"
  by (induction rule: rtranclp_induct) (auto intro: client_reachable.step)

definition map_taken :: "('a \<Rightarrow> 'b) \<Rightarrow> 'a taken \<Rightarrow> 'b taken" where
  "map_taken f r = (case r of PoolClosed \<Rightarrow> PoolClosed | Reuse c \<Rightarrow> Reuse (f c) | MustDial \<Rightarrow> MustDial)"

lemma map_pool_take:
  "pool_take p = (r, p') \<Longrightarrow> pool_take (map_pool f p) = (map_taken f r, map_pool f p')"
  by (auto simp: pool_take_def map_pool_def map_taken_def Let_def take_map nth_map split: if_splits prod.splits)

lemma map_pool_give:
  "pool_give p (Some c) h now = (r, p') \<Longrightarrow> pool_give (map_pool f p) (Some (f c)) h now = (map_option f r, map_pool f p')"
  by (auto simp: pool_give_def map_pool_def Let_def split: if_splits)

lemma map_pool_other: "c \<notin> fst ` set (pl_free p) \<Longrightarrow> map_pool (f(c := x)) p = map_pool f p"
  by (force simp: map_pool_def)

text \<open>What the goroutine \<open>t\<close> leaves alone: all others.\<close>

definition only :: "nat \<Rightarrow> world \<Rightarrow> world \<Rightarrow> bool" where
  "only t w w' \<longleftrightarrow> (\<forall>u. u \<noteq> t \<longrightarrow> wd_call w' u = wd_call w u \<and> pc_of w' u = pc_of w u \<and> wd_args w' u = wd_args w u)"

lemma only_trans [trans]: "only t w w' \<Longrightarrow> only t w' w'' \<Longrightarrow> only t w w''"
  by (simp add: only_def)

text \<open>How \<open>acquire\<close> ends, as the goroutine sees it: an error and no slot, or a connection.\<close>

definition acquired :: "nat \<Rightarrow> string \<Rightarrow> string \<Rightarrow> int \<Rightarrow> nat \<Rightarrow> world \<Rightarrow> conn option \<Rightarrow> tv_error option \<Rightarrow> bool" where
  "acquired t sy res n held w x err = (case err of
       Some e \<Rightarrow> wd_call w t = Fetched sy res n (Inl e) \<and> pc_of w t = Idle \<and> sy_held (wd_sys w) = held
     | None \<Rightarrow> wd_call w t = Fetching sy res n \<and> sy_held (wd_sys w) = Suc held
         \<and> (\<exists>c. pc_of w t = Using c \<and> x = Some (wd_store w c)))"

lemma release_run:
  assumes "pc_of w t = Leaving" and "sy_held (wd_sys w) = Suc held"
  shows "\<exists>w'. client_step U cfg w w' \<and> only t w w' \<and> client_of cfg w' = client_of cfg w \<and> wd_args w' = wd_args w
    \<and> wd_call w' = wd_call w \<and> pc_of w' t = Idle \<and> sy_held (wd_sys w') = held"
  using client_step.release [OF assms(1), of U cfg] assms(2)
  by (intro exI [of _ "w\<lparr>wd_sys := set_pc t Idle ((wd_sys w)\<lparr>sy_held := sy_held (wd_sys w) - 1\<rparr>)\<rparr>"])
    (simp add: only_def client_of_def)

lemma dial_runs:
  assumes "wd_call w t = Fetching sy res n" and "pc_of w t = Dialing" and "pl_free (sy_pool (wd_sys w)) = []"
    and "sy_held (wd_sys w) = Suc held" and "fst (dial cfg as) = (x, err)"
  shows "\<exists>w'. client_run U cfg w w' \<and> only t w w' \<and> client_of cfg w' = client_of cfg w
    \<and> wd_args w' = wd_args w \<and> acquired t sy res n held w' x err"
proof (cases err)
  case None
  then obtain y where x: "x = Some y" using dial_pair [OF assms(5)] by auto
  let ?c = "sy_next (wd_sys w)"
  let ?w' = "set_conn ?c y (w\<lparr>wd_sys := set_pc t (Using ?c)
       ((wd_sys w)\<lparr>sy_open := insert ?c (sy_open (wd_sys w)), sy_next := Suc ?c\<rparr>)\<rparr>)"
  have "client_step U cfg w ?w'" by (rule client_step.dial_ok) (use assms None x in simp_all)
  then show ?thesis
    using assms None x by (intro exI [of _ ?w']) (auto simp: only_def client_of_def map_pool_def acquired_def)
next
  case (Some e)
  then have x: "x = None" using dial_pair [OF assms(5)] by simp
  let ?w1 = "set_call t (Fetched sy res n (Inl e)) (w\<lparr>wd_sys := set_pc t Leaving (wd_sys w)\<rparr>)"
  have s1: "client_step U cfg w ?w1" by (rule client_step.dial_fails) (use assms Some x in simp_all)
  have "only t w ?w1" "client_of cfg ?w1 = client_of cfg w" by (simp_all add: only_def client_of_def)
  moreover obtain w' where w': "client_step U cfg ?w1 w'" "only t ?w1 w'" "client_of cfg w' = client_of cfg ?w1"
    "wd_args w' = wd_args ?w1" "wd_call w' = wd_call ?w1" "pc_of w' t = Idle" "sy_held (wd_sys w') = held"
    using release_run [of ?w1 t held U cfg] assms(4) by auto
  moreover have "client_run U cfg w w'" using s1 w'(1) by simp
  ultimately show ?thesis using Some only_trans by (intro exI [of _ w']) (auto simp: acquired_def)
qed

lemma acquire_runs:
  assumes "wd_call w t = Fetching sy res n" and "pc_of w t = Idle"
    and "sy_held (wd_sys w) = held" "int held < cfg_PoolSize cfg"
    and "acquire cfg sem as (cl_pool (client_of cfg w)) = ((x, err), p')"
  shows "\<exists>w'. client_run U cfg w w' \<and> only t w w' \<and> client_of cfg w' = (client_of cfg w)\<lparr>cl_pool := p'\<rparr>
    \<and> wd_args w' = wd_args w \<and> acquired t sy res n held w' x err"
proof (cases sem)
  case (Some e)
  let ?w' = "set_call t (Fetched sy res n (Inl (newErr CodeUpstreamTimeout ''pool acquire canceled'' (Some e)))) w"
  have "client_step U cfg w ?w'" by (rule client_step.cancelled [OF assms(1,2)])
  then show ?thesis
    using assms Some by (intro exI [of _ ?w']) (auto simp: acquire_def acquired_def only_def client_of_def)
next
  case None
  let ?s = "wd_sys w"
  let ?w1 = "w\<lparr>wd_sys := set_pc t HasSlot (?s\<lparr>sy_held := Suc (sy_held ?s)\<rparr>)\<rparr>"
  obtain r p where take: "pool_take (sy_pool ?s) = (r, p)" by (metis surj_pair)
  note mt = map_pool_take [OF take, of "wd_store w"]
  let ?w2 = "set_call t (taken_call sy res n r) (?w1\<lparr>wd_sys := set_pc t (after_take r) ((wd_sys ?w1)\<lparr>sy_pool := p\<rparr>)\<rparr>)"
  have "client_step U cfg w ?w1" by (rule client_step.slot) (use assms in simp_all)
  moreover have "client_step U cfg ?w1 ?w2" by (rule client_step.take) (use assms take in simp_all)
  ultimately have run: "client_run U cfg w ?w2" by simp
  have w2: "only t w ?w2" "client_of cfg ?w2 = (client_of cfg w)\<lparr>cl_pool := map_pool (wd_store w) p\<rparr>"
    "wd_args ?w2 = wd_args w" "sy_held (wd_sys ?w2) = Suc held"
    using assms(3) by (simp_all add: only_def client_of_def)
  show ?thesis
  proof (cases r)
    case PoolClosed
    then obtain w3 where w3: "client_step U cfg ?w2 w3" "only t ?w2 w3" "client_of cfg w3 = client_of cfg ?w2"
      "wd_args w3 = wd_args ?w2" "wd_call w3 = wd_call ?w2" "pc_of w3 t = Idle" "sy_held (wd_sys w3) = held"
      using release_run [of ?w2 t held U cfg] w2(4) by (auto simp: after_take_def)
    then have "client_run U cfg w w3" using run by (meson rtranclp.rtrancl_into_rtrancl)
    then show ?thesis
      using assms(5) None mt PoolClosed w2 w3 only_trans [OF w2(1) w3(2)]
      by (intro exI [of _ w3]) (auto simp: acquire_def acquired_def map_taken_def taken_call_def)
  next
    case (Reuse c)
    then show ?thesis
      using assms(5) None mt w2 run
      by (intro exI [of _ ?w2]) (auto simp: acquire_def acquired_def map_taken_def taken_call_def after_take_def)
  next
    case MustDial
    then have "pl_free p = []" using take by (auto simp: pool_take_def Let_def split: if_splits)
    then obtain w3 where w3: "client_run U cfg ?w2 w3" "only t ?w2 w3" "client_of cfg w3 = client_of cfg ?w2"
      "wd_args w3 = wd_args ?w2" "acquired t sy res n held w3 x err"
      using dial_runs [of ?w2 t sy res n held cfg as x err U] assms(5) None mt MustDial w2(4)
      by (auto simp: acquire_def map_taken_def taken_call_def after_take_def)
    then have "client_run U cfg w w3" using run by simp
    then show ?thesis
      using assms(5) None mt MustDial w2 w3 only_trans [OF w2(1) w3(2)]
      by (intro exI [of _ w3]) (auto simp: acquire_def map_taken_def)
  qed
qed

lemma release_runs:
  assumes "wd_call w t = Fetched sy res n r" and "pc_of w t = Using c" and "conns_inv (wd_sys w)"
    and "sy_held (wd_sys w) = Suc held"
    and "release (cl_pool (client_of cfg w)) (Some (wd_store w c)) (healthy r) now = (p', cs)"
  shows "\<exists>w'. client_run U cfg w w' \<and> only t w w' \<and> client_of cfg w' = (client_of cfg w)\<lparr>cl_pool := p'\<rparr>
    \<and> wd_args w' = wd_args w \<and> wd_call w' t = Fetched sy res n r \<and> pc_of w' t = Idle \<and> sy_held (wd_sys w') = held"
proof -
  obtain closing p where give: "pool_give (sy_pool (wd_sys w)) (Some c) (healthy r) now = (closing, p)"
    by (metis surj_pair)
  note mg = map_pool_give [OF give, of "wd_store w"]
  have free: "c \<notin> fst ` set (pl_free (sy_pool (wd_sys w)))" using lease_owner(1) [OF assms(3), of t c] assms(2) by simp
  let ?w1 = "w\<lparr>wd_sys := set_pc t (after_give closing) ((wd_sys w)\<lparr>sy_pool := p\<rparr>)\<rparr>"
  have s1: "client_step U cfg w ?w1" by (rule client_step.give [OF assms(1,2) give])
  have p': "p' = map_pool (wd_store w) p" using assms(5) mg by (auto simp: release_def split: option.splits)
  have w1: "only t w ?w1" "client_of cfg ?w1 = (client_of cfg w)\<lparr>cl_pool := p'\<rparr>" "sy_held (wd_sys ?w1) = Suc held"
    using assms(4) by (simp_all add: only_def client_of_def p')
  have "\<exists>w2. client_run U cfg ?w1 w2 \<and> only t ?w1 w2 \<and> client_of cfg w2 = client_of cfg ?w1 \<and> wd_args w2 = wd_args w
    \<and> wd_call w2 = wd_call w \<and> pc_of w2 t = Leaving \<and> sy_held (wd_sys w2) = Suc held"
  proof (cases closing)
    case None
    then show ?thesis using w1(3) by (intro exI [of _ ?w1]) (simp add: after_give_def only_def)
  next
    case (Some x)
    then have c: "x = c" "p = sy_pool (wd_sys w)" using give by (auto simp: pool_give_def Let_def split: if_splits)
    let ?w2 = "(close_stored c ?w1)\<lparr>wd_sys := set_pc t Leaving (close_conn c (wd_sys ?w1))\<rparr>"
    have "client_step U cfg ?w1 ?w2" by (rule client_step.close_used) (simp add: Some c after_give_def)
    then show ?thesis
      using w1(3) map_pool_other [OF free] by (intro exI [of _ ?w2]) (auto simp: only_def client_of_def c)
  qed
  then obtain w2 where w2: "client_run U cfg ?w1 w2" "only t ?w1 w2" "client_of cfg w2 = client_of cfg ?w1"
    "wd_args w2 = wd_args w" "wd_call w2 = wd_call w" "pc_of w2 t = Leaving" "sy_held (wd_sys w2) = Suc held" by blast
  obtain w3 where w3: "client_step U cfg w2 w3" "only t w2 w3" "client_of cfg w3 = client_of cfg w2"
    "wd_args w3 = wd_args w2" "wd_call w3 = wd_call w2" "pc_of w3 t = Idle" "sy_held (wd_sys w3) = held"
    using release_run [OF w2(6,7), of U cfg] by blast
  have "client_run U cfg w w3"
    using s1 w2(1) w3(1) by (meson converse_rtranclp_into_rtranclp rtranclp.rtrancl_into_rtrancl)
  then show ?thesis
    using only_trans [OF only_trans [OF w1(1) w2(2)] w3(2)] w1(2) w2 w3 assms(1) by (intro exI [of _ w3]) simp
qed

lemma fetchOnce_runs:
  assumes "client_reachable U cfg w" and "wd_call w t = Fetching sy res n" and "pc_of w t = Idle"
    and "sy_held (wd_sys w) = held" "int held < cfg_PoolSize cfg"
    and "fetchOnce cfg io (cl_pool (client_of cfg w)) sy res n = (Done r, p', cs)"
  shows "\<exists>w'. client_run U cfg w w' \<and> only t w w' \<and> client_of cfg w' = (client_of cfg w)\<lparr>cl_pool := p'\<rparr>
    \<and> wd_args w' = wd_args w \<and> wd_call w' t = Fetched sy res n r \<and> pc_of w' t = Idle \<and> sy_held (wd_sys w') = held"
proof -
  obtain x err p1 where a: "acquire cfg (oi_sem io) (oi_dial io) (cl_pool (client_of cfg w)) = ((x, err), p1)"
    by (metis surj_pair)
  from acquire_runs [OF assms(2-5) a] obtain w1 where w1: "client_run U cfg w w1" "only t w w1"
    "client_of cfg w1 = (client_of cfg w)\<lparr>cl_pool := p1\<rparr>" "wd_args w1 = wd_args w" "acquired t sy res n held w1 x err"
    by blast
  show ?thesis
  proof (cases err)
    case (Some e)
    then have "r = Inl e" "p' = p1" using assms(6) a by (cases x; auto simp: fetchOnce_def)+
    then show ?thesis using w1 Some by (intro exI [of _ w1]) (simp add: acquired_def)
  next
    case None
    then obtain c where c: "pc_of w1 t = Using c" "x = Some (wd_store w1 c)" "wd_call w1 t = Fetching sy res n"
      "sy_held (wd_sys w1) = Suc held"
      using w1(5) by (auto simp: acquired_def)
    obtain r' y where f: "fetchSeries cfg (oi_fetch io) sy res n (wd_store w1 c) = (r', y)" by (metis surj_pair)
    have r: "r' = Done r" and rel: "release p1 (Some y) (healthy r) (oi_now io) = (p', cs)"
      using assms(6) a c(2) None f by (auto simp: fetchOnce_def healthy_def split: outcome.splits sum.splits)
    let ?w2 = "set_call t (Fetched sy res n r) (set_conn c y w1)"
    have s2: "client_step U cfg w1 ?w2" by (rule client_step.fetch [OF c(3,1) f [unfolded r]])
    have reach: "client_reachable U cfg w1" by (rule client_run_reachable [OF w1(1) assms(1)])
    note inv = client_reachable_sys(1) [OF reach]
    have "c \<notin> fst ` set (pl_free (sy_pool (wd_sys w1)))" using lease_owner(1) [OF inv, of t c] c(1) by simp
    then have w2: "client_of cfg ?w2 = client_of cfg w1" "only t w1 ?w2"
      using map_pool_other by (auto simp: client_of_def only_def)
    have "release (cl_pool (client_of cfg ?w2)) (Some (wd_store ?w2 c)) (healthy r) (oi_now io) = (p', cs)"
      using rel w1(3) unfolding w2(1) by simp
    then obtain w3 where w3: "client_run U cfg ?w2 w3" "only t ?w2 w3" "client_of cfg w3 = (client_of cfg ?w2)\<lparr>cl_pool := p'\<rparr>"
      "wd_args w3 = wd_args ?w2" "wd_call w3 t = Fetched sy res n r" "pc_of w3 t = Idle" "sy_held (wd_sys w3) = held"
      using release_runs [of ?w2 t sy res n r c held cfg "oi_now io" p' cs U] inv c by auto
    have "client_run U cfg w w3" using w1(1) s2 w3(1) by (meson converse_rtranclp_into_rtranclp rtranclp_trans)
    then show ?thesis
      using only_trans [OF only_trans [OF w1(2) w2(2)] w3(2)] w1 w2 w3 by (intro exI [of _ w3]) simp
  qed
qed

lemma Fetch_staged:
  "Fetch U cl env symbol resolution bars =
     (case fetch_start U (isClosed cl) symbol resolution bars of
        Inl e \<Rightarrow> (Done (Inl e), cl)
      | Inr (sy, res, n) \<Rightarrow>
          (case cache_lookup cl (makeCacheKey sy res n) (fe_get env) of
             (Some hit, cl') \<Rightarrow> (Done (Inr hit), cl')
           | (None, cl') \<Rightarrow> fetch_miss cl' env sy res n))"
  by (simp add: Fetch_def fetch_start_def Let_def split: option.split)

lemma lookup_keeps: "cache_lookup cl key now = (hit, cl') \<Longrightarrow> cl' = cl\<lparr>cl_cache := cl_cache cl'\<rparr>"
  by (auto simp: cache_lookup_def Let_def split: option.splits prod.splits)

lemma store_keeps: "cache_store cl key res d now = cl\<lparr>cl_cache := cl_cache (cache_store cl key res d now)\<rparr>"
  by (simp add: cache_store_def split: option.split)

lemma fetch_miss_runs:
  assumes "client_reachable U cfg w" and "wd_call w t = Fetching sy res n" and "pc_of w t = Idle"
    and "sy_held (wd_sys w) = held" "int held < cfg_PoolSize cfg"
    and "fetch_miss (client_of cfg w) env sy res n = (Done r, cl')"
  shows "\<exists>w'. client_run U cfg w w' \<and> only t w w' \<and> client_of cfg w' = cl' \<and> wd_args w' = wd_args w
    \<and> wd_call w' t = Returned r \<and> pc_of w' t = Idle \<and> sy_held (wd_sys w') = held"
proof -
  obtain r1 p1 cs where f: "fetchOnce cfg (fe_once env) (cl_pool (client_of cfg w)) sy res n = (Done r1, p1, cs)"
    using assms(6) by (auto simp: fetch_miss_def Let_def split: prod.splits outcome.splits)
  from fetchOnce_runs [OF assms(1-5) f] obtain w1 where w1: "client_run U cfg w w1" "only t w w1"
    "client_of cfg w1 = (client_of cfg w)\<lparr>cl_pool := p1\<rparr>" "wd_args w1 = wd_args w"
    "wd_call w1 t = Fetched sy res n r1" "pc_of w1 t = Idle" "sy_held (wd_sys w1) = held"
    by blast
  show ?thesis
  proof (cases r1)
    case (Inl e)
    let ?w2 = "set_call t (Returned (Inl e)) w1"
    have s2: "client_step U cfg w1 ?w2" by (rule client_step.fail) (use w1 Inl in simp_all)
    have "only t w1 ?w2" "client_of cfg ?w2 = client_of cfg w1" by (simp_all add: only_def client_of_def)
    moreover have "client_run U cfg w ?w2" using w1(1) s2 by simp
    moreover have "r = Inl e" "cl' = (client_of cfg w)\<lparr>cl_pool := p1\<rparr>" using assms(6) f Inl by (auto simp: fetch_miss_def)
    ultimately show ?thesis using w1 only_trans [OF w1(2)] by (intro exI [of _ ?w2]) auto
  next
    case (Inr candles)
    let ?d = "chart_of sy res candles (fe_at env) (fe_since env)"
    let ?cl = "cache_store (client_of cfg w1) (makeCacheKey sy res n) res ?d (fe_put env)"
    let ?w2 = "set_call t (Returned (Inr ?d)) (w1\<lparr>wd_cache := cl_cache ?cl\<rparr>)"
    have s2: "client_step U cfg w1 ?w2" by (rule client_step.answer) (use w1 Inr in simp_all)
    have "client_of cfg ?w2 = (client_of cfg w1)\<lparr>cl_cache := cl_cache ?cl\<rparr>" by (simp add: client_of_def)
    then have "client_of cfg ?w2 = ?cl" using store_keeps by metis
    moreover have "only t w1 ?w2" by (simp add: only_def)
    moreover have "client_run U cfg w ?w2" using w1(1) s2 by simp
    moreover have "r = Inr ?d" "cl' = ?cl"
      using assms(6) f Inr w1(3) by (auto simp: fetch_miss_def chart_of_def Let_def)
    ultimately show ?thesis using w1 only_trans [OF w1(2)] by (intro exI [of _ ?w2]) auto
  qed
qed

text \<open>The first two steps of a call: the checks, then the look at the cache.\<close>

lemma start_runs:
  assumes "at_rest (wd_call w t)" and "pc_of w t = Idle"
  shows "\<exists>w'. client_step U cfg w w' \<and> only t w w' \<and> client_of cfg w' = client_of cfg w
    \<and> wd_args w' t = (symbol, resolution, bars) \<and> pc_of w' t = Idle \<and> wd_sys w' = wd_sys w
    \<and> wd_call w' t = started (fetch_start U (wd_closed w) symbol resolution bars)"
  using client_step.call [OF assms(1), of U cfg symbol resolution bars] assms(2)
  by (intro exI conjI) (assumption, simp_all add: only_def client_of_def)

lemma lookup_runs:
  assumes "wd_call w t = Checked sy res n" and "pc_of w t = Idle"
    and "cache_lookup (client_of cfg w) (makeCacheKey sy res n) now = (hit, cl')"
  shows "\<exists>w'. client_step U cfg w w' \<and> only t w w' \<and> client_of cfg w' = cl' \<and> wd_args w' = wd_args w
    \<and> pc_of w' t = Idle \<and> wd_sys w' = wd_sys w \<and> wd_call w' t = looked sy res n hit"
proof -
  have "cl' = (client_of cfg w)\<lparr>cl_cache := cl_cache cl'\<rparr>" by (rule lookup_keeps [OF assms(3)])
  then have "client_of cfg (set_call t (looked sy res n hit) (w\<lparr>wd_cache := cl_cache cl'\<rparr>)) = cl'"
    by (simp add: client_of_def)
  then show ?thesis
    using client_step.lookup [OF assms(1,3), of U] assms(2)
    by (intro exI conjI) (assumption, simp_all add: only_def)
qed

lemma checked_runs:
  assumes "client_reachable U cfg w" and "wd_call w t = Checked sy res n" and "pc_of w t = Idle"
    and "sy_held (wd_sys w) = held" "int held < cfg_PoolSize cfg"
    and "cache_lookup (client_of cfg w) (makeCacheKey sy res n) (fe_get env) = (hit, cl1)"
    and "(case hit of Some d \<Rightarrow> (Done (Inr d), cl1) | None \<Rightarrow> fetch_miss cl1 env sy res n) = (Done r, cl')"
  shows "\<exists>w'. client_run U cfg w w' \<and> only t w w' \<and> client_of cfg w' = cl' \<and> wd_args w' = wd_args w
    \<and> wd_call w' t = Returned r \<and> pc_of w' t = Idle \<and> sy_held (wd_sys w') = held"
proof -
  obtain w2 where w2: "client_step U cfg w w2" "only t w w2" "client_of cfg w2 = cl1" "wd_args w2 = wd_args w"
    "pc_of w2 t = Idle" "wd_sys w2 = wd_sys w" "wd_call w2 t = looked sy res n hit"
    using lookup_runs [OF assms(2,3,6)] by blast
  have run2: "client_run U cfg w w2" using w2(1) by simp
  show ?thesis
  proof (cases hit)
    case (Some d)
    then show ?thesis using assms(4,7) w2 run2 by (intro exI [of _ w2]) (simp add: looked_def)
  next
    case None
    then have miss: "fetch_miss (client_of cfg w2) env sy res n = (Done r, cl')" using assms(7) w2(3) by simp
    obtain w3 where w3: "client_run U cfg w2 w3" "only t w2 w3" "client_of cfg w3 = cl'" "wd_args w3 = wd_args w2"
      "wd_call w3 t = Returned r" "pc_of w3 t = Idle" "sy_held (wd_sys w3) = held"
      using fetch_miss_runs [OF client_run_reachable [OF run2 assms(1)] _ w2(5) _ assms(5) miss] w2 assms(4) None
      by (auto simp: looked_def)
    have "client_run U cfg w w3" using run2 w3(1) by simp
    then show ?thesis using w2 w3 only_trans [OF w2(2) w3(2)] by (intro exI [of _ w3]) simp
  qed
qed

section \<open>Properties\<close>

text \<open>
  C4. The sequential model is a run of the concurrent one: whatever \<open>Fetch\<close> of \<open>Client\<close> returns on
  the client that a reachable world shows, the goroutine can reach by its own steps, with that
  answer, that client afterwards, its slot given back and every other call untouched.
\<close>
theorem fetch_is_a_run:
  assumes "client_reachable U cfg w" and "at_rest (wd_call w t)"
    and "int (sy_held (wd_sys w)) < cfg_PoolSize cfg"
    and "Fetch U (client_of cfg w) env symbol resolution bars = (Done r, cl')"
  shows "\<exists>w'. (client_step U cfg)\<^sup>*\<^sup>* w w' \<and> wd_call w' t = Returned r \<and> client_of cfg w' = cl'
    \<and> wd_args w' t = (symbol, resolution, bars) \<and> only t w w'
    \<and> sy_pc (wd_sys w') t = Idle \<and> sy_held (wd_sys w') = sy_held (wd_sys w)"
proof -
  have "call_ok U (wd_args w t) (pc_of w t) (wd_call w t)"
    using client_reachable_inv [OF assms(1)] by (simp add: world_inv_def)
  then have idle: "pc_of w t = Idle" using assms(2) by (auto simp: call_ok_def at_rest_def split: call.splits)
  obtain w1 where w1: "client_step U cfg w w1" "only t w w1" "client_of cfg w1 = client_of cfg w"
    "wd_args w1 t = (symbol, resolution, bars)" "pc_of w1 t = Idle" "wd_sys w1 = wd_sys w"
    "wd_call w1 t = started (fetch_start U (wd_closed w) symbol resolution bars)"
    using start_runs [OF assms(2) idle] by blast
  show ?thesis
  proof (cases "fetch_start U (wd_closed w) symbol resolution bars")
    case (Inl e)
    then show ?thesis
      using assms(4) w1 by (intro exI [of _ w1]) (auto simp: Fetch_staged isClosed_def started_def)
  next
    case (Inr req)
    then obtain sy res n where req: "fetch_start U (wd_closed w) symbol resolution bars = Inr (sy, res, n)"
      by (cases req) auto
    obtain hit cl1 where look: "cache_lookup (client_of cfg w) (makeCacheKey sy res n) (fe_get env) = (hit, cl1)"
      by (metis surj_pair)
    have rest: "(case hit of Some d \<Rightarrow> (Done (Inr d), cl1) | None \<Rightarrow> fetch_miss cl1 env sy res n) = (Done r, cl')"
      using assms(4) req look by (simp add: Fetch_staged isClosed_def split: option.splits)
    have run1: "client_run U cfg w w1" using w1(1) by simp
    have "wd_call w1 t = Checked sy res n" using w1(7) req by (simp add: started_def)
    then obtain w2 where w2: "client_run U cfg w1 w2" "only t w1 w2" "client_of cfg w2 = cl'" "wd_args w2 = wd_args w1"
      "wd_call w2 t = Returned r" "pc_of w2 t = Idle" "sy_held (wd_sys w2) = sy_held (wd_sys w)"
      using checked_runs [OF client_run_reachable [OF run1 assms(1)] _ w1(5) _ assms(3) _ rest] look w1(3,6) by auto
    have "client_run U cfg w w2" using run1 w2(1) by simp
    then show ?thesis using w1 w2 only_trans [OF w1(2) w2(2)] by (intro exI [of _ w2]) simp
  qed
qed

text \<open>
  C3. Every interleaving answers soundly: whatever calls, \<open>Close\<close>, the reaper and the network
  do in between, a call that has returned carries candles of the symbol and resolution its own
  arguments stand for, or an error with a stable code; the shared cache stays within its size
  and holds under each key an answer to that key's request.
\<close>
theorem concurrent_answers:
  assumes "client_reachable U cfg w"
  shows "(\<forall>t r. wd_call w t = Returned r \<longrightarrow> answers U (wd_args w t) r)
    \<and> (\<forall>c. wd_cache w = Some c \<longrightarrow> int (length (lc_ll c)) \<le> cfg_CacheSize cfg
        \<and> (\<forall>k d x. cache_view c k = Some (d, x) \<longrightarrow> keyed k d))"
proof -
  have inv: "world_inv U cfg w" by (rule client_reachable_inv [OF assms])
  have "answers U (wd_args w t) r" if "wd_call w t = Returned r" for t r
  proof -
    have "call_ok U (wd_args w t) (pc_of w t) (wd_call w t)" using inv by (simp add: world_inv_def)
    then show ?thesis using that by (auto simp: call_ok_def split: prod.splits)
  qed
  moreover have "int (length (lc_ll c)) \<le> cfg_CacheSize cfg \<and> (\<forall>k d x. cache_view c k = Some (d, x) \<longrightarrow> keyed k d)"
    if "wd_cache w = Some c" for c
    using inv that by (auto simp: world_inv_def client_inv_of cache_inv_def config_ok_def)
  ultimately show ?thesis by blast
qed

text \<open>
  C7. A connection on loan is the borrower's alone: while a goroutine uses a connection it is not
  closed, and no step of another goroutine, of the reaper or of \<open>Close\<close> touches it; so a series
  fetch never runs on a closed connection and never mixes its writes with another's.
\<close>
theorem lease_isolated:
  assumes "client_reachable U cfg w" and "client_step U cfg w w'" and "sy_pc (wd_sys w) t = Using c"
  shows "\<not> cn_closed (wd_store w c)
    \<and> (wd_call w' t = wd_call w t \<and> sy_pc (wd_sys w') t = Using c \<longrightarrow> wd_store w' c = wd_store w c)"
proof -
  note inv = client_reachable_sys(1) [OF assms(1)]
  have own: "owns (pc_of w t) = Some c" using assms(3) by simp
  note lease = lease_owner [OF inv own]
  have "store_ok w" using client_reachable_inv [OF assms(1)] by (simp add: world_inv_def)
  then have "\<not> cn_closed (wd_store w c)" using lease(3) by (simp add: store_ok_def)
  moreover have other: "c \<noteq> sy_next (wd_sys w)" using inv lease(3) by (auto simp: conns_inv_def owned_def)
  have only_t: "pc_of w u = Using c \<Longrightarrow> u = t" "pc_of w u = Closing c \<Longrightarrow> u = t" for u using lease(4) [of u] by auto
  have "wd_store w' c = wd_store w c" if "wd_call w' t = wd_call w t" "pc_of w' t = Using c"
    using assms(2) by (cases rule: client_step.cases) (use that other lease(2) assms(3) in \<open>auto dest: only_t\<close>)
  ultimately show ?thesis by blast
qed



section \<open>Several resolutions at once\<close>

definition outcome_of :: "call \<Rightarrow> (tv_error + chart_data) outcome" where
  "outcome_of q = (case q of Returned r \<Rightarrow> Done r | _ \<Rightarrow> Waiting)"

text \<open>
  \<open>FetchMulti\<close> in the world: goroutine \<open>t\<close> of a pair \<open>(r, t)\<close> fetches the resolution \<open>r\<close>; the list is in the
  order in which they lock the result.
\<close>

definition multi_in :: "unicode \<Rightarrow> world \<Rightarrow> string \<Rightarrow> (string \<times> nat) list \<Rightarrow> int \<Rightarrow> int \<Rightarrow> multi_chart_data outcome" where
  "multi_in U w symbol jobs now since =
     multi_finish (NormalizeSymbol U symbol) (map (\<lambda>(r, t). (r, outcome_of (wd_call w t))) jobs) now since"

text \<open>
  C12. \<open>FetchMulti\<close> under interleaving: when the goroutines it started have all returned, whatever
  else ran on the client, it returns, and every requested resolution is reported, as data of
  the right symbol and resolution or as an error with its text; nothing else is.
\<close>
theorem concurrent_multi:
  assumes "client_reachable U cfg w"
    and "\<forall>(r, t) \<in> set jobs. wd_args w t = (symbol, r, bars) \<and> (\<exists>x. wd_call w t = Returned x)"
  shows "\<exists>out. multi_in U w symbol jobs now since = Done out
    \<and> (\<forall>(r, t) \<in> set jobs. reported U (NormalizeSymbol U symbol) out r)
    \<and> (\<forall>r msg. err_at out r = Some msg \<longrightarrow>
        (\<exists>t e. (r, t) \<in> set jobs \<and> wd_call w t = Returned (Inl e) \<and> msg = error_string (Some e)))
    \<and> (\<forall>k. slab out k \<noteq> None \<longrightarrow> (\<exists>(r, t) \<in> set jobs. NormalizeResolution U r = Some k))"
proof -
  let ?outs = "map (\<lambda>(r, t). (r, outcome_of (wd_call w t))) jobs"
  have ret: "\<exists>x. wd_call w t = Returned x \<and> answers U (symbol, r, bars) x" if j: "(r, t) \<in> set jobs" for r t
  proof -
    obtain x where x: "wd_call w t = Returned x" "wd_args w t = (symbol, r, bars)"
      using bspec [OF assms(2) j] by auto
    have "call_ok U (wd_args w t) (pc_of w t) (wd_call w t)"
      using client_reachable_inv [OF assms(1)] by (simp add: world_inv_def)
    then show ?thesis using x by (simp add: call_ok_def)
  qed
  have "list_all (\<lambda>(r, x). \<exists>y. x = Done y) ?outs" using ret by (fastforce simp: list_all_iff outcome_of_def)
  then obtain out where out: "multi_finish (NormalizeSymbol U symbol) ?outs now since = Done out"
    using multi_finish_done by blast
  have "sound_outcome U (NormalizeSymbol U symbol) (r, outcome_of (wd_call w t))" if j: "(r, t) \<in> set jobs" for r t
  proof -
    obtain x where "wd_call w t = Returned x" "answers U (symbol, r, bars) x" using ret [OF j] by blast
    then show ?thesis
      by (cases x) (auto simp: sound_outcome_def outcome_of_def answers_def request_def split: if_splits)
  qed
  then have "list_all (sound_outcome U (NormalizeSymbol U symbol)) ?outs" by (auto simp: list_all_iff)
  note rep = multi_finish_reports [OF out this]
  have "\<forall>(r, t) \<in> set jobs. reported U (NormalizeSymbol U symbol) out r"
    using rep(1) by (auto simp: list_all_iff)
  moreover have "\<exists>t e. (r, t) \<in> set jobs \<and> wd_call w t = Returned (Inl e) \<and> msg = error_string (Some e)"
    if "err_at out r = Some msg" for r msg
    using rep(2) [OF that] by (clarsimp simp: outcome_of_def split: call.splits) metis
  moreover have "\<exists>(r, t) \<in> set jobs. NormalizeResolution U r = Some k" if "slab out k \<noteq> None" for k
    using rep(3) [OF that] by fastforce
  ultimately show ?thesis using out unfolding multi_in_def by blast
qed

section \<open>A sample run\<close>

abbreviation sample_config :: config where
  "sample_config \<equiv> zero_config\<lparr>cfg_EnableCache := True\<rparr>"

abbreviation sample_start :: world where
  "sample_start \<equiv> world_init sample_config"

lemma sample_start_reachable: "client_reachable no_tables (withDefaults sample_config) sample_start"
  by (rule client_reachable.init) (rule refl)

lemma sample_start_client: "client_of (withDefaults sample_config) sample_start = sample_client"
  by (simp add: client_of_def world_init_def sample_client_def New_def Let_def sys_init_def newConnPool_def map_pool_def)

lemma sample_slots: "0 < cfg_PoolSize (withDefaults sample_config)"
  using withDefaults_config_ok [of sample_config] by (simp add: config_ok_def)

lemma sample_rest: "at_rest (wd_call sample_start t)" "pc_of sample_start t = Idle" "sy_held (wd_sys sample_start) = 0"
  by (simp_all add: world_init_def at_rest_def sys_init_def)

text \<open>A call of goroutine 0: accepted, answered, and with a connection in use.\<close>

lemma sample_request: "request no_tables ''btc '' ''5m'' 0 = Some (''BTC'', ''5'', 300)"
  by code_simp

lemma sample_checked:
  obtains w where "client_reachable no_tables (withDefaults sample_config) w"
    and "client_of (withDefaults sample_config) w = sample_client" and "pc_of w 0 = Idle"
    and "wd_sys w = wd_sys sample_start" and "wd_call w 0 = Checked ''BTC'' ''5'' 300"
    and "wd_args w 0 = (''btc '', ''5m'', 0)"
proof -
  let ?req = "fetch_start no_tables (wd_closed sample_start) ''btc '' ''5m'' 0"
  have start: "?req = Inr (''BTC'', ''5'', 300)"
    by (subst fetch_start_request) (simp add: sample_request world_init_def)
  obtain w where w: "client_step no_tables (withDefaults sample_config) sample_start w"
    "client_of (withDefaults sample_config) w = sample_client" "wd_args w 0 = (''btc '', ''5m'', 0)"
    "pc_of w 0 = Idle" "wd_sys w = wd_sys sample_start" "wd_call w 0 = started ?req"
    using start_runs [OF sample_rest(1,2), of no_tables "withDefaults sample_config" 0 "''btc ''" "''5m''" 0]
      sample_start_client by auto
  show thesis
    by (rule that [OF client_reachable.step [OF sample_start_reachable w(1)] w(2,4,5)])
      (use w(3,6) start in \<open>simp_all add: started_def\<close>)
qed

lemma sample_answered:
  obtains w where "client_reachable no_tables (withDefaults sample_config) w"
    and "wd_call w 0 = Returned (Inr sample_answer)" and "wd_args w 0 = (''btc '', ''5m'', 0)"
    and "pl_free (sy_pool (wd_sys w)) \<noteq> []"
proof -
  let ?cfg = "withDefaults sample_config"
  obtain w1 where w1: "client_reachable no_tables ?cfg w1" "client_of ?cfg w1 = sample_client"
    "pc_of w1 0 = Idle" "wd_sys w1 = wd_sys sample_start" "wd_call w1 0 = Checked ''BTC'' ''5'' 300"
    "wd_args w1 0 = (''btc '', ''5m'', 0)"
    by (rule sample_checked)
  obtain hit cl1 where look: "cache_lookup sample_client (makeCacheKey ''BTC'' ''5'' 300) (fe_get sample_env) = (hit, cl1)"
    by (metis surj_pair)
  have "\<not> cl_closed sample_client" by (simp add: sample_client_def New_def Let_def)
  from Fetch_request(1) [OF sample_request this, of sample_env] look
  have "(case hit of Some d \<Rightarrow> (Done (Inr d), cl1) | None \<Rightarrow> fetch_miss cl1 sample_env ''BTC'' ''5'' 300)
      = Fetch no_tables sample_client sample_env ''btc '' ''5m'' 0" by (cases hit) simp_all
  then obtain cl' where "(case hit of Some d \<Rightarrow> (Done (Inr d), cl1)
      | None \<Rightarrow> fetch_miss cl1 sample_env ''BTC'' ''5'' 300) = (Done (Inr sample_answer), cl')"
    and "pl_free (cl_pool cl') \<noteq> []"
    using sample_Fetch sample_Fetch_pool by (metis prod.collapse)
  then obtain w2 where w2: "client_run no_tables ?cfg w1 w2" "wd_args w2 = wd_args w1"
    "wd_call w2 0 = Returned (Inr sample_answer)" "pl_free (cl_pool (client_of ?cfg w2)) \<noteq> []"
    using checked_runs [OF w1(1,5,3), of 0 sample_env hit cl1] w1(2,4) look sample_rest(3) sample_slots by auto
  from w2(4) have "pl_free (sy_pool (wd_sys w2)) \<noteq> []" by (simp add: map_pool_def)
  then show thesis using that client_run_reachable [OF w2(1) w1(1)] w2 w1(6) by simp
qed

lemma sample_using_conn:
  obtains w c where "client_reachable no_tables (withDefaults sample_config) w" and "sy_pc (wd_sys w) 0 = Using c"
proof -
  let ?cfg = "withDefaults sample_config"
  obtain w1 where w1: "client_reachable no_tables ?cfg w1" "client_of ?cfg w1 = sample_client"
    "pc_of w1 0 = Idle" "wd_sys w1 = wd_sys sample_start" "wd_call w1 0 = Checked ''BTC'' ''5'' 300"
    by (rule sample_checked)
  have "cache_lookup sample_client (makeCacheKey ''BTC'' ''5'' 300) 0 = (None, sample_client)"
    by (simp add: sample_client_def New_def Let_def withDefaults_def cache_lookup_def lruGet_def newCache_def)
  then obtain w2 where w2: "client_step no_tables ?cfg w1 w2" "pc_of w2 0 = Idle" "wd_sys w2 = wd_sys w1"
    "wd_call w2 0 = Fetching ''BTC'' ''5'' 300"
    using lookup_runs [OF w1(5,3), of ?cfg 0 None sample_client no_tables] w1(2) by (auto simp: looked_def)
  have reach: "client_reachable no_tables ?cfg w2" by (rule client_reachable.step [OF w1(1) w2(1)])
  have "sy_pool (wd_sys w2) = newConnPool" using w2(3) w1(4) by (simp add: world_init_def sys_init_def)
  then obtain x p where a: "acquire ?cfg None (\<lambda>_. good_attempt) (cl_pool (client_of ?cfg w2)) = ((x, None), p)"
    using sample_dial [of ?cfg] by (simp add: acquire_def pool_take_def map_pool_def newConnPool_def)
  have h: "sy_held (wd_sys w2) = 0" using w1(4) w2(3) sample_rest(3) by simp
  have "int 0 < cfg_PoolSize ?cfg" using sample_slots by simp
  from acquire_runs [OF w2(4,2) h this a, of no_tables] obtain w3 c where "client_run no_tables ?cfg w2 w3" "pc_of w3 0 = Using c"
    by (auto simp: acquired_def)
  then show thesis using that client_run_reachable [OF _ reach] by blast
qed

theorem fetch_is_a_run_witness:
  "\<exists>w'. (client_step no_tables (withDefaults sample_config))\<^sup>*\<^sup>* sample_start w'
    \<and> wd_call w' 0 = Returned (Inr sample_answer)"
proof -
  obtain cl' where "Fetch no_tables (client_of (withDefaults sample_config) sample_start) sample_env ''btc '' ''5m'' 0
      = (Done (Inr sample_answer), cl')"
    using sample_Fetch by (metis prod.collapse sample_start_client)
  from fetch_is_a_run [OF sample_start_reachable sample_rest(1) _ this] sample_rest(3) sample_slots
  show ?thesis by auto
qed

theorem concurrent_answers_witness:
  "\<exists>w. client_reachable no_tables (withDefaults sample_config) w
    \<and> wd_call w 0 = Returned (Inr sample_answer) \<and> answers no_tables (''btc '', ''5m'', 0) (Inr sample_answer)"
proof -
  obtain w where w: "client_reachable no_tables (withDefaults sample_config) w"
    "wd_call w 0 = Returned (Inr sample_answer)" "wd_args w 0 = (''btc '', ''5m'', 0)"
    by (rule sample_answered)
  from concurrent_answers [OF w(1)] have "answers no_tables (wd_args w 0) (Inr sample_answer)" using w(2) by blast
  then have "answers no_tables (''btc '', ''5m'', 0) (Inr sample_answer)" unfolding w(3) .
  then show ?thesis using w(1,2) by blast
qed

theorem lease_isolated_witness:
  "\<exists>w c. client_reachable no_tables (withDefaults sample_config) w \<and> sy_pc (wd_sys w) 0 = Using c
    \<and> \<not> cn_closed (wd_store w c)"
proof -
  let ?cfg = "withDefaults sample_config"
  have one: "client_step no_tables ?cfg w (w\<lparr>wd_closed := True\<rparr>)" for w by (rule client_step.mark_closed)
  obtain w c where w: "client_reachable no_tables ?cfg w" "sy_pc (wd_sys w) 0 = Using c" by (rule sample_using_conn)
  from lease_isolated [OF w(1) one w(2)] w show ?thesis by blast
qed



theorem concurrent_multi_witness:
  "\<exists>w out. multi_in no_tables w ''btc '' [(''5m'', 0)] 7 0 = Done out \<and> reported no_tables ''BTC'' out ''5m''"
proof -
  obtain w where w: "client_reachable no_tables (withDefaults sample_config) w"
    "wd_call w 0 = Returned (Inr sample_answer)" "wd_args w 0 = (''btc '', ''5m'', 0)"
    by (rule sample_answered)
  then have "\<forall>(r, t) \<in> set [(''5m'', 0)]. wd_args w t = (''btc '', r, 0) \<and> (\<exists>x. wd_call w t = Returned x)" by simp
  from concurrent_multi [OF w(1) this, of 7 0]
  obtain out where "multi_in no_tables w ''btc '' [(''5m'', 0)] 7 0 = Done out"
    "reported no_tables (NormalizeSymbol no_tables ''btc '') out ''5m''" by auto
  moreover have "NormalizeSymbol no_tables ''btc '' = ''BTC''" by code_simp
  ultimately show ?thesis by auto
qed

end
