(* ===== verification/Spec2Isabelle.thy ===== *)
theory Spec2Isabelle
  imports Cmd Stream Concurrent
begin

text \<open>
  Verification development of tradingview-go: a Go client for TradingView market data, its
  technical-analysis package, and the tools and commands built on them.

  \<^bold>\<open>The program.\<close> A \<open>Client\<close> (\<open>client.go\<close>) answers \<open>Fetch\<close>: it normalises the symbol and the
  resolution (\<open>protocol.go\<close>), looks in an optional TTL and LRU cache (\<open>cache.go\<close>), takes a
  WebSocket connection from a bounded pool (\<open>pool.go\<close>), runs one chart session on it (\<open>conn.go\<close>)
  in the framed wire protocol (\<open>protocol.go\<close>), and gives the connection back. \<open>FetchMulti\<close> does
  this for several resolutions in parallel; \<open>SearchSymbols\<close> (\<open>search.go\<close>) asks a REST endpoint;
  a \<open>Streamer\<close> (\<open>stream.go\<close>) keeps subscriptions open. \<open>ta/ta.go\<close> turns candles into readings
  of fifteen indicators; \<open>mcp/\<close> offers all this as tools, and \<open>cmd/\<close> holds two programs.

  \<^bold>\<open>The theories\<close>, each with the operations of its file in their order and the lemmas about them:

  \<^item> \<open>Prelude\<close>: Go's run-time panic as \<open>'a go = 'a option\<close>, slicing and indexing, 64-bit wrap-around.
  \<^item> \<open>GoStrings\<close>: the functions of \<open>strings\<close>, \<open>strconv\<close> and \<open>fmt\<close> the sources call, on byte
    strings. The Unicode tables are a parameter, consulted only outside ASCII.
  \<^item> \<open>Float64\<close>: IEEE doubles as sign, mantissa and exponent, with correctly rounded arithmetic
    and comparisons; the lemmas relate them to rounding on the reals (\<open>xval\<close>, \<open>fl\<close>).
  \<^item> \<open>Json\<close>: \<open>encoding/json\<close> as far as it is used, encoder and decoder.
  \<^item> \<open>Types\<close>: \<open>types.go\<close>, \<open>errors.go\<close>, \<open>config.go\<close>.
  \<^item> \<open>Protocol\<close>: \<open>protocol.go\<close>. The locale \<open>framing\<close> is the contract between a frame encoder and a
    decoder; it is interpreted on \<open>encodeFrame\<close> and \<open>decodeFrames\<close>.
  \<^item> \<open>Cache\<close>: \<open>cache.go\<close> with its linked list of elements and its index. The locale \<open>ttl_cache\<close> is
    what the client relies on, interpreted on \<open>lruGet\<close> and \<open>lruPut\<close>; the reference is an
    association list in order of use.
  \<^item> \<open>Conn\<close>: \<open>conn.go\<close>: dialing with retries, the handshake, a chart session and its read loop.
  \<^item> \<open>Pool\<close>: \<open>pool.go\<close>: the critical sections as functions on the pool, and \<open>pool_step\<close>, the
    steps of any number of goroutines, of the reaper and of \<open>close\<close>, in any interleaving.
  \<^item> \<open>Client\<close>: \<open>client.go\<close>: \<open>New\<close>, \<open>Close\<close>, \<open>Fetch\<close>, \<open>FetchMulti\<close> over the four before, one call at a
    time.
  \<^item> \<open>Concurrent\<close>: the same client with the calls of any number of goroutines interleaved:
    \<open>client_step\<close> cuts \<open>Fetch\<close> at every access to shared state. Each of its steps is a step of the
    pool or leaves it alone, and a sequential \<open>Fetch\<close> is one of its runs.
  \<^item> \<open>Search\<close>: \<open>search.go\<close>.
  \<^item> \<open>Stream\<close>: \<open>stream.go\<close>: a subscription as the run of its goroutine, and \<open>hub_step\<close>, the steps of
    all goroutines with \<open>Subscribe\<close> and \<open>Close\<close> in any interleaving.
  \<^item> \<open>Indicators\<close> and \<open>VolumeProfile\<close>: the classifiers and enrichers of \<open>ta/ta.go\<close>; \<open>Pipeline\<close>: the
    runs over enrichers. The locale \<open>enricher_set\<close> is Go's interface \<open>Enricher\<close> with the law the
    runs use, interpreted on \<open>Enrich\<close>; \<open>Analysis\<close>: the facts about the runs.
  \<^item> \<open>Mcp\<close>: \<open>mcp/\<close>; \<open>Cmd\<close>: \<open>cmd/\<close>.

  \<^bold>\<open>How effects are modelled.\<close> State is passed explicitly: a cache, a pool, a client is a
  record, and an operation returns it updated. What the program reads from outside is an
  argument, consumed in the order the code consumes it: a clock reading, the results of dialing,
  reading and writing, the replies of a server. A loop that waits runs over the list of what it
  will read, and a finished list gives \<open>Waiting\<close>, so that returning is a fact to prove; a
  run-time panic is \<open>None\<close> or \<open>Panicked\<close>. Go maps are partial functions, or association
  lists where their iteration order shows. Errors are values of \<open>tv_error\<close>.

  \<^bold>\<open>What the lemmas show.\<close>
  The protocol: batches and messages read back, decoding panics only on negative lengths,
  normalisation is idempotent and insensitive to case and spaces, parsed candles are the
  series' candles. The cache: a refinement of the reference list for every history, with
  freshness and retention. Connections: at most three dials with every failed socket closed,
  the session deleted on every way out, candles exactly for the first data message in
  time, and an answer by the deadline. The pool: one owner for each connection, never more than
  the slots, no leak. The client: an answer for the request that was made, refusals in order,
  repeated requests served from the cache, all resolutions accounted for, and all this in
  every interleaving of calls: sound answers and a sound cache, a connection on loan
  untouched by others, nothing left open. Search: the cleaned,
  deduplicated and cut list; queries that survive their encoding. Streaming: every candle once and in
  order over all reconnects, silence after \<open>Close\<close>, which returns. Indicators: no panic when the indicator library keeps its promises,
  the filter and the single-indicator API agree with the pipeline, ordered volume-profile and
  Fibonacci levels in spite of rounding. Tools and commands: well-formed replies, readings of
  the requested market, the precedence of the configuration.

  \<^bold>\<open>Bounds.\<close> Recursion follows lists or a measure; there is no fuel. The theorems on float levels
  assume prices below \<open>2 ^ 900\<close> in magnitude and at most \<open>2 ^ 40\<close> bins, so that no intermediate
  result overflows. \<open>lib_ok\<close> asks the indicator library to return only for positive periods on
  series long enough for them.

  \<^bold>\<open>Parameters.\<close> \<open>github.com/Bitvested/ta.go\<close> is the record \<open>talib\<close>; \<open>gorilla/websocket\<close>, \<open>net/http\<close>
  and the network are the scripted inputs above; \<open>golang.org/x/sync\<close> enters by its contract (a
  weighted semaphore, and a group that waits for its goroutines); \<open>mcptool\<close> by its error type and
  \<open>PageOf\<close>.

  \<^bold>\<open>Not modelled.\<close> \<open>logger.go\<close> and every log line; the JSON tags of the result types and the
  printing of results; flag parsing; the stdio server of the MCP
  library, which is a parameter of \<open>run_server\<close>. A series fetch is one step of \<open>Concurrent\<close>, at its
  end: \<open>lease_isolated\<close> says that nobody else can touch its connection in between. A result and its candles are values here: that a
  cached \<open>ChartData\<close> shares its candle slice with every caller is not visible.
\<close>

end
